(* ===== verification/Rkvs_Prelude.thy ===== *)
theory Rkvs_Prelude
  imports Main "HOL-Library.Word" "HOL-Library.List_Lexorder" "HOL-Library.Char_ord"
    "HOL-Library.AList" "HOL-Library.Code_Target_Nat"
begin

text \<open>
  Shared vocabulary of the development: the outcome of a Rust call (a value, an error or
  a panic), actions on explicit state, bytes and byte strings, fixed-width integer
  encodings, bounds-checked slices, and the type \<open>rstring\<close> of Rust strings with its
  order.  Lemmas that several components use are collected in \<open>outcome\<close> (inversion of
  sequenced calls) and \<open>codec\<close> (encodings and slices).

  Integers: a \<open>u32\<close>, \<open>u64\<close> or \<open>usize\<close> of the program is a \<open>nat\<close>; every cast is written
  out as \<open>mod 2 ^ w\<close>, and additions and subtractions that can leave the range are checked
  by \<open>add_chk\<close> and \<open>sub_chk\<close>, which panic as the development profile of \<open>cargo\<close> does.
\<close>

named_theorems outcome \<open>inversion rules for sequenced calls\<close>
named_theorems codec \<open>encodings, decodings and slices\<close>

section \<open>Outcomes\<close>

datatype ('e, 'a) res = Ok 'a | Err 'e | Panic

definition is_Ok :: "('e, 'a) res \<Rightarrow> bool" where
  "is_Ok r = (case r of Ok _ \<Rightarrow> True | _ \<Rightarrow> False)"

lemma is_Ok_iff: "is_Ok r \<longleftrightarrow> (\<exists>x. r = Ok x)"
  by (cases r) (simp_all add: is_Ok_def)

fun bind_res :: "('e, 'a) res \<Rightarrow> ('a \<Rightarrow> ('e, 'b) res) \<Rightarrow> ('e, 'b) res" where
  "bind_res (Ok x) f = f x"
| "bind_res (Err e) f = Err e"
| "bind_res Panic f = Panic"

fun map_err :: "('e \<Rightarrow> 'f) \<Rightarrow> ('e, 'a) res \<Rightarrow> ('f, 'a) res" where
  "map_err g (Ok x) = Ok x"
| "map_err g (Err e) = Err (g e)"
| "map_err g Panic = Panic"

lemma bind_res_Ok_iff [outcome]:
  "bind_res m f = Ok y \<longleftrightarrow> (\<exists>x. m = Ok x \<and> f x = Ok y)"
  by (cases m) auto

lemma bind_res_assoc: "bind_res (bind_res m f) g = bind_res m (\<lambda>x. bind_res (f x) g)"
  by (cases m) auto

lemma map_err_Ok_iff [outcome]: "map_err g m = Ok y \<longleftrightarrow> m = Ok y"
  by (cases m) auto

text \<open>\<open>Option::unwrap\<close>, and \<open>assert!\<close>.\<close>

definition unwrap :: "'a option \<Rightarrow> ('e, 'a) res" where
  "unwrap x = (case x of None \<Rightarrow> Panic | Some y \<Rightarrow> Ok y)"

definition assert_that :: "bool \<Rightarrow> ('e, unit) res" where
  "assert_that b = (if b then Ok () else Panic)"

lemma unwrap_simps [simp]: "unwrap None = Panic" "unwrap (Some x) = Ok x"
  by (simp_all add: unwrap_def)

lemma assert_that_simps [simp]: "assert_that True = Ok ()" "assert_that False = Panic"
  by (simp_all add: assert_that_def)

text \<open>Checked unsigned arithmetic of a given width.\<close>

definition add_chk :: "nat \<Rightarrow> nat \<Rightarrow> nat \<Rightarrow> ('e, nat) res" where
  "add_chk w a b = (if a + b < 2 ^ w then Ok (a + b) else Panic)"

definition sub_chk :: "nat \<Rightarrow> nat \<Rightarrow> ('e, nat) res" where
  "sub_chk a b = (if b \<le> a then Ok (a - b) else Panic)"

lemma add_chk_Ok_iff [outcome]: "add_chk w a b = Ok c \<longleftrightarrow> a + b < 2 ^ w \<and> c = a + b"
  by (auto simp: add_chk_def)

lemma sub_chk_Ok_iff [outcome]: "sub_chk a b = Ok c \<longleftrightarrow> b \<le> a \<and> c = a - b"
  by (auto simp: sub_chk_def)

section \<open>Actions on state\<close>

text \<open>
  A method on mutable state is a function from the state to an outcome and the state it
  leaves behind: an error or a panic keeps the changes already made.
\<close>

type_synonym ('s, 'e, 'a) act = "'s \<Rightarrow> ('e, 'a) res \<times> 's"

definition ret :: "'a \<Rightarrow> ('s, 'e, 'a) act" where
  "ret x = (\<lambda>s. (Ok x, s))"

definition raise :: "'e \<Rightarrow> ('s, 'e, 'a) act" where
  "raise e = (\<lambda>s. (Err e, s))"

definition lift_res :: "('e, 'a) res \<Rightarrow> ('s, 'e, 'a) act" where
  "lift_res r = (\<lambda>s. (r, s))"

definition bind_act :: "('s, 'e, 'a) act \<Rightarrow> ('a \<Rightarrow> ('s, 'e, 'b) act) \<Rightarrow> ('s, 'e, 'b) act" where
  "bind_act m f = (\<lambda>s. case m s of
     (Ok x, s') \<Rightarrow> f x s' | (Err e, s') \<Rightarrow> (Err e, s') | (Panic, s') \<Rightarrow> (Panic, s'))"

abbreviation seq_act :: "('s, 'e, unit) act \<Rightarrow> ('s, 'e, 'b) act \<Rightarrow> ('s, 'e, 'b) act" where
  "seq_act m n \<equiv> bind_act m (\<lambda>_. n)"

lemma ret_apply [simp]: "ret x s = (Ok x, s)"
  by (simp add: ret_def)

lemma raise_apply [simp]: "raise e s = (Err e, s)"
  by (simp add: raise_def)

lemma lift_res_apply [simp]: "lift_res r s = (r, s)"
  by (simp add: lift_res_def)

lemma bind_act_Ok_iff [outcome]:
  "bind_act m f s = (Ok y, t) \<longleftrightarrow> (\<exists>x s'. m s = (Ok x, s') \<and> f x s' = (Ok y, t))"
  by (auto simp: bind_act_def split: prod.splits res.splits)

lemma bind_act_run [simp]:
  "m s = (Ok x, s') \<Longrightarrow> bind_act m f s = f x s'"
  "m s = (Err e, s') \<Longrightarrow> bind_act m f s = (Err e, s')"
  "m s = (Panic, s') \<Longrightarrow> bind_act m f s = (Panic, s')"
  by (simp_all add: bind_act_def)

text \<open>An action keeps a property of the state, whatever its outcome.\<close>

definition keeps :: "('s \<Rightarrow> bool) \<Rightarrow> ('s, 'e, 'a) act \<Rightarrow> bool" where
  "keeps J m \<longleftrightarrow> (\<forall>s. J s \<longrightarrow> J (snd (m s)))"

lemma keepsD: "keeps J m \<Longrightarrow> J s \<Longrightarrow> m s = (r, s') \<Longrightarrow> J s'"
  by (auto simp: keeps_def dest!: spec [of _ s])

lemma keeps_bind: "keeps J m \<Longrightarrow> (\<And>x. keeps J (f x)) \<Longrightarrow> keeps J (bind_act m f)"
  unfolding keeps_def bind_act_def by (auto split: prod.split res.split)

lemma keeps_ret [simp]: "keeps J (ret x)"
  by (simp add: keeps_def)

lemma keeps_raise [simp]: "keeps J (raise e)"
  by (simp add: keeps_def)

lemma keeps_lift_res [simp]: "keeps J (lift_res r)"
  by (simp add: keeps_def)

lemma keeps_case_prod: "(\<And>a b. keeps J (f a b)) \<Longrightarrow> keeps J (case p of (a, b) \<Rightarrow> f a b)"
  by (cases p) simp

lemma keeps_if: "keeps J m \<Longrightarrow> keeps J m' \<Longrightarrow> keeps J (if b then m else m')"
  by simp

section \<open>Bytes, encodings and slices\<close>

type_synonym u8 = "8 word"
type_synonym bytes = "u8 list"

text \<open>
  \<open>to_le_bytes\<close> of an integer of \<open>k\<close> bytes (which truncates, as a cast to that width
  does) and \<open>from_le_bytes\<close>; the big-endian forms reverse them.
\<close>

fun le_bytes :: "nat \<Rightarrow> nat \<Rightarrow> bytes" where
  "le_bytes 0 n = []"
| "le_bytes (Suc k) n = word_of_nat n # le_bytes k (n div 256)"

fun le_nat :: "bytes \<Rightarrow> nat" where
  "le_nat [] = 0"
| "le_nat (b # bs) = unat b + 256 * le_nat bs"

definition be_bytes :: "nat \<Rightarrow> nat \<Rightarrow> bytes" where
  "be_bytes k n = rev (le_bytes k n)"

definition be_nat :: "bytes \<Rightarrow> nat" where
  "be_nat bs = le_nat (rev bs)"

lemma length_le_bytes [simp]: "length (le_bytes k n) = k"
  by (induction k n rule: le_bytes.induct) auto

lemma length_be_bytes [simp]: "length (be_bytes k n) = k"
  by (simp add: be_bytes_def)

lemma unat_word8_of_nat: "unat (word_of_nat n :: u8) = n mod 256"
  by (simp add: unat_of_nat)

lemma unat_byte_bound: "unat (b :: u8) < 256"
  using unsigned_less [of b, where 'a = nat] by simp

lemma le_nat_le_bytes [codec]: "le_nat (le_bytes k n) = n mod 256 ^ k"
proof (induction k n rule: le_bytes.induct)
  case (2 k n)
  have "n mod (256 * 256 ^ k) = 256 * (n div 256 mod 256 ^ k) + n mod 256"
    by (rule mod_mult2_eq)
  with 2 show ?case by (simp add: unat_word8_of_nat)
qed simp

lemma be_nat_be_bytes [codec]: "be_nat (be_bytes k n) = n mod 256 ^ k"
  by (simp add: be_bytes_def be_nat_def le_nat_le_bytes)

lemma le_nat_bound: "le_nat bs < 256 ^ length bs"
proof (induction bs)
  case (Cons b bs)
  with unat_byte_bound [of b] show ?case by simp
qed simp

lemma be_nat_bound: "be_nat bs < 256 ^ length bs"
  using le_nat_bound [of "rev bs"] by (simp add: be_nat_def)

lemma le_bytes_le_nat: "le_bytes (length bs) (le_nat bs) = bs"
proof (induction bs)
  case (Cons b bs)
  have b: "unat b < 256" by (rule unat_byte_bound)
  have "(256 :: u8) = 0" by simp
  then have "word_of_nat (unat b + 256 * le_nat bs) = b"
    by (simp only: of_nat_add of_nat_mult of_nat_unat ucast_id of_nat_numeral
        mult_zero_left add_0_right)
  with Cons b show ?case by simp
qed simp

text \<open>The bounds-checked slice \<open>xs[a..b]\<close> and the index \<open>xs[i]\<close>.\<close>

definition slice_chk :: "nat \<Rightarrow> nat \<Rightarrow> 'a list \<Rightarrow> ('e, 'a list) res" where
  "slice_chk a b xs = (if a \<le> b \<and> b \<le> length xs then Ok (take (b - a) (drop a xs)) else Panic)"

definition index_chk :: "'a list \<Rightarrow> nat \<Rightarrow> ('e, 'a) res" where
  "index_chk xs i = (if i < length xs then Ok (xs ! i) else Panic)"

text \<open>\<open>uN::from_le_bytes(xs[i..i+k])\<close> and its big-endian form.\<close>

definition read_le :: "nat \<Rightarrow> nat \<Rightarrow> bytes \<Rightarrow> ('e, nat) res" where
  "read_le k i xs = bind_res (slice_chk i (i + k) xs) (\<lambda>b. Ok (le_nat b))"

definition read_be :: "nat \<Rightarrow> nat \<Rightarrow> bytes \<Rightarrow> ('e, nat) res" where
  "read_be k i xs = bind_res (slice_chk i (i + k) xs) (\<lambda>b. Ok (be_nat b))"

lemma slice_mid [codec]:
  "a = length xs \<Longrightarrow> b = length xs + length ys \<Longrightarrow> slice_chk a b (xs @ ys @ zs) = Ok ys"
  by (simp add: slice_chk_def)

lemma drop_pre [codec]: "n = length xs \<Longrightarrow> drop n (xs @ ys) = ys"
  by simp

lemma take_pre [codec]: "n = length xs \<Longrightarrow> take n (xs @ ys) = xs"
  by simp

lemma slice_Ok_iff [outcome]:
  "slice_chk a b xs = Ok ys \<longleftrightarrow> a \<le> b \<and> b \<le> length xs \<and> ys = take (b - a) (drop a xs)"
  by (auto simp: slice_chk_def)

lemma slice_never_Err [simp]: "slice_chk a b xs \<noteq> Err e"
  by (simp add: slice_chk_def)

lemma index_chk_Ok_iff [outcome]: "index_chk xs i = Ok x \<longleftrightarrow> i < length xs \<and> x = xs ! i"
  by (auto simp: index_chk_def)

lemma read_le_mid [codec]:
  "i = length xs \<Longrightarrow> length ys = k \<Longrightarrow> read_le k i (xs @ ys @ zs) = Ok (le_nat ys)"
  by (simp add: read_le_def slice_chk_def)

lemma read_be_mid [codec]:
  "i = length xs \<Longrightarrow> length ys = k \<Longrightarrow> read_be k i (xs @ ys @ zs) = Ok (be_nat ys)"
  by (simp add: read_be_def slice_chk_def)

lemma read_le_in_range:
  "i + k \<le> length xs \<Longrightarrow> read_le k i xs = Ok (le_nat (take k (drop i xs)))"
  by (simp add: read_le_def slice_chk_def)

lemma read_be_in_range:
  "i + k \<le> length xs \<Longrightarrow> read_be k i xs = Ok (be_nat (take k (drop i xs)))"
  by (simp add: read_be_def slice_chk_def)

section \<open>Rust strings\<close>

text \<open>
  A Rust string is a byte string that is well-formed UTF-8 (RFC 3629: no overlong forms,
  no surrogates, nothing above U+10FFFF).  \<open>rstring\<close> is that type; \<open>as_bytes\<close> reads it,
  \<open>from_utf8\<close> checks and wraps.  Strings compare byte by byte.
\<close>

definition in_range :: "nat \<Rightarrow> nat \<Rightarrow> u8 \<Rightarrow> bool" where
  "in_range lo hi b \<longleftrightarrow> lo \<le> unat b \<and> unat b \<le> hi"

fun utf8_valid :: "bytes \<Rightarrow> bool" where
  "utf8_valid [] = True"
| "utf8_valid (b0 # r0) =
    (if unat b0 < 128 then utf8_valid r0
     else (case r0 of [] \<Rightarrow> False | b1 # r1 \<Rightarrow>
       if in_range 0xC2 0xDF b0 then in_range 0x80 0xBF b1 \<and> utf8_valid r1
       else (case r1 of [] \<Rightarrow> False | b2 # r2 \<Rightarrow>
         if in_range 0xE0 0xEF b0 then
           in_range (if unat b0 = 0xE0 then 0xA0 else 0x80)
                    (if unat b0 = 0xED then 0x9F else 0xBF) b1
           \<and> in_range 0x80 0xBF b2 \<and> utf8_valid r2
         else (case r2 of [] \<Rightarrow> False | b3 # r3 \<Rightarrow>
           in_range 0xF0 0xF4 b0
           \<and> in_range (if unat b0 = 0xF0 then 0x90 else 0x80)
                       (if unat b0 = 0xF4 then 0x8F else 0xBF) b1
           \<and> in_range 0x80 0xBF b2 \<and> in_range 0x80 0xBF b3 \<and> utf8_valid r3))))"

declare utf8_valid.simps(2) [simp del]

lemma utf8_valid_ascii: "(\<forall>b \<in> set bs. unat b < 128) \<Longrightarrow> utf8_valid bs"
  by (induction bs) (auto simp: utf8_valid.simps(2))

typedef rstring = "{bs. utf8_valid bs}" morphisms as_bytes Abs_rstring
  by (rule exI [of _ "[]"]) simp

setup_lifting type_definition_rstring

lift_definition rs :: "bytes \<Rightarrow> rstring" is "\<lambda>bs. if utf8_valid bs then bs else []"
  by simp

definition from_utf8 :: "bytes \<Rightarrow> rstring option" where
  "from_utf8 bs = (if utf8_valid bs then Some (rs bs) else None)"

definition str_len :: "rstring \<Rightarrow> nat" where
  "str_len s = length (as_bytes s)"

lemma as_bytes_valid [simp]: "utf8_valid (as_bytes s)"
  using as_bytes [of s] by simp

lemma as_bytes_rs [simp]: "utf8_valid bs \<Longrightarrow> as_bytes (rs bs) = bs"
  by transfer simp

lemma rs_as_bytes [simp]: "rs (as_bytes s) = s"
  by transfer simp

lemma from_utf8_as_bytes [simp, codec]: "from_utf8 (as_bytes s) = Some s"
  by (simp add: from_utf8_def)

lemma from_utf8_Some_iff: "from_utf8 bs = Some s \<longleftrightarrow> bs = as_bytes s"
  by (auto simp: from_utf8_def)

lemma str_len_as_bytes: "length (as_bytes s) = str_len s"
  by (simp add: str_len_def)

instantiation rstring :: equal
begin

definition equal_rstring :: "rstring \<Rightarrow> rstring \<Rightarrow> bool" where
  "equal_rstring a b \<longleftrightarrow> as_bytes a = as_bytes b"

instance
  by standard (simp add: equal_rstring_def as_bytes_inject)

end

instantiation rstring :: linorder
begin

definition less_eq_rstring :: "rstring \<Rightarrow> rstring \<Rightarrow> bool" where
  "less_eq_rstring a b \<longleftrightarrow> as_bytes a \<le> as_bytes b"

definition less_rstring :: "rstring \<Rightarrow> rstring \<Rightarrow> bool" where
  "less_rstring a b \<longleftrightarrow> as_bytes a < as_bytes b"

instance
proof
  fix x y z :: rstring
  show "x < y \<longleftrightarrow> x \<le> y \<and> \<not> y \<le> x"
    by (simp add: less_rstring_def less_eq_rstring_def less_le_not_le)
  show "x \<le> x"
    by (simp add: less_eq_rstring_def)
  show "x \<le> y \<Longrightarrow> y \<le> z \<Longrightarrow> x \<le> z"
    unfolding less_eq_rstring_def by (rule order_trans)
  show "x \<le> y \<Longrightarrow> y \<le> x \<Longrightarrow> x = y"
    unfolding less_eq_rstring_def by (simp add: as_bytes_inject [symmetric])
  show "x \<le> y \<or> y \<le> x"
    unfolding less_eq_rstring_def by (rule linear)
qed

end

instantiation rstring :: size
begin

definition size_rstring :: "rstring \<Rightarrow> nat" where
  "size_rstring s = str_len s"

instance ..

end

lemma rs_eq_iff [simp]: "utf8_valid a \<Longrightarrow> utf8_valid b \<Longrightarrow> rs a = rs b \<longleftrightarrow> a = b"
  by (simp add: as_bytes_inject [symmetric])

section \<open>Lists and association lists\<close>

text \<open>
  A \<open>HashMap\<close> is an association list with distinct keys (its iteration order is never
  relied upon); \<open>insert\<close> is \<open>AList.update\<close>, \<open>get\<close> is \<open>map_of\<close>.
\<close>

lemma append_extend: "xs @ ys = zs \<Longrightarrow> xs @ ys @ ws = zs @ ws"
  by (metis append_assoc)

lemma map_of_update [simp]: "map_of (AList.update k v m) = (map_of m)(k \<mapsto> v)"
  by (rule update_conv')

lemma distinct_update_keys: "distinct (map fst m) \<Longrightarrow> distinct (map fst (AList.update k v m))"
  by (rule distinct_update)

end
