(* ===== verification/File_System.thy ===== *)
theory File_System
  imports Rkvs_Prelude
begin

text \<open>
  The part of \<open>std::fs\<close> and \<open>std::path\<close> that the storage engine uses.  A path is the list
  of its components; a file system holds the contents of the files, the directories that
  exist, and a schedule of faults: every call consumes one entry of the schedule, \<open>None\<close>
  (or the end of the schedule) lets it succeed, \<open>Some n\<close> makes it fail, a write after its
  first \<open>n\<close> bytes.  A theorem about any schedule is a theorem about any pattern of I/O errors
  and torn writes.
\<close>

type_synonym path = "string list"

datatype io_error = NotConnected | NotFound | FileTooLarge | InvalidInput | UnexpectedEof | OsError

record file_system =
  fs_files :: "(path \<times> bytes) list"
  fs_dirs :: "path list"
  fs_faults :: "nat option list"

type_synonym 'a fs_act = "(file_system, io_error, 'a) act"

definition fs_tick :: "file_system \<Rightarrow> nat option \<times> file_system" where
  "fs_tick fs = (case fs_faults fs of
     [] \<Rightarrow> (None, fs) | f # fl \<Rightarrow> (f, fs\<lparr>fs_faults := fl\<rparr>))"

definition fs_content :: "file_system \<Rightarrow> path \<Rightarrow> bytes option" where
  "fs_content fs p = map_of (fs_files fs) p"

definition fs_store :: "path \<Rightarrow> bytes \<Rightarrow> file_system \<Rightarrow> file_system" where
  "fs_store p bs fs = fs\<lparr>fs_files := AList.update p bs (fs_files fs)\<rparr>"

text \<open>\<open>File::create\<close>: a new empty file, or an existing one cut to length 0.\<close>

definition fs_create :: "path \<Rightarrow> unit fs_act" where
  "fs_create p fs = (case fs_tick fs of
     (Some _, fs') \<Rightarrow> (Err OsError, fs')
   | (None, fs') \<Rightarrow>
       if butlast p \<in> set (fs_dirs fs') then (Ok (), fs_store p [] fs') else (Err NotFound, fs'))"

text \<open>\<open>write_all\<close> on a handle whose position is the end of the file.\<close>

definition fs_append :: "path \<Rightarrow> bytes \<Rightarrow> unit fs_act" where
  "fs_append p bs fs = (case fs_tick fs of (fault, fs') \<Rightarrow>
     (case fs_content fs' p of
        None \<Rightarrow> (Err NotFound, fs')
      | Some old \<Rightarrow> (case fault of
          None \<Rightarrow> (Ok (), fs_store p (old @ bs) fs')
        | Some n \<Rightarrow> (Err OsError, fs_store p (old @ take n bs) fs'))))"

text \<open>
  Opening with \<open>write(true).create(true)\<close>, writing \<open>bs\<close> from offset 0 and flushing: what
  the file held beyond the new bytes stays.
\<close>

definition fs_write_front :: "path \<Rightarrow> bytes \<Rightarrow> unit fs_act" where
  "fs_write_front p bs fs = (case fs_tick fs of (fault, fs') \<Rightarrow>
     if butlast p \<notin> set (fs_dirs fs') then (Err NotFound, fs') else
     (let old = (case fs_content fs' p of None \<Rightarrow> [] | Some c \<Rightarrow> c) in
      case fault of
        None \<Rightarrow> (Ok (), fs_store p (bs @ drop (length bs) old) fs')
      | Some n \<Rightarrow> (Err OsError, fs_store p (take n bs @ drop (length (take n bs)) old) fs')))"

definition fs_read :: "path \<Rightarrow> bytes fs_act" where
  "fs_read p fs = (case fs_tick fs of
     (Some _, fs') \<Rightarrow> (Err OsError, fs')
   | (None, fs') \<Rightarrow> (case fs_content fs' p of None \<Rightarrow> (Err NotFound, fs') | Some bs \<Rightarrow> (Ok bs, fs')))"

text \<open>
  Opening with \<open>write(true).create(true)\<close>: a file that does not exist is created empty, one
  that does is left as it is; the result is its length (\<open>metadata\<close>).
\<close>

definition fs_open_write :: "path \<Rightarrow> nat fs_act" where
  "fs_open_write p fs = (case fs_tick fs of
     (Some _, fs') \<Rightarrow> (Err OsError, fs')
   | (None, fs') \<Rightarrow>
       if butlast p \<notin> set (fs_dirs fs') then (Err NotFound, fs')
       else (case fs_content fs' p of
          None \<Rightarrow> (Ok 0, fs_store p [] fs')
        | Some c \<Rightarrow> (Ok (length c), fs')))"

text \<open>
  \<open>read_at\<close>: up to \<open>n\<close> bytes from an offset, nothing past the end of the file.  A scheduled
  fault \<open>Some (Suc k)\<close> is a short read of at most \<open>k + 1\<close> bytes, \<open>Some 0\<close> an error.
\<close>

definition fs_read_at :: "path \<Rightarrow> nat \<Rightarrow> nat \<Rightarrow> bytes fs_act" where
  "fs_read_at p off n fs = (case fs_tick fs of (fault, fs') \<Rightarrow>
     (case fs_content fs' p of
        None \<Rightarrow> (Err NotFound, fs')
      | Some bs \<Rightarrow> (case fault of
          None \<Rightarrow> (Ok (take n (drop off bs)), fs')
        | Some 0 \<Rightarrow> (Err OsError, fs')
        | Some (Suc k) \<Rightarrow> (Ok (take (min n (Suc k)) (drop off bs)), fs'))))"

text \<open>\<open>set_len\<close>: cuts the file, or extends it with zero bytes.\<close>

definition fs_set_len :: "path \<Rightarrow> nat \<Rightarrow> unit fs_act" where
  "fs_set_len p n fs = (case fs_tick fs of
     (Some _, fs') \<Rightarrow> (Err OsError, fs')
   | (None, fs') \<Rightarrow> (case fs_content fs' p of
        None \<Rightarrow> (Err NotFound, fs')
      | Some bs \<Rightarrow> (Ok (), fs_store p (take n bs @ replicate (n - length bs) 0) fs')))"

definition fs_remove :: "path \<Rightarrow> unit fs_act" where
  "fs_remove p fs = (case fs_tick fs of
     (Some _, fs') \<Rightarrow> (Err OsError, fs')
   | (None, fs') \<Rightarrow> (case fs_content fs' p of
        None \<Rightarrow> (Err NotFound, fs')
      | Some _ \<Rightarrow> (Ok (), fs'\<lparr>fs_files := AList.delete p (fs_files fs')\<rparr>)))"

text \<open>\<open>read_dir\<close>, keeping the regular files: each with its length (\<open>metadata\<close>).\<close>

definition fs_read_dir :: "path \<Rightarrow> (path \<times> nat) list fs_act" where
  "fs_read_dir dir fs = (case fs_tick fs of
     (Some _, fs') \<Rightarrow> (Err OsError, fs')
   | (None, fs') \<Rightarrow>
       if dir \<in> set (fs_dirs fs')
       then (Ok (map (\<lambda>(p, bs). (p, length bs))
               (filter (\<lambda>(p, bs). p \<noteq> [] \<and> butlast p = dir) (fs_files fs'))), fs')
       else (Err NotFound, fs'))"

definition fs_create_dir_all :: "path \<Rightarrow> unit fs_act" where
  "fs_create_dir_all dir fs = (case fs_tick fs of
     (Some _, fs') \<Rightarrow> (Err OsError, fs')
   | (None, fs') \<Rightarrow> (Ok (), fs'\<lparr>fs_dirs := dir # fs_dirs fs'\<rparr>))"

lemma fs_content_store [simp]:
  "fs_content (fs_store p bs fs) q = (if q = p then Some bs else fs_content fs q)"
  by (simp add: fs_content_def fs_store_def)

lemma fs_content_store_fun: "fs_content (fs_store p bs fs) = (fs_content fs)(p \<mapsto> bs)"
  by (rule ext) simp

lemma fs_store_frame [simp]:
  "fs_dirs (fs_store p bs fs) = fs_dirs fs" "fs_faults (fs_store p bs fs) = fs_faults fs"
  by (simp_all add: fs_store_def)

lemma fs_tick_frame:
  "fs_tick fs = (f, fs') \<Longrightarrow> fs_files fs' = fs_files fs \<and> fs_dirs fs' = fs_dirs fs"
  by (auto simp: fs_tick_def split: list.splits)

lemma fs_tick_content: "fs_tick fs = (f, fs') \<Longrightarrow> fs_content fs' = fs_content fs"
  by (rule ext) (simp add: fs_content_def fs_tick_frame)

lemma fs_tick_no_faults [simp]: "fs_faults fs = [] \<Longrightarrow> fs_tick fs = (None, fs)"
  by (simp add: fs_tick_def)

lemma fs_append_Ok:
  assumes "fs_append p bs fs = (Ok u, fs')"
  shows "\<exists>old. fs_content fs p = Some old \<and>
    fs_content fs' = (fs_content fs)(p \<mapsto> old @ bs) \<and> fs_dirs fs' = fs_dirs fs"
proof -
  obtain f fs1 where t: "fs_tick fs = (f, fs1)" by (cases "fs_tick fs")
  from assms show ?thesis
    by (auto simp: fs_append_def fs_content_store_fun t fs_tick_frame [OF t] fs_tick_content [OF t]
        split: option.splits if_splits)
qed

lemma fs_create_Ok:
  assumes "fs_create p fs = (Ok u, fs')"
  shows "butlast p \<in> set (fs_dirs fs) \<and> fs_content fs' = (fs_content fs)(p \<mapsto> []) \<and>
    fs_dirs fs' = fs_dirs fs"
proof -
  obtain f fs1 where t: "fs_tick fs = (f, fs1)" by (cases "fs_tick fs")
  from assms show ?thesis
    by (auto simp: fs_create_def fs_content_store_fun t fs_tick_frame [OF t] fs_tick_content [OF t]
        split: option.splits if_splits)
qed

lemma fs_read_no_faults:
  "fs_faults fs = [] \<Longrightarrow> fs_content fs p = Some c \<Longrightarrow> fs_read p fs = (Ok c, fs)"
  by (simp add: fs_read_def)

lemma fs_read_at_no_faults:
  "fs_faults fs = [] \<Longrightarrow> fs_content fs p = Some c \<Longrightarrow> fs_read_at p off n fs = (Ok (take n (drop off c)), fs)"
  by (simp add: fs_read_at_def)

lemma fs_read_Ok:
  assumes "fs_read p fs = (Ok bs, fs')"
  shows "fs_content fs p = Some bs \<and> fs_content fs' = fs_content fs \<and> fs_dirs fs' = fs_dirs fs"
proof -
  obtain f fs1 where t: "fs_tick fs = (f, fs1)" by (cases "fs_tick fs")
  from assms show ?thesis
    using fs_tick_frame [OF t] fs_tick_content [OF t]
    by (auto simp: fs_read_def t split: option.splits if_splits)
qed

section \<open>Invariants of the file system\<close>

text \<open>
  The interface between a property of the file system and the operations: a property that
  survives the fault schedule and stores to the writable paths survives every operation on
  them.  Each theory of a component lifts it to its own operations.
\<close>

locale fs_invariant =
  fixes I :: "file_system \<Rightarrow> bool"
    and writable :: "path \<Rightarrow> bool"
  assumes I_tick: "I fs \<Longrightarrow> fs_tick fs = (f, fs') \<Longrightarrow> I fs'"
    and I_store: "I fs \<Longrightarrow> writable p \<Longrightarrow> I (fs_store p bs fs)"
begin

lemma fs_append_keeps: "writable p \<Longrightarrow> keeps I (fs_append p bs)"
  unfolding keeps_def fs_append_def
  by (auto split: prod.split option.split dest: I_tick intro: I_store)

lemma fs_create_keeps: "writable p \<Longrightarrow> keeps I (fs_create p)"
  unfolding keeps_def fs_create_def
  by (auto split: prod.split option.split dest: I_tick intro: I_store)

lemma fs_open_write_keeps: "writable p \<Longrightarrow> keeps I (fs_open_write p)"
  unfolding keeps_def fs_open_write_def
  by (auto split: prod.split option.split dest: I_tick intro: I_store)

lemma fs_write_front_keeps: "writable p \<Longrightarrow> keeps I (fs_write_front p bs)"
  unfolding keeps_def fs_write_front_def
  by (auto simp: Let_def split: prod.split option.split dest: I_tick intro: I_store)

lemma fs_read_at_keeps: "keeps I (fs_read_at p off n)"
  unfolding keeps_def fs_read_at_def
  by (auto split: prod.split option.split nat.split dest: I_tick)

lemma fs_read_keeps: "keeps I (fs_read p)"
  unfolding keeps_def fs_read_def
  by (auto split: prod.split option.split dest: I_tick)

end

text \<open>No file is listed twice.\<close>

definition fs_wf :: "file_system \<Rightarrow> bool" where
  "fs_wf fs \<longleftrightarrow> distinct (map fst (fs_files fs))"

interpretation wf_fs: fs_invariant fs_wf "\<lambda>_. True"
  by unfold_locales (auto simp: fs_wf_def fs_store_def fs_tick_frame distinct_update_keys)

text \<open>Files that may not be written are unchanged.\<close>

definition fs_frame :: "(path \<Rightarrow> bytes option) \<Rightarrow> (path \<Rightarrow> bool) \<Rightarrow> file_system \<Rightarrow> bool" where
  "fs_frame m wr fs \<longleftrightarrow> (\<forall>p. \<not> wr p \<longrightarrow> fs_content fs p = m p)"

interpretation frame_fs: fs_invariant "fs_frame m wr" wr for m wr
  by unfold_locales (auto simp: fs_frame_def fs_tick_content)

section \<open>File names\<close>

text \<open>\<open>Path::file_stem\<close> of a file name: up to the last dot, unless that dot comes first.\<close>

definition file_stem :: "string \<Rightarrow> string" where
  "file_stem s = (case dropWhile (\<lambda>c. c \<noteq> CHR ''.'') (rev s) of
     [] \<Rightarrow> s | [d] \<Rightarrow> s | d # r \<Rightarrow> rev r)"

text \<open>\<open>format!("{:x}", n)\<close>, left-padded with zeros to a given width.\<close>

definition hex_digit :: "nat \<Rightarrow> char" where
  "hex_digit d = char_of (if d < 10 then 48 + d else 87 + d)"

fun hex_str :: "nat \<Rightarrow> string" where
  "hex_str n = (if n < 16 then [hex_digit n] else hex_str (n div 16) @ [hex_digit (n mod 16)])"

declare hex_str.simps [simp del]

definition pad_hex :: "nat \<Rightarrow> nat \<Rightarrow> ('e, string) res" where
  "pad_hex k n = bind_res (sub_chk k (length (hex_str n)))
     (\<lambda>m. Ok (replicate m (CHR ''0'') @ hex_str n))"

text \<open>\<open>u64::from_str_radix(s, 16)\<close>: one leading plus sign is accepted, the value must fit.\<close>

definition hex_val :: "char \<Rightarrow> nat option" where
  "hex_val c = (let n = of_char c in
     if 48 \<le> n \<and> n \<le> 57 then Some (n - 48)
     else if 97 \<le> n \<and> n \<le> 102 then Some (n - 87)
     else if 65 \<le> n \<and> n \<le> 70 then Some (n - 55) else None)"

fun hex_digits_val :: "nat \<Rightarrow> string \<Rightarrow> nat option" where
  "hex_digits_val acc [] = Some acc"
| "hex_digits_val acc (c # cs) = (case hex_val c of
     None \<Rightarrow> None
   | Some d \<Rightarrow> if 16 * acc + d < 2 ^ 64 then hex_digits_val (16 * acc + d) cs else None)"

definition from_str_radix16 :: "string \<Rightarrow> nat option" where
  "from_str_radix16 s = (case s of
     [] \<Rightarrow> None
   | c # cs \<Rightarrow> if c = CHR ''+'' then (if cs = [] then None else hex_digits_val 0 cs)
               else hex_digits_val 0 s)"

text \<open>
  Hex strings of a fixed width: the shape that padding produces, and that the parser reads
  back.
\<close>

fun hexw :: "nat \<Rightarrow> nat \<Rightarrow> string" where
  "hexw 0 n = []"
| "hexw (Suc k) n = hexw k (n div 16) @ [hex_digit (n mod 16)]"

lemma length_hexw [simp]: "length (hexw k n) = k"
  by (induction k n rule: hexw.induct) auto

lemma hexw_0: "hexw k 0 = replicate k (CHR ''0'')"
proof (induction k)
  case (Suc k)
  have "hex_digit 0 = CHR ''0''" by code_simp
  with Suc show ?case by (simp add: replicate_append_same)
qed simp

lemma hexw_split: "hexw (a + b) n = hexw a (n div 16 ^ b) @ hexw b (n mod 16 ^ b)"
proof (induction b arbitrary: n)
  case (Suc b)
  have "n div 16 div 16 ^ b = n div 16 ^ Suc b"
    by (simp add: div_mult2_eq)
  moreover have "n div 16 mod 16 ^ b = n mod 16 ^ Suc b div 16"
    by (simp add: mod_mult2_eq)
  moreover have "n mod 16 ^ Suc b mod 16 = n mod 16"
    by (simp add: mod_mod_cancel)
  ultimately show ?case using Suc [of "n div 16"] by simp
qed simp

lemma hex_str_hexw: "n < 16 ^ k \<Longrightarrow> 0 < k \<Longrightarrow>
    length (hex_str n) \<le> k \<and> replicate (k - length (hex_str n)) (CHR ''0'') @ hex_str n = hexw k n"
proof (induction n arbitrary: k rule: hex_str.induct)
  case (1 n)
  obtain j where k: "k = Suc j" using "1.prems" by (cases k) auto
  show ?case
  proof (cases "n < 16")
    case True
    then have "n div 16 = 0" "n mod 16 = n" by simp_all
    with True k show ?thesis by (simp add: hex_str.simps [of n] hexw_0)
  next
    case False
    with "1.prems" k have "0 < j" by (cases j) auto
    moreover have "n div 16 < 16 ^ j" using "1.prems" k by (simp add: less_mult_imp_div_less mult.commute)
    ultimately have "length (hex_str (n div 16)) \<le> j \<and>
        replicate (j - length (hex_str (n div 16))) (CHR ''0'') @ hex_str (n div 16) = hexw j (n div 16)"
      using "1.IH" False by blast
    with False k show ?thesis by (simp add: hex_str.simps [of n] flip: append_assoc)
  qed
qed

lemma pad_hex_hexw [codec]: "n < 16 ^ k \<Longrightarrow> 0 < k \<Longrightarrow> pad_hex k n = Ok (hexw k n)"
  using hex_str_hexw [of n k] by (auto simp: pad_hex_def sub_chk_def)

lemma hex_str_bound: "n < 16 ^ length (hex_str n)"
proof (induction n rule: hex_str.induct)
  case (1 n)
  show ?case
  proof (cases "n < 16")
    case False
    then have "n div 16 < 16 ^ length (hex_str (n div 16))" by (rule "1.IH")
    then have "n < 16 * 16 ^ length (hex_str (n div 16))" by (simp add: div_less_iff_less_mult mult.commute)
    then show ?thesis by (subst hex_str.simps) (simp add: False)
  qed (simp add: hex_str.simps [of n])
qed

lemma pad_hex_Ok_bound:
  assumes "pad_hex k n = Ok s"
  shows "n < 16 ^ k"
proof -
  have "length (hex_str n) \<le> k" using assms by (simp add: pad_hex_def sub_chk_def split: if_splits)
  then have "16 ^ length (hex_str n) \<le> (16 :: nat) ^ k" by (rule power_increasing) simp
  with hex_str_bound [of n] show ?thesis by (rule less_le_trans)
qed

lemma hex_val_hex_digit: "d < 16 \<Longrightarrow> hex_val (hex_digit d) = Some d"
  by (auto simp: hex_val_def hex_digit_def Let_def)

lemma hex_digits_val_append:
  "hex_digits_val acc (xs @ ys) =
    (case hex_digits_val acc xs of None \<Rightarrow> None | Some a \<Rightarrow> hex_digits_val a ys)"
  by (induction acc xs rule: hex_digits_val.induct) (auto split: option.splits)

lemma hex_digits_val_hexw: "n < 16 ^ k \<Longrightarrow> n < 2 ^ 64 \<Longrightarrow> hex_digits_val 0 (hexw k n) = Some n"
proof (induction k arbitrary: n)
  case (Suc k)
  have "n div 16 < 16 ^ k" using Suc.prems by (simp add: less_mult_imp_div_less mult.commute)
  then have "hex_digits_val 0 (hexw k (n div 16)) = Some (n div 16)"
    using Suc.IH [of "n div 16"] Suc.prems by simp
  with Suc.prems show ?case by (simp add: hex_digits_val_append hex_val_hex_digit)
qed simp

lemma hexw_inject: "m < 16 ^ k \<Longrightarrow> n < 16 ^ k \<Longrightarrow> m < 2 ^ 64 \<Longrightarrow> n < 2 ^ 64 \<Longrightarrow> hexw k m = hexw k n \<longleftrightarrow> m = n"
  by (metis hex_digits_val_hexw option.inject)

lemma hex_digit_neq_plus: "d < 16 \<Longrightarrow> hex_digit d \<noteq> CHR ''+''"
proof
  assume d: "d < 16" and "hex_digit d = CHR ''+''"
  then have "hex_val (CHR ''+'') = Some d" using hex_val_hex_digit [OF d] by simp
  then show False by (simp add: hex_val_def)
qed

lemma set_hexw: "c \<in> set (hexw k n) \<Longrightarrow> \<exists>d < 16. c = hex_digit d"
proof (induction k n rule: hexw.induct)
  case (2 k n)
  have "\<exists>d < 16. hex_digit (n mod 16) = hex_digit d"
    by (rule exI [of _ "n mod 16"]) simp
  with 2 show ?case by auto
qed simp

lemma from_str_radix16_hexw [codec]:
  assumes "n < 16 ^ k" "n < 2 ^ 64" "0 < k"
  shows "from_str_radix16 (hexw k n) = Some n"
proof -
  obtain c cs where c: "hexw k n = c # cs"
    using assms(3) by (metis length_hexw list.exhaust list.size(3) less_numeral_extra(3))
  then have "c \<noteq> CHR ''+''"
    using set_hexw [of c k n] hex_digit_neq_plus by auto
  then show ?thesis
    using hex_digits_val_hexw [OF assms(1,2)] c by (simp add: from_str_radix16_def)
qed

end
