(* ===== verification/Record_Stream.thy ===== *)
theory Record_Stream
  imports Rkvs_Prelude
begin

text \<open>
  The interface that the on-disk readers share: a reader scans a byte buffer from an offset
  and accumulates records, and each record was written as one frame.  A reader that accepts
  one frame at any place accepts any run of frames.  The log parser and both readers of
  sorted-table blocks are instances.
\<close>

locale record_stream =
  fixes frame :: "'a \<Rightarrow> bytes"
    and reader :: "bytes \<Rightarrow> nat \<Rightarrow> 'a list \<Rightarrow> 'b"
    and valid :: "'a \<Rightarrow> bool"
  assumes reader_frame:
    "valid x \<Longrightarrow> reader (pre @ frame x @ post) (length pre) acc =
       reader (pre @ frame x @ post) (length pre + length (frame x)) (acc @ [x])"
begin

lemma reader_frames:
  "(\<forall>x \<in> set xs. valid x) \<Longrightarrow>
   reader (pre @ concat (map frame xs) @ post) (length pre) acc =
     reader (pre @ concat (map frame xs) @ post)
       (length pre + length (concat (map frame xs))) (acc @ xs)"
proof (induction xs arbitrary: pre acc)
  case (Cons x xs)
  let ?more = "concat (map frame xs) @ post"
  have "reader (pre @ frame x @ ?more) (length pre) acc =
      reader ((pre @ frame x) @ ?more) (length (pre @ frame x)) (acc @ [x])"
    using reader_frame [of x pre ?more acc] Cons.prems by simp
  also have "\<dots> = reader ((pre @ frame x) @ ?more)
      (length (pre @ frame x) + length (concat (map frame xs))) ((acc @ [x]) @ xs)"
    using Cons.prems by (intro Cons.IH) auto
  finally show ?case by (simp add: add.assoc)
qed simp

lemma reader_all:
  "(\<forall>x \<in> set xs. valid x) \<Longrightarrow>
   reader (concat (map frame xs) @ post) 0 [] =
     reader (concat (map frame xs) @ post) (length (concat (map frame xs))) xs"
  using reader_frames [of xs "[]" post "[]"] by simp

end

end
