(* ===== verification/Sst_Entry.thy ===== *)
theory Sst_Entry
  imports Record_Stream
begin

text \<open>
  The values of the memtable and the entries of the sorted tables, with the wire format of
  an entry and of a run of entries (\<open>MemTableValue\<close> of
  \<open>src/storage_engine/memtable.rs\<close>, \<open>SsTableEntry\<close> of \<open>src/storage_engine/sstable.rs\<close>).
\<close>

record mem_value =
  mv_value :: "rstring option"
  mv_seq :: nat

record sst_entry =
  se_key :: rstring
  se_value :: "rstring option"
  se_seq :: nat

definition sst_from :: "rstring \<Rightarrow> mem_value \<Rightarrow> sst_entry" where
  "sst_from key v = \<lparr>se_key = key, se_value = mv_value v, se_seq = mv_seq v\<rparr>"

definition sst_len :: "sst_entry \<Rightarrow> nat" where
  "sst_len e = 2 * 4 + 8 + str_len (se_key e) +
     (case se_value e of None \<Rightarrow> 1 | Some v \<Rightarrow> str_len v + 1)"

definition sst_to_bytes :: "sst_entry \<Rightarrow> bytes" where
  "sst_to_bytes e =
     le_bytes 4 (str_len (se_key e)) @ as_bytes (se_key e) @
     (case se_value e of
        Some value \<Rightarrow> le_bytes 4 (str_len value) @ [0] @ as_bytes value
      | None \<Rightarrow> le_bytes 4 0 @ [1]) @
     le_bytes 8 (se_seq e)"

definition sst_from_bytes :: "bytes \<Rightarrow> ('e, sst_entry) res" where
  "sst_from_bytes bytes =
    bind_res (read_le 4 0 bytes) (\<lambda>key_len.
    bind_res (slice_chk 4 (4 + key_len) bytes) (\<lambda>kb.
    bind_res (unwrap (from_utf8 kb)) (\<lambda>key.
    bind_res (read_le 4 (4 + key_len) bytes) (\<lambda>value_len.
    bind_res (index_chk bytes (8 + key_len)) (\<lambda>tombstone_value.
    let offset = 9 + key_len in
    bind_res (if tombstone_value = 1 then Ok None
              else bind_res (slice_chk offset (offset + value_len) bytes) (\<lambda>vb.
                   bind_res (unwrap (from_utf8 vb)) (\<lambda>v. Ok (Some v)))) (\<lambda>value.
    bind_res (read_le 8 (offset + value_len) bytes) (\<lambda>sequence_no.
    Ok \<lparr>se_key = key, se_value = value, se_seq = sequence_no\<rparr>)))))))"

text \<open>A run of entries, each behind its 32-bit length.\<close>

function sst_vec_loop :: "bytes \<Rightarrow> nat \<Rightarrow> sst_entry list \<Rightarrow> ('e, sst_entry list) res" where
  "sst_vec_loop buf offset acc =
    (if offset < length buf then
       case read_le 4 offset buf of
         Ok record_len \<Rightarrow>
           (case bind_res (slice_chk (offset + 4) (offset + 4 + record_len) buf) sst_from_bytes of
              Ok e \<Rightarrow> sst_vec_loop buf (offset + 4 + record_len) (acc @ [e])
            | Err x \<Rightarrow> Err x
            | Panic \<Rightarrow> Panic)
       | Err x \<Rightarrow> Err x
       | Panic \<Rightarrow> Panic
     else Ok acc)"
  by pat_completeness auto
termination
  by (relation "measure (\<lambda>(buf, offset, acc). length buf - offset)") auto

declare sst_vec_loop.simps [simp del]

definition vec_from_bytes :: "bytes \<Rightarrow> ('e, sst_entry list) res" where
  "vec_from_bytes buf = sst_vec_loop buf 0 []"

function sst_deque_loop :: "bytes \<Rightarrow> nat \<Rightarrow> sst_entry list \<Rightarrow> ('e, sst_entry list) res" where
  "sst_deque_loop bytes offset acc =
    (if offset + 4 < length bytes then
       let entry_size = le_nat (take 4 (drop offset bytes)) in
       if offset + 4 + entry_size \<le> length bytes then
         (case sst_from_bytes (take entry_size (drop (offset + 4) bytes)) of
            Ok e \<Rightarrow> sst_deque_loop bytes (offset + 4 + entry_size) (acc @ [e])
          | Err x \<Rightarrow> Err x
          | Panic \<Rightarrow> Panic)
       else Ok acc
     else Ok acc)"
  by pat_completeness auto
termination
  by (relation "measure (\<lambda>(bytes, offset, acc). length bytes - offset)") auto

declare sst_deque_loop.simps [simp del]

definition deque_from_bytes :: "bytes \<Rightarrow> ('e, sst_entry list) res" where
  "deque_from_bytes bytes = sst_deque_loop bytes 0 []"

section \<open>Length and round trip of an entry\<close>

text \<open>What the 32-bit and 64-bit fields of the format can express.\<close>

definition sst_entry_ok :: "sst_entry \<Rightarrow> bool" where
  "sst_entry_ok e \<longleftrightarrow> sst_len e < 2 ^ 32 \<and> se_seq e < 2 ^ 64"

lemma length_sst_to_bytes: "length (sst_to_bytes e) = sst_len e"
  by (simp add: sst_to_bytes_def sst_len_def str_len_def split: option.splits)

lemma sst_from_bytes_to_bytes:
  assumes ok: "sst_entry_ok e"
  shows "sst_from_bytes (sst_to_bytes e) = Ok e"
proof -
  define k where "k = as_bytes (se_key e)"
  have kn: "length k = str_len (se_key e)" by (simp add: k_def str_len_def)
  have n: "str_len (se_key e) < 2 ^ 32" and s: "se_seq e < 2 ^ 64"
    using ok by (simp_all add: sst_entry_ok_def sst_len_def split: option.splits)
  have fk: "from_utf8 k = Some (se_key e)" by (simp add: k_def)
  show ?thesis
  proof (cases "se_value e")
    case None
    have b: "sst_to_bytes e =
        le_bytes 4 (str_len (se_key e)) @ k @ le_bytes 4 0 @ [1] @ le_bytes 8 (se_seq e)"
      by (simp add: sst_to_bytes_def None k_def)
    show ?thesis
      using n s None
      by (simp add: sst_from_bytes_def b read_le_def slice_chk_def index_chk_def nth_append
          kn fk le_nat_le_bytes drop_Cons' take_Cons' Let_def)
  next
    case (Some v)
    define w where "w = as_bytes v"
    have wn: "length w = str_len v" and fw: "from_utf8 w = Some v"
      by (simp_all add: w_def str_len_def)
    have v: "str_len v < 2 ^ 32"
      using ok Some by (simp add: sst_entry_ok_def sst_len_def)
    have b: "sst_to_bytes e =
        le_bytes 4 (str_len (se_key e)) @ k @ le_bytes 4 (str_len v) @ [0] @ w @ le_bytes 8 (se_seq e)"
      by (simp add: sst_to_bytes_def Some k_def w_def)
    show ?thesis
      using n s Some v
      by (simp add: sst_from_bytes_def b read_le_def slice_chk_def index_chk_def nth_append
          kn wn fk fw le_nat_le_bytes drop_Cons' take_Cons' Let_def)
  qed
qed

section \<open>Runs of entries\<close>

definition sst_frame :: "sst_entry \<Rightarrow> bytes" where
  "sst_frame e = le_bytes 4 (sst_len e) @ sst_to_bytes e"

lemma length_sst_frame: "length (sst_frame e) = 4 + sst_len e"
  by (simp add: sst_frame_def length_sst_to_bytes)

lemma sst_vec_loop_frame:
  assumes "sst_entry_ok e"
  shows "sst_vec_loop (pre @ sst_frame e @ post) (length pre) acc =
    sst_vec_loop (pre @ sst_frame e @ post) (length pre + length (sst_frame e)) (acc @ [e])"
  using assms
  by (subst sst_vec_loop.simps)
    (simp add: sst_frame_def read_le_def slice_chk_def length_sst_to_bytes le_nat_le_bytes
      sst_entry_ok_def sst_from_bytes_to_bytes add.assoc)

lemma sst_deque_loop_frame:
  assumes "sst_entry_ok e"
  shows "sst_deque_loop (pre @ sst_frame e @ post) (length pre) acc =
    sst_deque_loop (pre @ sst_frame e @ post) (length pre + length (sst_frame e)) (acc @ [e])"
proof -
  have "0 < sst_len e" by (simp add: sst_len_def split: option.splits)
  with assms show ?thesis
    by (subst sst_deque_loop.simps)
      (simp add: sst_frame_def length_sst_to_bytes le_nat_le_bytes
        sst_entry_ok_def sst_from_bytes_to_bytes add.assoc Let_def)
qed

interpretation sst_vec: record_stream sst_frame sst_vec_loop sst_entry_ok
  by unfold_locales (rule sst_vec_loop_frame)

interpretation sst_deque: record_stream sst_frame sst_deque_loop sst_entry_ok
  by unfold_locales (rule sst_deque_loop_frame)

lemma vec_from_bytes_frames:
  "(\<forall>e \<in> set es. sst_entry_ok e) \<Longrightarrow> vec_from_bytes (concat (map sst_frame es)) = Ok es"
  using sst_vec.reader_all [of es "[]"]
  by (simp add: vec_from_bytes_def sst_vec_loop.simps [of _ "length _"])

text \<open>
  The reader of the merge buffers sees whole entries and then whatever part of the next one
  the byte budget allowed.
\<close>

lemma deque_from_bytes_frames:
  assumes "\<forall>e \<in> set es. sst_entry_ok e"
    and "length rest \<le> 4 \<or> 4 + le_nat (take 4 rest) > length rest"
  shows "deque_from_bytes (concat (map sst_frame es) @ rest) = Ok es"
  using sst_deque.reader_all [OF assms(1), of rest] assms(2)
  by (auto simp: deque_from_bytes_def sst_deque_loop.simps [of _ "length _"] Let_def)

end
