(* ===== verification/Sst_Segment.thy ===== *)
theory Sst_Segment
  imports File_System Sst_Entry
begin

text \<open>
  Segments of the sorted tables (\<open>src/storage_engine/sstable/level/segment.rs\<close>): a data
  block of entries, a sparse index and a footer.  This theory holds the index with its
  binary search, opening a segment, the readers, the two writers and the read buffer of
  the merge; \<open>Sst_Lookup\<close> proves that what a writer wrote, the readers find.

  A handle to an open file is its path.  A buffered writer is modelled by the bytes handed to
  it, which reach the file when it is flushed.
\<close>

section \<open>The index\<close>

record index_entry =
  ie_key :: rstring
  ie_offset :: nat

record segment_index =
  idx_indices :: "index_entry list"
  idx_len :: nat

datatype index_search_result = Match nat | Range nat "nat option"

definition index_new :: segment_index where
  "index_new = \<lparr>idx_indices = [], idx_len = 0\<rparr>"

definition add_index :: "rstring \<Rightarrow> nat \<Rightarrow> segment_index \<Rightarrow> segment_index" where
  "add_index key offset idx =
     \<lparr>idx_indices = idx_indices idx @ [\<lparr>ie_key = key, ie_offset = offset\<rparr>],
      idx_len = idx_len idx + (str_len key + 8 + 4)\<rparr>"

definition index_entry_to_bytes :: "index_entry \<Rightarrow> bytes" where
  "index_entry_to_bytes e =
     le_bytes 4 (str_len (ie_key e)) @ replicate 4 0 @ as_bytes (ie_key e) @ le_bytes 8 (ie_offset e)"

definition index_entry_from_bytes :: "bytes \<Rightarrow> ('e, index_entry) res" where
  "index_entry_from_bytes buf =
    bind_res (read_le 4 0 buf) (\<lambda>key_len.
    bind_res (slice_chk 8 (8 + key_len) buf) (\<lambda>kb.
    bind_res (unwrap (from_utf8 kb)) (\<lambda>key.
    bind_res (read_le 8 (8 + key_len) buf) (\<lambda>offset.
    Ok \<lparr>ie_key = key, ie_offset = offset\<rparr>))))"

definition index_to_bytes :: "segment_index \<Rightarrow> bytes" where
  "index_to_bytes idx = concat (map index_entry_to_bytes (idx_indices idx))"

function index_loop :: "bytes \<Rightarrow> nat \<Rightarrow> segment_index \<Rightarrow> ('e, segment_index) res" where
  "index_loop buf off idx =
    (if off < length buf then
       case bind_res (read_le 8 off buf) (\<lambda>key_len.
            bind_res (slice_chk (off + 8) (off + 8 + key_len) buf) (\<lambda>kb.
            bind_res (unwrap (from_utf8 kb)) (\<lambda>key.
            bind_res (read_le 8 (off + 8 + key_len) buf) (\<lambda>offset.
            Ok (key_len, key, offset))))) of
         Ok (key_len, key, offset) \<Rightarrow> index_loop buf (off + 16 + key_len) (add_index key offset idx)
       | Err x \<Rightarrow> Err x
       | Panic \<Rightarrow> Panic
     else Ok idx)"
  by pat_completeness auto
termination
  by (relation "measure (\<lambda>(buf, off, idx). length buf - off)") auto

declare index_loop.simps [simp del]

definition index_from_bytes :: "bytes \<Rightarrow> ('e, segment_index) res" where
  "index_from_bytes buf = index_loop buf 0 index_new"

definition index_size :: "segment_index \<Rightarrow> nat" where
  "index_size idx = sum_list (map (\<lambda>e. str_len (ie_key e) + 8) (idx_indices idx))"

text \<open>The last entry whose key is not greater than the one looked for.\<close>

function binary_search_loop :: "index_entry list \<Rightarrow> rstring \<Rightarrow> nat \<Rightarrow> nat \<Rightarrow> (io_error, nat) res" where
  "binary_search_loop ies key l r =
    (if l < r then
       let m = (l + r) div 2 + 1 in
       (case index_chk ies m of
          Ok e \<Rightarrow> if ie_key e \<le> key then binary_search_loop ies key m r
                  else binary_search_loop ies key l (m - 1)
        | Err x \<Rightarrow> Err x
        | Panic \<Rightarrow> Panic)
     else Ok l)"
  by pat_completeness auto
termination
  by (relation "measure (\<lambda>(ies, key, l, r). r - l)") auto

declare binary_search_loop.simps [simp del]

definition binary_search :: "segment_index \<Rightarrow> rstring \<Rightarrow> (io_error, index_entry \<times> nat) res" where
  "binary_search idx key =
    bind_res (sub_chk (length (idx_indices idx)) 1) (\<lambda>r.
    bind_res (binary_search_loop (idx_indices idx) key 0 r) (\<lambda>l.
    bind_res (index_chk (idx_indices idx) l) (\<lambda>e. Ok (e, l))))"

definition index_find :: "segment_index \<Rightarrow> rstring \<Rightarrow> (io_error, index_search_result) res" where
  "index_find idx key =
    (case idx_indices idx of
       [] \<Rightarrow> Ok (Range 0 None)
     | e0 # _ \<Rightarrow>
       if key < ie_key e0 then Ok (Range 0 (Some (ie_offset e0)))
       else bind_res (binary_search idx key) (\<lambda>(entry, i).
         if key = ie_key entry then Ok (Match (ie_offset entry))
         else if i < length (idx_indices idx) - 1
           then Ok (Range (ie_offset entry) (Some (ie_offset (idx_indices idx ! (i + 1)))))
           else Ok (Range (ie_offset entry) None)))"

section \<open>The footer and the file names\<close>

definition MAGIC_BYTES :: bytes where
  "MAGIC_BYTES = [0x72, 0x6B, 0x76, 0x73]"

definition SEGMENT_FOOTER_LEN :: nat where
  "SEGMENT_FOOTER_LEN = 12"

definition SEGMENT_SIZE :: nat where
  "SEGMENT_SIZE = 1024 * 1024 * 64"

definition footer_from_bytes :: "bytes \<Rightarrow> ('e, nat) res" where
  "footer_from_bytes buf =
    bind_res (assert_that (length buf = SEGMENT_FOOTER_LEN - length MAGIC_BYTES)) (\<lambda>_. read_le 8 0 buf)"

definition footer_to_bytes :: "nat \<Rightarrow> bytes" where
  "footer_to_bytes index_offset = le_bytes 8 index_offset @ MAGIC_BYTES"

definition sst_filename :: "nat \<Rightarrow> nat \<Rightarrow> ('e, string) res" where
  "sst_filename level_number segment_number =
    bind_res (pad_hex 8 level_number) (\<lambda>level_number_hex_str.
    bind_res (pad_hex 8 segment_number) (\<lambda>segment_number_hex_str.
    Ok (level_number_hex_str @ segment_number_hex_str @ ''.sst'')))"

definition sst_parse_field :: "nat \<Rightarrow> nat \<Rightarrow> string \<Rightarrow> ('e, nat) res" where
  "sst_parse_field a b filename =
    bind_res (slice_chk a b filename) (\<lambda>s. unwrap (from_str_radix16 s))"

definition level_and_segment_number :: "string \<Rightarrow> ('e, nat \<times> nat) res" where
  "level_and_segment_number filename =
    bind_res (sst_parse_field 0 8 filename) (\<lambda>level_number.
    bind_res (sst_parse_field 8 16 filename) (\<lambda>segment_number.
    Ok (level_number, segment_number)))"

section \<open>Segments and their readers\<close>

record sst_segment =
  sg_path :: path
  sg_index :: segment_index
  sg_highest_sequence_no :: nat
  sg_size :: nat
  sg_data_block_end :: nat
  sg_level_number :: nat
  sg_number :: nat
  sg_first_key :: rstring
  sg_last_key :: rstring

datatype segment_open_error = OpenIo io_error | OpenCorrupted

text \<open>
  The loop that fills a buffer.  The source adds the running nread to the positions, not the
  length of the last read; a read that comes back short therefore leaves a gap in the buffer
  (or runs past its end), and so does the model.
\<close>

function read_loop :: "path \<Rightarrow> nat \<Rightarrow> bytes \<Rightarrow> nat \<Rightarrow> nat \<Rightarrow> nat \<Rightarrow> (bytes \<times> nat) fs_act" where
  "read_loop p want buf buf_offset curr_offset bytes_read fs =
    (if bytes_read < want then
       if length buf < buf_offset then (Panic, fs)
       else (case fs_read_at p curr_offset (length buf - buf_offset) fs of
          (Ok bs, fs') \<Rightarrow>
            (let nread = bytes_read + length bs;
                 buf' = take buf_offset buf @ bs @ drop (buf_offset + length bs) buf in
             if bs = [] then (Ok (buf', curr_offset + nread), fs')
             else read_loop p want buf' (buf_offset + nread) (curr_offset + nread) nread fs')
        | (Err e, fs') \<Rightarrow> (Err e, fs')
        | (Panic, fs') \<Rightarrow> (Panic, fs'))
     else (Ok (buf, curr_offset), fs))"
  by pat_completeness auto
termination
  by (relation "measure (\<lambda>(p, want, buf, bo, co, bytes_read, fs). want - bytes_read)") (auto simp: neq_Nil_conv)

declare read_loop.simps [simp del]

definition read_table_entries :: "path \<Rightarrow> nat \<Rightarrow> nat \<Rightarrow> sst_entry list fs_act" where
  "read_table_entries p start end_pos =
    bind_act (lift_res (sub_chk end_pos start)) (\<lambda>len.
    bind_act (read_loop p len (replicate len 0) 0 start 0) (\<lambda>(buf, _).
    lift_res (vec_from_bytes buf)))"

definition read_table_entry :: "path \<Rightarrow> nat \<Rightarrow> sst_entry fs_act" where
  "read_table_entry p offset =
    bind_act (read_loop p 4 (replicate 4 0) 0 offset 0) (\<lambda>(u32_buf, curr_offset).
    let entry_len = le_nat u32_buf in
    bind_act (read_loop p entry_len (replicate entry_len 0) 0 curr_offset 0) (\<lambda>(entry_buf, _).
    lift_res (sst_from_bytes entry_buf)))"

text \<open>\<open>read_at_most\<close> adds the length of each read, as it should.\<close>

function read_most_loop :: "path \<Rightarrow> nat \<Rightarrow> bytes \<Rightarrow> nat \<Rightarrow> nat \<Rightarrow> (bytes \<times> nat) fs_act" where
  "read_most_loop p want buf curr_offset nread fs =
    (if nread < want then
       (case fs_read_at p curr_offset (length buf - nread) fs of
          (Ok bs, fs') \<Rightarrow>
            if bs = [] then (Ok (buf, nread), fs')
            else read_most_loop p want (take nread buf @ bs @ drop (nread + length bs) buf)
                   (curr_offset + length bs) (nread + length bs) fs'
        | (Err e, fs') \<Rightarrow> (Err e, fs')
        | (Panic, fs') \<Rightarrow> (Panic, fs'))
     else (Ok (buf, nread), fs))"
  by pat_completeness auto
termination
  by (relation "measure (\<lambda>(p, want, buf, co, nread, fs). want - nread)") (auto simp: neq_Nil_conv)

declare read_most_loop.simps [simp del]

definition read_at_most :: "sst_segment \<Rightarrow> nat \<Rightarrow> nat \<Rightarrow> sst_entry list fs_act" where
  "read_at_most seg offset max_bytes =
    bind_act (lift_res (sub_chk (sg_data_block_end seg) offset)) (\<lambda>left.
    let bytes_to_read = min (left + 1) max_bytes in
    bind_act (read_most_loop (sg_path seg) bytes_to_read (replicate bytes_to_read 0) offset 0)
      (\<lambda>(buf, nread). lift_res (deque_from_bytes (take nread buf))))"

fun scan_entries :: "rstring \<Rightarrow> sst_entry list \<Rightarrow> sst_entry option" where
  "scan_entries key [] = None"
| "scan_entries key (e # es) =
    (if se_key e = key then Some e else if key < se_key e then None else scan_entries key es)"

definition segment_get :: "sst_segment \<Rightarrow> rstring \<Rightarrow> sst_entry option fs_act" where
  "segment_get seg key =
    bind_act (lift_res (index_find (sg_index seg) key)) (\<lambda>r. case r of
      Match offset \<Rightarrow> bind_act (read_table_entry (sg_path seg) offset) (\<lambda>entry. ret (Some entry))
    | Range start opt \<Rightarrow>
        bind_act (read_table_entries (sg_path seg) start
            (case opt of None \<Rightarrow> sg_data_block_end seg | Some e \<Rightarrow> e)) (\<lambda>entries.
        ret (scan_entries key entries)))"

definition overlaps :: "sst_segment \<Rightarrow> sst_segment \<Rightarrow> bool" where
  "overlaps seg other \<longleftrightarrow> sg_first_key other \<le> sg_last_key seg \<and> sg_first_key seg \<le> sg_last_key other"

text \<open>
  Opening: the footer is read from the end, then the index, then the first entry and the
  entries behind the last index point.
\<close>

definition on_open :: "'a fs_act \<Rightarrow> (file_system, segment_open_error, 'a) act" where
  "on_open m fs = (case m fs of (r, fs') \<Rightarrow> (map_err OpenIo r, fs'))"

fun highest_seq :: "sst_entry list \<Rightarrow> nat \<Rightarrow> nat" where
  "highest_seq [] m = m"
| "highest_seq (e # es) m = highest_seq es (if se_seq e > m then se_seq e else m)"

definition segment_from_file :: "path \<Rightarrow> (file_system, segment_open_error, sst_segment) act" where
  "segment_from_file p =
    bind_act (lift_res (bind_res (if p = [] then Panic else Ok (last p)) level_and_segment_number))
      (\<lambda>(level_no, segment_no).
    bind_act (on_open (fs_read p)) (\<lambda>content.
    let file_size = length content in
    if file_size < SEGMENT_FOOTER_LEN then raise (OpenIo InvalidInput) else
    let footer_buf = drop (file_size - SEGMENT_FOOTER_LEN) content in
    if drop (length footer_buf - length MAGIC_BYTES) footer_buf \<noteq> MAGIC_BYTES
    then raise OpenCorrupted else
    bind_act (lift_res (footer_from_bytes (take (SEGMENT_FOOTER_LEN - length MAGIC_BYTES) footer_buf)))
      (\<lambda>index_offset.
    bind_act (lift_res (bind_res (sub_chk file_size SEGMENT_FOOTER_LEN) (\<lambda>n. sub_chk n index_offset)))
      (\<lambda>buf_len.
    bind_act (on_open (fs_read p)) (\<lambda>content2.
    if length (drop index_offset content2) < buf_len then raise (OpenIo UnexpectedEof) else
    bind_act (lift_res (index_from_bytes (take buf_len (drop index_offset content2)))) (\<lambda>index.
    bind_act (on_open (read_table_entry p 0)) (\<lambda>first_entry.
    let start = (if idx_indices index = [] then 0 else ie_offset (last (idx_indices index))) in
    bind_act (on_open (read_table_entries p start index_offset)) (\<lambda>entries.
    ret \<lparr>sg_path = p, sg_index = index, sg_highest_sequence_no = highest_seq entries 0,
        sg_size = file_size, sg_data_block_end = index_offset, sg_level_number = level_no,
        sg_number = segment_no, sg_first_key = se_key first_entry,
        sg_last_key = (if entries = [] then se_key first_entry else se_key (last entries))\<rparr>))))))))"

section \<open>Writing a segment\<close>

text \<open>The loop of \<open>segment_file_from_memtable\<close> over the sorted keys.\<close>

fun memtable_writer_loop ::
    "nat \<Rightarrow> (rstring \<times> mem_value) list \<Rightarrow> rstring list \<Rightarrow> nat \<Rightarrow> nat \<Rightarrow> bytes \<Rightarrow> segment_index \<Rightarrow>
     ('e, bytes \<times> nat \<times> segment_index) res" where
  "memtable_writer_loop sparsity table [] counter offset out index = Ok (out, offset, index)"
| "memtable_writer_loop sparsity table (key # keys) counter offset out index =
    bind_res (if sparsity = 0 then Panic else Ok (counter mod sparsity)) (\<lambda>m.
    let index' = (if m = 0 then add_index key offset index else index) in
    bind_res (unwrap (map_of table key)) (\<lambda>v.
    let entry = sst_from key v; bytes = sst_to_bytes entry in
    memtable_writer_loop sparsity table keys (counter + 1) (offset + 4 + sst_len entry)
      (out @ le_bytes 4 (length bytes) @ bytes) index'))"

definition segment_file_from_memtable ::
    "path \<Rightarrow> (rstring \<times> mem_value) list \<Rightarrow> nat \<Rightarrow> nat \<Rightarrow> path fs_act" where
  "segment_file_from_memtable dir table segment_number sparsity =
    bind_act (lift_res (sst_filename 0 segment_number)) (\<lambda>filename.
    let filepath = dir @ [filename] in
    bind_act (fs_open_write filepath) (\<lambda>_.
    bind_act (lift_res (memtable_writer_loop sparsity table (sort (map fst table)) 0 0 [] index_new))
      (\<lambda>(out, offset, index).
    bind_act (fs_write_front filepath (out @ index_to_bytes index @ footer_to_bytes offset)) (\<lambda>_.
    ret filepath))))"

record segment_writer =
  sw_path :: path
  sw_pending :: bytes
  sw_curr_size :: nat
  sw_sparsity :: nat
  sw_index :: segment_index
  sw_target_size :: nat
  sw_entries_written :: nat
  sw_finished :: bool

definition create_new_segment :: "path \<Rightarrow> nat \<Rightarrow> nat \<Rightarrow> nat \<Rightarrow> segment_writer fs_act" where
  "create_new_segment dir level_number segment_number sparsity =
    bind_act (lift_res (sst_filename level_number segment_number)) (\<lambda>filename.
    let filepath = dir @ [filename] in
    bind_act (fs_open_write filepath) (\<lambda>n.
    ret \<lparr>sw_path = filepath, sw_pending = [], sw_curr_size = n, sw_sparsity = sparsity,
        sw_index = index_new, sw_target_size = SEGMENT_SIZE, sw_entries_written = 0,
        sw_finished = False\<rparr>))"

definition reached_target_size :: "segment_writer \<Rightarrow> bool" where
  "reached_target_size sw \<longleftrightarrow>
     sw_target_size sw \<le> sw_curr_size sw + idx_len (sw_index sw) + SEGMENT_FOOTER_LEN"

definition write_entry :: "sst_entry \<Rightarrow> segment_writer \<Rightarrow> ('e, segment_writer) res" where
  "write_entry entry sw =
    bind_res (assert_that (\<not> sw_finished sw)) (\<lambda>_.
    let bytes = sst_to_bytes entry; n = sw_entries_written sw + 1 in
    bind_res (if sw_sparsity sw = 0 then Panic else Ok (n mod sw_sparsity sw)) (\<lambda>m.
    Ok (sw\<lparr>sw_pending := sw_pending sw @ le_bytes 4 (length bytes) @ bytes,
           sw_entries_written := n,
           sw_index := (if m = 0 then add_index (se_key entry) (sw_curr_size sw) (sw_index sw)
                        else sw_index sw),
           sw_curr_size := sw_curr_size sw + (length bytes + 4)\<rparr>)))"

definition write_index_and_footer :: "segment_writer \<Rightarrow> segment_writer fs_act" where
  "write_index_and_footer sw =
    bind_act (lift_res (assert_that (\<not> sw_finished sw))) (\<lambda>_.
    let out = sw_pending sw @ index_to_bytes (sw_index sw) @ footer_to_bytes (sw_curr_size sw) in
    bind_act (fs_write_front (sw_path sw) out) (\<lambda>_.
    ret (sw\<lparr>sw_pending := [], sw_finished := True\<rparr>)))"

section \<open>The read buffer of the merge\<close>

record segment_read_buf =
  rb_segment :: sst_segment
  rb_buf :: "sst_entry list"
  rb_curr_offset :: nat
  rb_size :: nat
  rb_max_size :: nat

definition read_buf_new :: "sst_segment \<Rightarrow> nat \<Rightarrow> segment_read_buf" where
  "read_buf_new seg read_buf_len =
    \<lparr>rb_segment = seg, rb_buf = [], rb_curr_offset = 0, rb_size = 0, rb_max_size = read_buf_len\<rparr>"

fun push_entries :: "sst_entry list \<Rightarrow> segment_read_buf \<Rightarrow> segment_read_buf" where
  "push_entries [] rb = rb"
| "push_entries (e # es) rb = push_entries es
    (rb\<lparr>rb_size := rb_size rb + (sst_len e + 4), rb_curr_offset := rb_curr_offset rb + (sst_len e + 4),
        rb_buf := rb_buf rb @ [e]\<rparr>)"

definition read_buf_fill :: "segment_read_buf \<Rightarrow> segment_read_buf fs_act" where
  "read_buf_fill rb =
    bind_act (lift_res (sub_chk (rb_max_size rb) (rb_size rb))) (\<lambda>max_bytes.
    bind_act (read_at_most (rb_segment rb) (rb_curr_offset rb) max_bytes) (\<lambda>new_entries.
    ret (push_entries new_entries rb)))"

definition read_buf_front :: "segment_read_buf \<Rightarrow> sst_entry option" where
  "read_buf_front rb = (case rb_buf rb of [] \<Rightarrow> None | e # _ \<Rightarrow> Some e)"

definition read_buf_back :: "segment_read_buf \<Rightarrow> sst_entry option" where
  "read_buf_back rb = (if rb_buf rb = [] then None else Some (last (rb_buf rb)))"

definition read_buf_pop_front :: "segment_read_buf \<Rightarrow> ('e, sst_entry option \<times> segment_read_buf) res" where
  "read_buf_pop_front rb = (case rb_buf rb of
     [] \<Rightarrow> Ok (None, rb)
   | e # es \<Rightarrow> bind_res (sub_chk (rb_size rb) (sst_len e + 4)) (\<lambda>n.
       Ok (Some e, rb\<lparr>rb_size := n, rb_buf := es\<rparr>)))"

end
