(* ===== verification/Sst_Merge.thy ===== *)
theory Sst_Merge
  imports Sst_Segment
begin

text \<open>
  The merge of the read buffers (\<open>merge_sort\<close> of \<open>src/storage_engine/sstable/level.rs\<close>).
  The buffers live in a vector; the hash map of references that the function is handed maps
  keys to positions of that vector.  The iteration order of the hash map is the parameter
  \<open>order\<close>, any function that permutes the keys.  The loops are not known to end: they are
  partial functions, \<open>None\<close> is a run that never returns.
\<close>

type_synonym read_bufs = "segment_read_buf list"
type_synonym buf_map = "(nat \<times> nat) list"

definition front_entry :: "read_bufs \<Rightarrow> nat \<Rightarrow> (io_error, sst_entry) res" where
  "front_entry bufs b = bind_res (index_chk bufs b) (\<lambda>rb. unwrap (read_buf_front rb))"

definition front_key :: "read_bufs \<Rightarrow> nat \<Rightarrow> (io_error, rstring) res" where
  "front_key bufs b = bind_res (front_entry bufs b) (\<lambda>e. Ok (se_key e))"

definition back_key :: "read_bufs \<Rightarrow> nat \<Rightarrow> (io_error, rstring) res" where
  "back_key bufs b = bind_res (index_chk bufs b) (\<lambda>rb.
    bind_res (unwrap (read_buf_back rb)) (\<lambda>e. Ok (se_key e)))"

definition pop_entry :: "nat \<Rightarrow> read_bufs \<Rightarrow> (io_error, sst_entry \<times> read_bufs) res" where
  "pop_entry b bufs = bind_res (index_chk bufs b) (\<lambda>rb.
    bind_res (read_buf_pop_front rb) (\<lambda>(e, rb').
    bind_res (unwrap e) (\<lambda>e. Ok (e, bufs[b := rb']))))"

text \<open>Pop while the front satisfies a condition.\<close>

function drain_while ::
    "(sst_entry \<Rightarrow> bool) \<Rightarrow> segment_read_buf \<Rightarrow> sst_entry list \<Rightarrow>
     (io_error, sst_entry list \<times> segment_read_buf) res" where
  "drain_while P rb acc = (case rb_buf rb of
     [] \<Rightarrow> Ok (acc, rb)
   | e # es \<Rightarrow>
       if P e then
         (case read_buf_pop_front rb of
            Ok (_, rb') \<Rightarrow> drain_while P rb' (acc @ [e])
          | Err x \<Rightarrow> Err x
          | Panic \<Rightarrow> Panic)
       else Ok (acc, rb))"
  by pat_completeness auto
termination
  by (relation "measure (\<lambda>(P, rb, acc). length (rb_buf rb))")
    (auto simp: read_buf_pop_front_def bind_res_Ok_iff dest!: sym [of "Ok _"])

declare drain_while.simps [simp del]

section \<open>The first pass\<close>

text \<open>
  The smallest of the last keys, the buffers with the smallest first key, and those with the
  next one.
\<close>

fun ms_init ::
    "read_bufs \<Rightarrow> nat list \<Rightarrow> rstring \<times> nat list \<times> nat list \<Rightarrow>
     (io_error, rstring \<times> nat list \<times> nat list) res" where
  "ms_init bufs [] st = Ok st"
| "ms_init bufs (idx # rest) (smallest_final_key, cur, next) =
    bind_res (back_key bufs idx) (\<lambda>back.
    let sfk = (if as_bytes smallest_final_key = [] \<or> back < smallest_final_key
               then back else smallest_final_key) in
    bind_res (front_key bufs idx) (\<lambda>buf_key.
    bind_res
      (case cur of
         [] \<Rightarrow> Ok ([idx], next)
       | ci # _ \<Rightarrow> bind_res (front_key bufs ci) (\<lambda>curr_key.
           if buf_key \<le> curr_key then
             Ok (if curr_key \<noteq> buf_key then ([idx], cur) else (cur @ [idx], next))
           else if buf_key \<le> sfk then
             (case next of
                [] \<Rightarrow> Ok (cur, [idx])
              | ni # _ \<Rightarrow> bind_res (front_key bufs ni) (\<lambda>nk.
                  let next' = (if buf_key < nk then [] else next) in
                  Ok (cur, if buf_key \<le> nk then next' @ [idx] else next')))
           else Ok (cur, next)))
      (\<lambda>(cur', next'). ms_init bufs rest (sfk, cur', next'))))"

fun ms_retain :: "read_bufs \<Rightarrow> rstring \<Rightarrow> nat list \<Rightarrow> (io_error, buf_map) res" where
  "ms_retain bufs sfk [] = Ok []"
| "ms_retain bufs sfk (i # idxs) =
    bind_res (front_key bufs i) (\<lambda>k.
    bind_res (ms_retain bufs sfk idxs) (\<lambda>m. Ok (if k \<le> sfk then (i, i) # m else m)))"

section \<open>The main loop\<close>

text \<open>The buffers of the current indices are moved out of the map.\<close>

fun ms_take :: "nat list \<Rightarrow> buf_map \<Rightarrow> nat list \<Rightarrow> nat list \<times> buf_map" where
  "ms_take [] m cb = (cb, m)"
| "ms_take (i # idxs) m cb = (case map_of m i of
     Some b \<Rightarrow> ms_take idxs (AList.delete i m) (cb @ [b])
   | None \<Rightarrow> ms_take idxs m cb)"

definition ms_next_key :: "read_bufs \<Rightarrow> buf_map \<Rightarrow> nat list \<Rightarrow> (io_error, rstring option) res" where
  "ms_next_key bufs m next = (case next of
     [] \<Rightarrow> Ok None
   | i # _ \<Rightarrow> bind_res (unwrap (map_of m i)) (\<lambda>b.
       bind_res (index_chk bufs b) (\<lambda>rb. Ok (map_option se_key (read_buf_front rb)))))"

definition ms_before :: "rstring \<Rightarrow> rstring option \<Rightarrow> sst_entry \<Rightarrow> bool" where
  "ms_before sfk next_key e = (case next_key of None \<Rightarrow> se_key e \<le> sfk | Some k \<Rightarrow> se_key e < k)"

text \<open>One entry from each of the current buffers, the newest of which is kept.\<close>

fun ms_pop_newest ::
    "nat list \<Rightarrow> read_bufs \<Rightarrow> sst_entry \<Rightarrow> (io_error, sst_entry \<times> read_bufs) res" where
  "ms_pop_newest [] bufs e = Ok (e, bufs)"
| "ms_pop_newest (b # cb) bufs e =
    bind_res (pop_entry b bufs) (\<lambda>(entry, bufs').
    ms_pop_newest cb bufs' (if se_seq e < se_seq entry then entry else e))"

fun ms_pot_next :: "read_bufs \<Rightarrow> rstring \<Rightarrow> nat list \<Rightarrow> sst_entry option \<Rightarrow> sst_entry option" where
  "ms_pot_next bufs sfk [] pot = pot"
| "ms_pot_next bufs sfk (b # cb) pot =
    ms_pot_next bufs sfk cb
      (case read_buf_front (bufs ! b) of
         None \<Rightarrow> pot
       | Some entry \<Rightarrow>
           (case pot of
              Some n \<Rightarrow> if se_key entry < se_key n \<or> (se_key entry = se_key n \<and> se_seq n < se_seq entry)
                        then Some entry else pot
            | None \<Rightarrow> if se_key entry \<le> sfk then Some entry else pot))"

fun ms_pop_equal :: "nat list \<Rightarrow> rstring \<Rightarrow> read_bufs \<Rightarrow> (io_error, read_bufs) res" where
  "ms_pop_equal [] key bufs = Ok bufs"
| "ms_pop_equal (b # cb) key bufs =
    (case read_buf_front (bufs ! b) of
       None \<Rightarrow> ms_pop_equal cb key bufs
     | Some e \<Rightarrow>
         if key = se_key e
         then bind_res (pop_entry b bufs) (\<lambda>(_, bufs'). ms_pop_equal cb key bufs')
         else ms_pop_equal cb key bufs)"

partial_function (option) ms_inner ::
    "rstring \<Rightarrow> rstring option \<Rightarrow> nat list \<Rightarrow> read_bufs \<Rightarrow> sst_entry list \<Rightarrow>
     (io_error, sst_entry list \<times> read_bufs) res option" where
  "ms_inner sfk next_key cb bufs out =
    (case ms_pot_next bufs sfk cb None of
       None \<Rightarrow> Some (Ok (out, bufs))
     | Some entry \<Rightarrow>
         if ms_before sfk next_key entry then
           (case ms_pop_equal cb (se_key entry) bufs of
              Ok bufs' \<Rightarrow> ms_inner sfk next_key cb bufs' (out @ [entry])
            | Err x \<Rightarrow> Some (Err x)
            | Panic \<Rightarrow> Some Panic)
         else ms_inner sfk next_key cb bufs out)"

text \<open>The buffers that may still contribute go back into the map.\<close>

fun ms_reinsert :: "read_bufs \<Rightarrow> rstring \<Rightarrow> nat list \<Rightarrow> nat list \<Rightarrow> buf_map \<Rightarrow> (io_error, buf_map) res" where
  "ms_reinsert bufs sfk cur [] m = Ok m"
| "ms_reinsert bufs sfk cur (b # cb) m =
    (case read_buf_front (bufs ! b) of
       None \<Rightarrow> ms_reinsert bufs sfk (drop 1 cur) cb m
     | Some entry \<Rightarrow>
         if se_key entry \<le> sfk
         then bind_res (index_chk cur 0) (\<lambda>i. ms_reinsert bufs sfk (drop 1 cur) cb (AList.update i b m))
         else ms_reinsert bufs sfk (drop 1 cur) cb m)"

fun ms_find_next ::
    "read_bufs \<Rightarrow> buf_map \<Rightarrow> rstring \<Rightarrow> rstring \<Rightarrow> nat list \<Rightarrow> rstring option \<Rightarrow> nat list \<Rightarrow>
     (io_error, nat list) res" where
  "ms_find_next bufs m sfk curr_key [] next_key next = Ok next"
| "ms_find_next bufs m sfk curr_key (i # idxs) next_key next =
    bind_res (unwrap (map_of m i)) (\<lambda>b.
    bind_res (front_key bufs b) (\<lambda>buf_key.
    let push = (case next_key of
          None \<Rightarrow> curr_key < buf_key \<and> buf_key \<le> sfk
        | Some k \<Rightarrow> curr_key < buf_key \<and> buf_key \<le> k);
        replace = (case next_key of
          None \<Rightarrow> curr_key < buf_key \<and> buf_key \<le> sfk
        | Some k \<Rightarrow> curr_key < buf_key \<and> buf_key < k);
        next1 = (if replace then [] else next) in
    ms_find_next bufs m sfk curr_key idxs (if replace then Some buf_key else next_key)
      (if push then next1 @ [i] else next1)))"

text \<open>What the current buffers contribute: one buffer is drained, several are merged.\<close>

definition ms_contribute ::
    "rstring \<Rightarrow> rstring option \<Rightarrow> nat list \<Rightarrow> read_bufs \<Rightarrow> sst_entry list \<Rightarrow>
     (io_error, sst_entry list \<times> read_bufs \<times> nat list) res option" where
  "ms_contribute sfk next_key cb bufs out =
    (case cb of
       [b] \<Rightarrow> Some (bind_res (index_chk bufs b) (\<lambda>rb.
           bind_res (drain_while (ms_before sfk next_key) rb out) (\<lambda>(out', rb').
           Ok (out', bufs[b := rb'], []))))
     | _ \<Rightarrow>
       (case bind_res (index_chk cb 0) (\<lambda>b0.
            bind_res (front_entry bufs b0) (\<lambda>e0. ms_pop_newest cb bufs e0)) of
          Ok (e, bufs') \<Rightarrow>
            map_option (\<lambda>r. bind_res r (\<lambda>(out', bufs''). Ok (out', bufs'', cb)))
              (ms_inner sfk next_key cb bufs' (out @ [e]))
        | Err x \<Rightarrow> Some (Err x)
        | Panic \<Rightarrow> Some Panic))"

definition ms_advance ::
    "(nat list \<Rightarrow> nat list) \<Rightarrow> rstring \<Rightarrow> nat list \<Rightarrow> nat list \<Rightarrow> read_bufs \<Rightarrow> buf_map \<Rightarrow> nat list \<Rightarrow>
     (io_error, nat list \<times> nat list \<times> buf_map) res" where
  "ms_advance order sfk cur next bufs m cb =
    bind_res (ms_reinsert bufs sfk cur cb m) (\<lambda>m'.
    case next of
      [] \<Rightarrow> Ok ([], [], m')
    | ci # _ \<Rightarrow>
        bind_res (unwrap (map_of m' ci)) (\<lambda>b.
        bind_res (front_key bufs b) (\<lambda>curr_key.
        bind_res (ms_find_next bufs m' sfk curr_key (order (map fst m')) None []) (\<lambda>next'.
        Ok (next, next', m')))))"

partial_function (option) ms_loop ::
    "(nat list \<Rightarrow> nat list) \<Rightarrow> rstring \<Rightarrow> nat list \<Rightarrow> nat list \<Rightarrow> read_bufs \<Rightarrow> buf_map \<Rightarrow> sst_entry list \<Rightarrow>
     (io_error, sst_entry list \<times> read_bufs) res option" where
  "ms_loop order sfk cur next bufs m out =
    (if m = [] then Some (Ok (out, bufs))
     else (case ms_take cur m [] of (cb, m1) \<Rightarrow>
       (case ms_next_key bufs m1 next of
          Ok next_key \<Rightarrow>
            Option.bind (ms_contribute sfk next_key cb bufs out) (\<lambda>r. case r of
              Ok (out', bufs', cb') \<Rightarrow>
                (case ms_advance order sfk cur next bufs' m1 cb' of
                   Ok (cur', next', m') \<Rightarrow> ms_loop order sfk cur' next' bufs' m' out'
                 | Err x \<Rightarrow> Some (Err x)
                 | Panic \<Rightarrow> Some Panic)
            | Err x \<Rightarrow> Some (Err x)
            | Panic \<Rightarrow> Some Panic)
        | Err x \<Rightarrow> Some (Err x)
        | Panic \<Rightarrow> Some Panic)))"

definition merge_sort ::
    "(nat list \<Rightarrow> nat list) \<Rightarrow> read_bufs \<Rightarrow> (io_error, sst_entry list \<times> read_bufs) res option" where
  "merge_sort order bufs = (case bufs of
     [] \<Rightarrow> Some (Ok ([], []))
   | [rb] \<Rightarrow> Some (bind_res (drain_while (\<lambda>_. True) rb []) (\<lambda>(out, rb'). Ok (out, [rb'])))
   | _ \<Rightarrow>
     (case bind_res (ms_init bufs (order [0..<length bufs]) (rs [], [], [])) (\<lambda>(sfk, cur, next).
          bind_res (ms_retain bufs sfk [0..<length bufs]) (\<lambda>m. Ok (sfk, cur, next, m))) of
        Ok (sfk, cur, next, m) \<Rightarrow>
          ms_loop order sfk cur (filter (\<lambda>i. i \<in> set (map fst m)) next) bufs m []
      | Err x \<Rightarrow> Some (Err x)
      | Panic \<Rightarrow> Some Panic))"

end
