(* ===== verification/Sst_Level.thy ===== *)
theory Sst_Level
  imports Sst_Merge
begin

text \<open>
  Levels of the sorted tables and their container (\<open>src/storage_engine/sstable/level.rs\<close>):
  level zero, whose segments overlap, the partitioned levels above it, the selection of the
  segments to merge, the merge into a level, and opening the container from a directory.

  An action that may not return has type \<open>'a part_act\<close>; \<open>None\<close> is a run without end.
\<close>

type_synonym 'a part_act = "file_system \<Rightarrow> ((io_error, 'a) res \<times> file_system) option"

definition MERGE_BUF_MAX_TOTAL_SIZE :: nat where
  "MERGE_BUF_MAX_TOTAL_SIZE = 1024 * 1024 * 10"

record overlapping_level =
  ol_segments :: "sst_segment list"
  ol_target_size :: nat

record partitioned_level =
  pl_segments :: "sst_segment list"
  pl_target_size :: nat
  pl_sparsity :: nat
  pl_level_number :: nat

record level_container =
  lc_level_zero :: overlapping_level
  lc_partitioned_levels :: "partitioned_level list"

definition overlapping_new :: "nat \<Rightarrow> overlapping_level" where
  "overlapping_new target = \<lparr>ol_segments = [], ol_target_size = target\<rparr>"

definition partitioned_new :: "nat \<Rightarrow> nat \<Rightarrow> partitioned_level" where
  "partitioned_new target level_number =
    \<lparr>pl_segments = [], pl_target_size = target, pl_sparsity = 1, pl_level_number = level_number\<rparr>"

definition container_new :: "nat \<Rightarrow> level_container" where
  "container_new level_zero_target_size =
    \<lparr>lc_level_zero = overlapping_new level_zero_target_size, lc_partitioned_levels = []\<rparr>"

section \<open>Reading\<close>

text \<open>Level zero: the newest entry of all segments; on a tie the later segment wins.\<close>

fun overlapping_get_loop :: "sst_segment list \<Rightarrow> rstring \<Rightarrow> sst_entry option \<Rightarrow> sst_entry option fs_act" where
  "overlapping_get_loop [] key curr_entry = ret curr_entry"
| "overlapping_get_loop (seg # segs) key curr_entry =
    bind_act (segment_get seg key) (\<lambda>r.
    overlapping_get_loop segs key
      (case r of
         None \<Rightarrow> curr_entry
       | Some entry \<Rightarrow> (case curr_entry of
           None \<Rightarrow> Some entry
         | Some c \<Rightarrow> if se_seq c > se_seq entry then Some c else Some entry)))"

definition overlapping_get :: "overlapping_level \<Rightarrow> rstring \<Rightarrow> sst_entry option fs_act" where
  "overlapping_get level key = overlapping_get_loop (ol_segments level) key None"

definition find_containing_segment :: "partitioned_level \<Rightarrow> rstring \<Rightarrow> sst_segment option" where
  "find_containing_segment level key =
    find (\<lambda>seg. sg_first_key seg \<le> key \<and> key \<le> sg_last_key seg) (pl_segments level)"

definition partitioned_get :: "partitioned_level \<Rightarrow> rstring \<Rightarrow> sst_entry option fs_act" where
  "partitioned_get level key = (case find_containing_segment level key of
     None \<Rightarrow> ret None | Some seg \<Rightarrow> segment_get seg key)"

section \<open>Sizes and numbers\<close>

definition total_size :: "sst_segment list \<Rightarrow> nat" where
  "total_size segs = sum_list (map sg_size segs)"

fun highest_number :: "sst_segment list \<Rightarrow> nat \<Rightarrow> nat" where
  "highest_number [] m = m"
| "highest_number (s # segs) m = highest_number segs (if sg_number s > m then sg_number s else m)"

fun highest_sequence :: "sst_segment list \<Rightarrow> nat \<Rightarrow> nat" where
  "highest_sequence [] m = m"
| "highest_sequence (s # segs) m =
    highest_sequence segs (if sg_highest_sequence_no s > m then sg_highest_sequence_no s else m)"

definition overlapping_exceeds :: "overlapping_level \<Rightarrow> bool" where
  "overlapping_exceeds level \<longleftrightarrow> ol_target_size level < total_size (ol_segments level)"

definition partitioned_exceeds :: "partitioned_level \<Rightarrow> bool" where
  "partitioned_exceeds level \<longleftrightarrow> pl_target_size level < total_size (pl_segments level)"

text \<open>
  The selection of the segments to merge.  One pass over the segments lowers the number it
  looks for at every segment, also at those that do not match; below zero is the panic of
  the unsigned subtraction.
\<close>

fun select_pass ::
    "sst_segment list \<Rightarrow> sst_segment list \<Rightarrow> nat \<Rightarrow> nat \<Rightarrow> ('e, sst_segment list \<times> nat \<times> nat) res" where
  "select_pass [] acc sz number = Ok (acc, sz, number)"
| "select_pass (seg # segs) acc sz number =
    bind_res (if sg_number seg = number
              then bind_res (sub_chk sz (sg_size seg)) (\<lambda>sz'. Ok (acc @ [seg], sz'))
              else Ok (acc, sz)) (\<lambda>(acc', sz').
    bind_res (sub_chk number 1) (\<lambda>number'. select_pass segs acc' sz' number'))"

lemma select_pass_number:
  "select_pass segs acc sz number = Ok (acc', sz', number') \<Longrightarrow> number' + length segs = number"
  by (induction segs acc sz number rule: select_pass.induct)
    (auto simp: bind_res_Ok_iff outcome split: if_splits prod.splits)

function select_loop ::
    "nat \<Rightarrow> sst_segment list \<Rightarrow> sst_segment list \<Rightarrow> nat \<Rightarrow> nat \<Rightarrow> (io_error, sst_segment list) res" where
  "select_loop target [] acc sz number = Ok acc"
| "select_loop target (s # segs) acc sz number =
    (if target < sz then
       (case select_pass (s # segs) acc sz number of
          Ok (acc', sz', number') \<Rightarrow> select_loop target (s # segs) acc' sz' number'
        | Err x \<Rightarrow> Err x
        | Panic \<Rightarrow> Panic)
     else Ok acc)"
  by pat_completeness auto
termination
  by (relation "measure (\<lambda>(target, segs, acc, sz, number). number)")
    (auto simp del: select_pass.simps dest!: select_pass_number)

declare select_loop.simps(2) [simp del]

definition overlapping_segments_to_merge :: "overlapping_level \<Rightarrow> (io_error, sst_segment list) res" where
  "overlapping_segments_to_merge level = select_loop (ol_target_size level) (ol_segments level) []
     (total_size (ol_segments level)) (highest_number (ol_segments level) 0)"

definition partitioned_segments_to_merge :: "partitioned_level \<Rightarrow> (io_error, sst_segment list) res" where
  "partitioned_segments_to_merge level = select_loop (pl_target_size level) (pl_segments level) []
     (total_size (pl_segments level)) (highest_number (pl_segments level) 0)"

section \<open>Merging into a level\<close>

text \<open>A segment the program just wrote is opened with \<open>unwrap\<close>.\<close>

definition unwrap_open :: "(file_system, segment_open_error, 'a) act \<Rightarrow> 'a fs_act" where
  "unwrap_open m fs = (case m fs of (Ok x, fs') \<Rightarrow> (Ok x, fs') | (_, fs') \<Rightarrow> (Panic, fs'))"

fun write_entries ::
    "path \<Rightarrow> nat \<Rightarrow> nat \<Rightarrow> sst_entry list \<Rightarrow> segment_writer \<times> nat \<times> sst_segment list \<Rightarrow>
     (segment_writer \<times> nat \<times> sst_segment list) fs_act" where
  "write_entries dir level_number sparsity [] st = ret st"
| "write_entries dir level_number sparsity (entry # es) (w, new_number, new_segs) =
    bind_act
      (if reached_target_size w then
         bind_act (write_index_and_footer w) (\<lambda>w1.
         bind_act (unwrap_open (segment_from_file (sw_path w1))) (\<lambda>new_segment.
         bind_act (create_new_segment dir level_number new_number sparsity) (\<lambda>w2.
         ret (w2, new_number + 1, new_segs @ [new_segment]))))
       else ret (w, new_number, new_segs))
      (\<lambda>(w', number', segs').
    bind_act (lift_res (write_entry entry w')) (\<lambda>w''.
    write_entries dir level_number sparsity es (w'', number', segs')))"

fun fill_all :: "segment_read_buf list \<Rightarrow> segment_read_buf list fs_act" where
  "fill_all [] = ret []"
| "fill_all (rb # rbs) =
    bind_act (read_buf_fill rb) (\<lambda>rb'. bind_act (fill_all rbs) (\<lambda>rbs'. ret (rb' # rbs')))"

definition not_empty :: "segment_read_buf list \<Rightarrow> segment_read_buf list" where
  "not_empty rbs = filter (\<lambda>rb. rb_buf rb \<noteq> []) rbs"

partial_function (option) merge_loop ::
    "(nat list \<Rightarrow> nat list) \<Rightarrow> path \<Rightarrow> nat \<Rightarrow> nat \<Rightarrow> segment_read_buf list \<Rightarrow>
     segment_writer \<times> nat \<times> sst_segment list \<Rightarrow>
     (segment_writer \<times> nat \<times> sst_segment list) part_act" where
  "merge_loop order dir level_number sparsity rbs st fs =
    (if rbs = [] then Some (Ok st, fs)
     else Option.bind (merge_sort order rbs) (\<lambda>r. case r of
         Ok (out, rbs') \<Rightarrow>
           (case bind_act (write_entries dir level_number sparsity out st) (\<lambda>st'.
                 bind_act (fill_all rbs') (\<lambda>rbs''. ret (st', not_empty rbs''))) fs of
              (Ok (st', rbs''), fs') \<Rightarrow> merge_loop order dir level_number sparsity rbs'' st' fs'
            | (Err x, fs') \<Rightarrow> Some (Err x, fs')
            | (Panic, fs') \<Rightarrow> Some (Panic, fs'))
       | Err x \<Rightarrow> Some (Err x, fs)
       | Panic \<Rightarrow> Some (Panic, fs)))"

definition merge_and_write ::
    "(nat list \<Rightarrow> nat list) \<Rightarrow> partitioned_level \<Rightarrow> sst_segment list \<Rightarrow> sst_segment list part_act" where
  "merge_and_write order level segs fs =
    (case segs of
       [] \<Rightarrow> Some (Ok [], fs)
     | s # _ \<Rightarrow>
       let read_buf_len = MERGE_BUF_MAX_TOTAL_SIZE div length segs + 1;
           new_number = highest_number (pl_segments level) 0 + 1;
           dir = butlast (sg_path s) in
       (case bind_act (create_new_segment dir (pl_level_number level) new_number (pl_sparsity level)) (\<lambda>w.
             bind_act (fill_all (map (\<lambda>seg. read_buf_new seg read_buf_len) segs)) (\<lambda>rbs.
             ret (w, not_empty rbs))) fs of
          (Ok (w, rbs), fs') \<Rightarrow>
            map_option (\<lambda>(r, fs''). case r of
                Ok (w', _, new_segs) \<Rightarrow>
                  (if sw_finished w' then ret new_segs
                   else bind_act (write_index_and_footer w') (\<lambda>w''.
                        bind_act (unwrap_open (segment_from_file (sw_path w''))) (\<lambda>new_segment.
                        ret (new_segs @ [new_segment])))) fs''
              | Err x \<Rightarrow> (Err x, fs'')
              | Panic \<Rightarrow> (Panic, fs''))
              (merge_loop order dir (pl_level_number level) (pl_sparsity level) rbs
                 (w, new_number + 1, []) fs')
        | (Err x, fs') \<Rightarrow> Some (Err x, fs')
        | (Panic, fs') \<Rightarrow> Some (Panic, fs')))"

definition level_merge ::
    "(nat list \<Rightarrow> nat list) \<Rightarrow> partitioned_level \<Rightarrow> sst_segment list \<Rightarrow>
     (partitioned_level \<times> sst_segment list) part_act" where
  "level_merge order level incoming fs =
    (let hit = (\<lambda>seg. \<exists>i \<in> set incoming. overlaps seg i);
         segs = filter hit (pl_segments level) @ incoming;
         untouched = filter (\<lambda>seg. \<not> hit seg) (pl_segments level) in
     map_option (\<lambda>(r, fs'). (bind_res r (\<lambda>new_segs.
         Ok (level\<lparr>pl_segments := sort_key sg_first_key (new_segs @ untouched)\<rparr>, segs)), fs'))
       (merge_and_write order level segs fs))"

section \<open>The container\<close>

definition add_to_level_zero :: "path \<Rightarrow> level_container \<Rightarrow> level_container fs_act" where
  "add_to_level_zero p lc fs = (case segment_from_file p fs of
     (Ok seg, fs') \<Rightarrow> (Ok (lc\<lparr>lc_level_zero := (lc_level_zero lc)
         \<lparr>ol_segments := ol_segments (lc_level_zero lc) @ [seg]\<rparr>\<rparr>), fs')
   | (Err OpenCorrupted, fs') \<Rightarrow> (Panic, fs')
   | (Err (OpenIo e), fs') \<Rightarrow> (Err e, fs')
   | (Panic, fs') \<Rightarrow> (Panic, fs'))"

definition do_compact :: "level_container \<Rightarrow> bool" where
  "do_compact lc = overlapping_exceeds (lc_level_zero lc)"

definition swap_partitioned_levels :: "partitioned_level list \<Rightarrow> level_container \<Rightarrow> level_container" where
  "swap_partitioned_levels levels lc = lc\<lparr>lc_partitioned_levels := levels\<rparr>"

definition swap_all_levels :: "partitioned_level list \<Rightarrow> level_container \<Rightarrow> level_container" where
  "swap_all_levels levels lc =
    \<lparr>lc_level_zero = overlapping_new (ol_target_size (lc_level_zero lc)), lc_partitioned_levels = levels\<rparr>"

text \<open>Opening the segment files of a directory; corrupted ones are deleted.\<close>

fun open_all :: "path list \<Rightarrow> sst_segment list fs_act" where
  "open_all [] = ret []"
| "open_all (p # ps) = (\<lambda>fs. case segment_from_file p fs of
     (Ok seg, fs') \<Rightarrow> bind_act (open_all ps) (\<lambda>segs. ret (seg # segs)) fs'
   | (Err OpenCorrupted, fs') \<Rightarrow> open_all ps (snd (fs_remove p fs'))
   | (Err (OpenIo e), fs') \<Rightarrow> (Err e, fs')
   | (Panic, fs') \<Rightarrow> (Panic, fs'))"

text \<open>Sorting the segments into levels; \<open>acc\<close> is the partitioned level under construction.\<close>

fun group_levels ::
    "nat \<Rightarrow> nat \<Rightarrow> nat \<Rightarrow> sst_segment list \<Rightarrow> sst_segment list \<Rightarrow> sst_segment list \<Rightarrow>
     partitioned_level list \<Rightarrow> sst_segment list \<times> partitioned_level list" where
  "group_levels zero_size factor sparsity [] zero acc levels = (zero, levels)"
| "group_levels zero_size factor sparsity (s # segs) zero acc levels =
    (if sg_level_number s = 0 then group_levels zero_size factor sparsity segs (zero @ [s]) acc levels
     else
       let acc' = acc @ [s];
           level = \<lparr>pl_segments = sort_key sg_number acc',
             pl_target_size = zero_size * sg_level_number s * factor, pl_sparsity = sparsity,
             pl_level_number = sg_level_number s\<rparr> in
       (case segs of
          [] \<Rightarrow> (zero, levels @ [level])
        | n # _ \<Rightarrow>
            if sg_level_number s < sg_level_number n
            then group_levels zero_size factor sparsity segs zero [] (levels @ [level])
            else group_levels zero_size factor sparsity segs zero acc' levels))"

text \<open>
  The status of an interrupted merge is not implemented in the source (\<open>todo!()\<close>): a level
  over its size with a level above it panics.
\<close>

fun check_merge_statuses :: "partitioned_level list \<Rightarrow> (io_error, unit) res" where
  "check_merge_statuses [] = Ok ()"
| "check_merge_statuses [level] = Ok ()"
| "check_merge_statuses (level # next_level # levels) =
    (if partitioned_exceeds level then Panic else check_merge_statuses (next_level # levels))"

fun remove_segments :: "sst_segment list \<Rightarrow> unit fs_act" where
  "remove_segments [] = ret ()"
| "remove_segments (s # segs) = seq_act (fs_remove (sg_path s)) (remove_segments segs)"

fun merge_recovered ::
    "(nat list \<Rightarrow> nat list) \<Rightarrow> partitioned_level list \<Rightarrow> sst_segment list \<Rightarrow> partitioned_level list \<Rightarrow>
     (partitioned_level list \<times> sst_segment list) part_act" where
  "merge_recovered order [] to_merge done_levels fs = Some (Ok (done_levels, to_merge), fs)"
| "merge_recovered order (level # levels) to_merge done_levels fs =
    (if to_merge \<noteq> [] then
       Option.bind (level_merge order level to_merge fs) (\<lambda>(r, fs1). case r of
           Ok (new_level, to_delete) \<Rightarrow>
             (case bind_act (remove_segments to_delete)
                 (\<lambda>_. lift_res (partitioned_segments_to_merge new_level)) fs1 of
                (Ok to_merge', fs2) \<Rightarrow>
                  merge_recovered order levels to_merge' (done_levels @ [new_level]) fs2
              | (Err x, fs2) \<Rightarrow> Some (Err x, fs2)
              | (Panic, fs2) \<Rightarrow> Some (Panic, fs2))
         | Err x \<Rightarrow> Some (Err x, fs1)
         | Panic \<Rightarrow> Some (Panic, fs1))
     else (case partitioned_segments_to_merge level of
         Ok to_merge' \<Rightarrow> merge_recovered order levels to_merge' (done_levels @ [level]) fs
       | Err x \<Rightarrow> Some (Err x, fs)
       | Panic \<Rightarrow> Some (Panic, fs)))"

partial_function (option) merge_top ::
    "(nat list \<Rightarrow> nat list) \<Rightarrow> nat \<Rightarrow> nat \<Rightarrow> sst_segment list \<Rightarrow> partitioned_level list \<Rightarrow>
     partitioned_level list part_act" where
  "merge_top order zero_size factor to_merge levels fs =
    (if to_merge = [] then Some (Ok levels, fs)
     else
       (let number = length levels + 1 in
        Option.bind (level_merge order (partitioned_new (zero_size * number * factor) number) to_merge fs)
          (\<lambda>(r, fs1). case r of
             Ok (new_level, to_delete) \<Rightarrow>
               (case bind_act (remove_segments to_delete)
                   (\<lambda>_. lift_res (partitioned_segments_to_merge new_level)) fs1 of
                  (Ok to_merge', fs2) \<Rightarrow> merge_top order zero_size factor to_merge' (levels @ [new_level]) fs2
                | (Err x, fs2) \<Rightarrow> Some (Err x, fs2)
                | (Panic, fs2) \<Rightarrow> Some (Panic, fs2))
           | Err x \<Rightarrow> Some (Err x, fs1)
           | Panic \<Rightarrow> Some (Panic, fs1))))"

definition container_from_dir ::
    "(nat list \<Rightarrow> nat list) \<Rightarrow> path \<Rightarrow> nat \<Rightarrow> nat \<Rightarrow> nat \<Rightarrow> level_container part_act" where
  "container_from_dir order dir zero_size factor sparsity fs =
    (case bind_act (fs_read_dir dir) (\<lambda>ds. open_all (map fst ds)) fs of
       (Ok segs, fs1) \<Rightarrow>
         if segs = [] then Some (Ok (container_new zero_size), fs1)
         else
           (case group_levels zero_size factor sparsity (sort_key sg_level_number segs) [] [] [] of
              (zero, levels) \<Rightarrow>
              (let level_zero = \<lparr>ol_segments = sort_key sg_number zero, ol_target_size = zero_size\<rparr> in
               case bind_res (check_merge_statuses levels) (\<lambda>_. overlapping_segments_to_merge level_zero) of
                 Ok to_merge \<Rightarrow>
                   Option.bind (merge_recovered order levels to_merge [] fs1) (\<lambda>(r, fs2). case r of
                       Ok (done_levels, to_merge') \<Rightarrow>
                         map_option (\<lambda>(r', fs3). (bind_res r' (\<lambda>all_levels.
                             Ok \<lparr>lc_level_zero = level_zero, lc_partitioned_levels = all_levels\<rparr>), fs3))
                           (merge_top order zero_size factor to_merge' done_levels fs2)
                     | Err x \<Rightarrow> Some (Err x, fs2)
                     | Panic \<Rightarrow> Some (Panic, fs2))
               | Err x \<Rightarrow> Some (Err x, fs1)
               | Panic \<Rightarrow> Some (Panic, fs1)))
     | (Err x, fs1) \<Rightarrow> Some (Err x, fs1)
     | (Panic, fs1) \<Rightarrow> Some (Panic, fs1))"

end
