(* ===== verification/Wal_Segment.thy ===== *)
theory Wal_Segment
  imports File_System Record_Stream
begin

text \<open>
  Write-ahead-log segments (\<open>src/storage_engine/memtable/wal/segment.rs\<close>): the names of the
  segment files and the log sequence numbers they stand for, appending and padding, the wire
  format of a log entry, and the parser that validates a segment during recovery.

  The checksum is computed by the \<open>crc\<close> crate; it is the parameter \<open>crc\<close>, any function from
  bytes to 32-bit words.
\<close>

definition HEADER_SIZE :: nat where
  "HEADER_SIZE = 3 * 4 + 1"

datatype op_type = OpPut | OpDelete

datatype recovery_error = RecIo io_error | Corrupted path nat

record wal_entry =
  we_op :: op_type
  we_key :: rstring
  we_value :: "rstring option"
  we_seq :: nat

record partial_entry =
  pe_path :: path
  pe_offset :: nat
  pe_bytes :: bytes

record wal_segment =
  seg_path :: path
  seg_file_size :: nat
  seg_max_size :: nat
  seg_base_lsn :: nat

type_synonym crc_fun = "bytes \<Rightarrow> 32 word"

definition calculate_checksum :: "crc_fun \<Rightarrow> bytes \<Rightarrow> nat" where
  "calculate_checksum crc buf = unat (crc buf)"

section \<open>Segment names and sequence numbers\<close>

definition determine_segment_filename :: "nat \<Rightarrow> nat \<Rightarrow> nat \<Rightarrow> ('e, string) res" where
  "determine_segment_filename timeline sequence_number segment_size =
    bind_res (pad_hex 8 timeline) (\<lambda>timeline_hex_str.
    bind_res (pad_hex 16 sequence_number) (\<lambda>sequence_number_hex_str.
    bind_res (if segment_size = 0 then Panic else Ok (sequence_number mod 2 ^ 32 div segment_size))
      (\<lambda>segment_no.
    bind_res (pad_hex 16 segment_no) (\<lambda>segment_size_hex_str.
    bind_res (slice_chk 0 8 sequence_number_hex_str) (\<lambda>log_str.
    bind_res (slice_chk 8 (length segment_size_hex_str) segment_size_hex_str) (\<lambda>no_str.
    Ok (timeline_hex_str @ log_str @ no_str @ ''.wal'')))))))"

definition parse_hex_field :: "nat \<Rightarrow> nat \<Rightarrow> string \<Rightarrow> ('e, nat) res" where
  "parse_hex_field a b filename =
    bind_res (slice_chk a b filename) (\<lambda>s. unwrap (from_str_radix16 s))"

definition final_entry_after :: "string \<Rightarrow> nat \<Rightarrow> nat \<Rightarrow> ('e, bool) res" where
  "final_entry_after filename file_size sequence_number =
    bind_res (parse_hex_field 16 24 filename) (\<lambda>segment_no.
    bind_res (parse_hex_field 8 16 filename) (\<lambda>logical_log_no.
    bind_res (if file_size * (segment_no + 1) < 2 ^ 64 then Ok (file_size * (segment_no + 1)) else Panic)
      (\<lambda>m.
    bind_res (add_chk 64 (logical_log_no * 2 ^ 32) m) (\<lambda>bound.
    Ok (sequence_number < bound)))))"

text \<open>\<open>Segment::new\<close> and \<open>Segment::from\<close> read the base sequence number off the file name.\<close>

definition base_lsn_of :: "string \<Rightarrow> nat \<Rightarrow> ('e, nat) res" where
  "base_lsn_of filename max_size =
    bind_res (assert_that (length filename = 24)) (\<lambda>_.
    bind_res (parse_hex_field 8 16 filename) (\<lambda>log_no.
    bind_res (parse_hex_field 16 (length filename) filename) (\<lambda>seg_no.
    add_chk 64 (log_no * 2 ^ 32) (seg_no * max_size))))"

definition segment_new :: "path \<Rightarrow> nat \<Rightarrow> nat \<Rightarrow> ('e, wal_segment) res" where
  "segment_new path len max_size =
    bind_res (base_lsn_of (if path = [] then '''' else file_stem (last path)) max_size) (\<lambda>base_lsn.
    Ok \<lparr>seg_path = path, seg_file_size = len mod 2 ^ 32, seg_max_size = max_size,
        seg_base_lsn = base_lsn\<rparr>)"

definition segment_from :: "path \<Rightarrow> nat \<Rightarrow> nat \<Rightarrow> ('e, wal_segment) res" where
  "segment_from path file_size max_size =
    bind_res (base_lsn_of (if path = [] then '''' else file_stem (last path)) max_size) (\<lambda>base_lsn.
    Ok \<lparr>seg_path = path, seg_file_size = file_size, seg_max_size = max_size,
        seg_base_lsn = base_lsn\<rparr>)"

definition remaining_space :: "wal_segment \<Rightarrow> ('e, nat) res" where
  "remaining_space seg = sub_chk (seg_max_size seg) (seg_file_size seg)"

definition next_lsn :: "wal_segment \<Rightarrow> ('e, nat) res" where
  "next_lsn seg = add_chk 64 (seg_base_lsn seg) (seg_file_size seg)"

section \<open>Appending\<close>

type_synonym 'a seg_act = "(wal_segment \<times> file_system, io_error, 'a) act"

definition seg_append :: "bytes \<Rightarrow> unit seg_act" where
  "seg_append buf = (\<lambda>(seg, fs).
    let buf_size = length buf mod 2 ^ 32 in
    case bind_res (add_chk 32 (seg_file_size seg) buf_size) (\<lambda>n. assert_that (n \<le> seg_max_size seg)) of
      Ok _ \<Rightarrow> (case fs_append (seg_path seg) buf fs of
          (Ok _, fs') \<Rightarrow> (Ok (), seg\<lparr>seg_file_size := seg_file_size seg + buf_size\<rparr>, fs')
        | (Err e, fs') \<Rightarrow> (Err e, seg, fs')
        | (Panic, fs') \<Rightarrow> (Panic, seg, fs'))
    | Err e \<Rightarrow> (Err e, seg, fs)
    | Panic \<Rightarrow> (Panic, seg, fs))"

definition seg_pad :: "unit seg_act" where
  "seg_pad = (\<lambda>(seg, fs).
    case remaining_space seg of
      Ok buf_size \<Rightarrow> seg_append (replicate buf_size 0) (seg, fs)
    | Err e \<Rightarrow> (Err e, seg, fs)
    | Panic \<Rightarrow> (Panic, seg, fs))"

section \<open>The wire format of a log entry\<close>

text \<open>
  The source allocates the buffer at its final length and fills consecutive fields in it;
  the model concatenates the fields in the same order.
\<close>

definition wal_op_byte :: "op_type \<Rightarrow> u8" where
  "wal_op_byte opt = (case opt of OpPut \<Rightarrow> 1 | OpDelete \<Rightarrow> 2)"

definition wal_body :: "wal_entry \<Rightarrow> bytes" where
  "wal_body e =
     [wal_op_byte (we_op e)] @ le_bytes 4 (str_len (we_key e)) @ as_bytes (we_key e) @
     (case we_value e of None \<Rightarrow> [] | Some v \<Rightarrow> le_bytes 4 (str_len v) @ as_bytes v) @
     le_bytes 8 (we_seq e)"

definition wal_to_bytes :: "crc_fun \<Rightarrow> wal_entry \<Rightarrow> ('e, bytes) res" where
  "wal_to_bytes crc e =
    bind_res (assert_that (as_bytes (we_key e) \<noteq> [])) (\<lambda>_.
    bind_res (case we_op e of
        OpPut \<Rightarrow> assert_that (we_value e \<noteq> None)
      | OpDelete \<Rightarrow> assert_that (we_value e = None)) (\<lambda>_.
    (let buf_size = 8 + length (wal_body e) in
     Ok (le_bytes 4 (buf_size - 4) @ le_bytes 4 (calculate_checksum crc (wal_body e)) @ wal_body e))))"

definition wal_from_bytes :: "bytes \<Rightarrow> (unit, wal_entry) res" where
  "wal_from_bytes bytes =
    (if length bytes < 1 + 4 then Err () else
     let op = (if bytes ! 0 = 1 then OpPut else OpDelete) in
     bind_res (read_le 4 1 bytes) (\<lambda>key_len.
     if length bytes < 5 + key_len then Err () else
     bind_res (slice_chk 5 (5 + key_len) bytes) (\<lambda>kb.
     case from_utf8 kb of None \<Rightarrow> Err () | Some key \<Rightarrow>
     bind_res
       (let offset = 5 + key_len in
        if offset + 8 < length bytes then
          bind_res (read_le 4 offset bytes) (\<lambda>value_len.
          if length bytes < offset + 4 + value_len then Err () else
          bind_res (slice_chk (offset + 4) (offset + 4 + value_len) bytes) (\<lambda>vb.
          case from_utf8 vb of None \<Rightarrow> Err () | Some v \<Rightarrow> Ok (Some v, offset + 4 + value_len)))
        else Ok (None, offset)) (\<lambda>(value, offset).
     if length bytes < offset + 8 then Err () else
     bind_res (assert_that (length bytes - offset = 8)) (\<lambda>_.
     Ok \<lparr>we_op = op, we_key = key, we_value = value, we_seq = le_nat (drop offset bytes)\<rparr>)))))"

section \<open>Parsing and validating a segment\<close>

definition parse_finish ::
    "path \<Rightarrow> bytes \<Rightarrow> nat \<Rightarrow> nat \<Rightarrow> (recovery_error, partial_entry option) res" where
  "parse_finish file_path bytes offset record_offset =
    (if offset = length bytes \<or> offset + HEADER_SIZE > length bytes then Ok None
     else Ok (Some \<lparr>pe_path = file_path, pe_offset = record_offset,
                    pe_bytes = take HEADER_SIZE (drop offset bytes)\<rparr>))"

function parse_loop ::
    "crc_fun \<Rightarrow> path \<Rightarrow> bytes \<Rightarrow> nat \<Rightarrow> nat \<Rightarrow> wal_entry list \<Rightarrow>
     wal_entry list \<times> (recovery_error, partial_entry option) res" where
  "parse_loop crc file_path bytes offset record_offset entries =
    (if HEADER_SIZE + offset > length bytes
     then (entries, parse_finish file_path bytes offset record_offset)
     else
       let record_len = le_nat (take 4 (drop offset bytes)) in
       if record_len < HEADER_SIZE - 4 then (entries, Err (Corrupted file_path offset))
       else if offset + 4 + record_len > length bytes
       then (entries, parse_finish file_path bytes offset offset)
       else
         let read_checksum = le_nat (take 4 (drop (offset + 4) bytes));
             record = take (record_len - 4) (drop (offset + 8) bytes) in
         if read_checksum \<noteq> calculate_checksum crc record
         then (entries, Err (Corrupted file_path offset))
         else (case wal_from_bytes record of
             Err _ \<Rightarrow> (entries, Err (Corrupted file_path offset))
           | Panic \<Rightarrow> (entries, Panic)
           | Ok entry \<Rightarrow>
               parse_loop crc file_path bytes (offset + 4 + record_len) offset (entries @ [entry])))"
  by pat_completeness auto
termination
  by (relation "measure (\<lambda>(crc, p, bytes, offset, _). length bytes - offset)")
     (auto simp: HEADER_SIZE_def)

declare parse_loop.simps [simp del]

definition parse_validate_wal_entries ::
    "crc_fun \<Rightarrow> path \<Rightarrow> bytes \<Rightarrow> wal_entry list \<times> (recovery_error, partial_entry option) res" where
  "parse_validate_wal_entries crc file_path bytes = parse_loop crc file_path bytes 0 0 []"

definition read_parse_validate_from_offset ::
    "crc_fun \<Rightarrow> wal_segment \<Rightarrow> nat \<Rightarrow> file_system \<Rightarrow>
     (wal_entry list \<times> (recovery_error, partial_entry option) res) \<times> file_system" where
  "read_parse_validate_from_offset crc seg offset fs =
    (case fs_read (seg_path seg) fs of
       (Ok content, fs') \<Rightarrow>
         (case parse_validate_wal_entries crc (seg_path seg) (drop offset content) of
            (entries, Ok opt) \<Rightarrow> ((entries, Ok (map_option (\<lambda>pe. pe\<lparr>pe_offset := pe_offset pe + offset\<rparr>) opt)), fs')
          | (entries, Err (RecIo e)) \<Rightarrow> ((entries, Err (RecIo e)), fs')
          | (entries, Err (Corrupted fp pos)) \<Rightarrow> ((entries, Err (Corrupted fp (pos + offset))), fs')
          | (entries, Panic) \<Rightarrow> ((entries, Panic), fs'))
     | (Err e, fs') \<Rightarrow> (([], Err (RecIo e)), fs')
     | (Panic, fs') \<Rightarrow> (([], Panic), fs'))"

definition read_parse_validate_from_partial_record ::
    "crc_fun \<Rightarrow> wal_segment \<Rightarrow> bytes \<Rightarrow> file_system \<Rightarrow>
     (wal_entry list \<times> (recovery_error, partial_entry option) res) \<times> file_system" where
  "read_parse_validate_from_partial_record crc seg bytes fs =
    (let part_rec_size = length bytes in
     case fs_read (seg_path seg) fs of
       (Ok content, fs') \<Rightarrow>
         (case parse_validate_wal_entries crc (seg_path seg) (bytes @ content) of
            (entries, Ok None) \<Rightarrow> ((entries, Ok None), fs')
          | (entries, Ok (Some pe)) \<Rightarrow>
              ((entries, bind_res (sub_chk (pe_offset pe) part_rec_size)
                 (\<lambda>n. Ok (Some (pe\<lparr>pe_offset := n\<rparr>)))), fs')
          | (entries, Err (RecIo e)) \<Rightarrow> ((entries, Err (RecIo e)), fs')
          | (entries, Err (Corrupted fp buf_offset)) \<Rightarrow>
              ((entries, Err (Corrupted fp
                 (if buf_offset > part_rec_size then buf_offset - part_rec_size else buf_offset))), fs')
          | (entries, Panic) \<Rightarrow> ((entries, Panic), fs'))
     | (Err e, fs') \<Rightarrow> (([], Err (RecIo e)), fs')
     | (Panic, fs') \<Rightarrow> (([], Panic), fs'))"

section \<open>Round trip of an entry\<close>

text \<open>
  \<open>wal_entry_ok\<close>: what every entry that the write worker builds satisfies, and what its
  32-bit length fields can express.
\<close>

definition wal_entry_ok :: "wal_entry \<Rightarrow> bool" where
  "wal_entry_ok e \<longleftrightarrow> as_bytes (we_key e) \<noteq> [] \<and> (we_op e = OpPut \<longleftrightarrow> we_value e \<noteq> None) \<and>
     length (wal_body e) + 8 < 2 ^ 32 \<and> we_seq e < 2 ^ 64"

definition wal_frame :: "crc_fun \<Rightarrow> wal_entry \<Rightarrow> bytes" where
  "wal_frame crc e =
     le_bytes 4 (4 + length (wal_body e)) @ le_bytes 4 (calculate_checksum crc (wal_body e)) @ wal_body e"

lemma wal_to_bytes_eq:
  "wal_to_bytes crc e =
    (if as_bytes (we_key e) \<noteq> [] \<and> (we_op e = OpPut \<longleftrightarrow> we_value e \<noteq> None)
     then Ok (wal_frame crc e) else Panic)"
  by (cases "as_bytes (we_key e) = []")
    (auto simp: wal_to_bytes_def wal_frame_def split: op_type.splits)

lemma wal_to_bytes_ok [simp]: "wal_entry_ok e \<Longrightarrow> wal_to_bytes crc e = Ok (wal_frame crc e)"
  by (auto simp: wal_to_bytes_eq wal_entry_ok_def)

lemma length_wal_body:
  "length (wal_body e) = 13 + str_len (we_key e) +
     (case we_value e of None \<Rightarrow> 0 | Some v \<Rightarrow> 4 + str_len v)"
  by (auto simp: wal_body_def str_len_as_bytes split: option.splits)

lemma length_wal_frame: "length (wal_frame crc e) = 8 + length (wal_body e)"
  by (simp add: wal_frame_def)

lemma length_wal_frame_ge: "21 \<le> length (wal_frame crc e)"
  by (simp add: length_wal_frame length_wal_body)

lemma wal_frame_nonempty [simp]: "wal_frame crc e \<noteq> []"
  using length_wal_frame_ge [of crc e] by auto

lemma wal_op_byte_inverse: "(if wal_op_byte opt = 1 then OpPut else OpDelete) = opt"
  by (cases opt) (simp_all add: wal_op_byte_def)

lemma wal_from_bytes_body:
  assumes ok: "wal_entry_ok e"
  shows "wal_from_bytes (wal_body e) = Ok e"
proof -
  define op where "op = wal_op_byte (we_op e)"
  define k where "k = as_bytes (we_key e)"
  define vb where "vb = (case we_value e of None \<Rightarrow> [] | Some v \<Rightarrow> le_bytes 4 (str_len v) @ as_bytes v)"
  define sq where "sq = le_bytes 8 (we_seq e)"
  have body: "wal_body e = [op] @ le_bytes 4 (str_len (we_key e)) @ k @ vb @ sq"
    by (simp add: wal_body_def op_def k_def vb_def sq_def)
  have kl: "length k = str_len (we_key e)" by (simp add: k_def str_len_def)
  have small: "str_len (we_key e) < 2 ^ 32"
    using ok by (simp add: wal_entry_ok_def length_wal_body)
  have r1: "read_le 4 1 (wal_body e) = (Ok (str_len (we_key e)) :: (unit, nat) res)"
    using read_le_mid [of 1 "[op]" "le_bytes 4 (str_len (we_key e))" 4 "k @ vb @ sq"] small
    by (simp add: body le_nat_le_bytes)
  have r2: "slice_chk 5 (5 + str_len (we_key e)) (wal_body e) = (Ok k :: (unit, bytes) res)"
    using slice_mid [of 5 "[op] @ le_bytes 4 (str_len (we_key e))" _ k "vb @ sq"]
    by (simp add: body kl)
  have dr: "drop (5 + str_len (we_key e)) (wal_body e) = vb @ sq"
    using drop_pre [of _ "[op] @ le_bytes 4 (str_len (we_key e)) @ k" "vb @ sq"]
    by (simp add: body kl)
  have len: "length (wal_body e) = 5 + str_len (we_key e) + length vb + 8"
    by (simp add: body kl sq_def)
  have sq: "le_nat sq = we_seq e"
    using ok by (simp add: sq_def le_nat_le_bytes wal_entry_ok_def)
  have op: "(if wal_body e ! 0 = 1 then OpPut else OpDelete) = we_op e"
    using wal_op_byte_inverse by (simp add: body op_def)
  show ?thesis
  proof (cases "we_value e")
    case None
    then have "vb = []" by (simp add: vb_def)
    with None r1 r2 len dr sq op k_def show ?thesis
      by (simp add: wal_from_bytes_def)
  next
    case (Some v)
    have vs: "str_len v < 2 ^ 32"
      using ok Some by (simp add: wal_entry_ok_def length_wal_body)
    have vb: "vb = le_bytes 4 (str_len v) @ as_bytes v" by (simp add: vb_def Some)
    have r3: "read_le 4 (5 + str_len (we_key e)) (wal_body e) = (Ok (str_len v) :: (unit, nat) res)"
      using read_le_mid [of "5 + str_len (we_key e)" "[op] @ le_bytes 4 (str_len (we_key e)) @ k"
          "le_bytes 4 (str_len v)" 4 "as_bytes v @ sq"] vs
      by (simp add: body kl vb le_nat_le_bytes)
    have r4: "slice_chk (9 + str_len (we_key e)) (9 + str_len (we_key e) + str_len v) (wal_body e) =
        (Ok (as_bytes v) :: (unit, bytes) res)"
      using slice_mid [of "9 + str_len (we_key e)"
          "[op] @ le_bytes 4 (str_len (we_key e)) @ k @ le_bytes 4 (str_len v)"
          "9 + str_len (we_key e) + str_len v"
          "as_bytes v" sq]
      by (simp add: body kl vb str_len_as_bytes)
    have d2: "drop (9 + str_len (we_key e) + str_len v) (wal_body e) = sq"
      using drop_pre [of _ "[op] @ le_bytes 4 (str_len (we_key e)) @ k @ vb" sq]
      by (simp add: body kl vb str_len_as_bytes add.assoc)
    from Some r1 r2 r3 r4 d2 len vb sq op k_def show ?thesis
      by (simp add: wal_from_bytes_def str_len_as_bytes add.commute add.left_commute)
  qed
qed

section \<open>Names and base sequence numbers agree\<close>

lemma file_stem_wal: "xs \<noteq> [] \<Longrightarrow> file_stem (xs @ ''.wal'') = xs"
  by (cases xs rule: rev_cases) (simp_all add: file_stem_def)

definition wal_name :: "nat \<Rightarrow> nat \<Rightarrow> nat \<Rightarrow> string" where
  "wal_name timeline log_no segment_no =
     hexw 8 timeline @ hexw 8 log_no @ hexw 8 segment_no"

lemma length_wal_name [simp]: "length (wal_name t l n) = 24"
  by (simp add: wal_name_def)

lemma determine_segment_filename_eq:
  assumes "timeline < 2 ^ 32" "sequence_number < 2 ^ 64" "0 < segment_size"
  shows "determine_segment_filename timeline sequence_number segment_size =
    Ok (wal_name timeline (sequence_number div 2 ^ 32)
          (sequence_number mod 2 ^ 32 div segment_size) @ ''.wal'')"
proof -
  define no where "no = sequence_number mod 2 ^ 32 div segment_size"
  have "no \<le> sequence_number mod 2 ^ 32" by (simp add: no_def)
  also have "\<dots> < 2 ^ 32" by simp
  finally have no: "no < 2 ^ 32" .
  have nod: "sequence_number mod 4294967296 div segment_size = no"
    by (simp add: no_def)
  have p: "(2::nat) ^ 32 = 16 ^ 8" "(2::nat) ^ 64 = 16 ^ 16" by simp_all
  have seq: "hexw 16 sequence_number =
      hexw 8 (sequence_number div 2 ^ 32) @ hexw 8 (sequence_number mod 2 ^ 32)"
    using hexw_split [of 8 8 sequence_number] by (simp add: p)
  have nos: "hexw 16 no = hexw 8 0 @ hexw 8 no"
    using hexw_split [of 8 8 no] no by (simp add: p)
  show ?thesis
    using assms no
    by (simp add: determine_segment_filename_def pad_hex_hexw p seq nos slice_chk_def
        wal_name_def nod)
qed

lemma parse_hex_field_mid:
  "a = length xs \<Longrightarrow> b = a + k \<Longrightarrow> n < 16 ^ k \<Longrightarrow> n < 2 ^ 64 \<Longrightarrow> 0 < k \<Longrightarrow>
    parse_hex_field a b (xs @ hexw k n @ ys) = Ok n"
  by (simp add: parse_hex_field_def slice_chk_def from_str_radix16_hexw)

lemma parse_wal_name:
  assumes "l < 2 ^ 32" "n < 2 ^ 32"
  shows "parse_hex_field 8 16 (wal_name t l n @ ys) = Ok l"
    and "parse_hex_field 16 24 (wal_name t l n @ ys) = Ok n"
  using assms parse_hex_field_mid [of 8 "hexw 8 t" 16 8 l "hexw 8 n @ ys"]
    parse_hex_field_mid [of 16 "hexw 8 t @ hexw 8 l" 24 8 n ys]
  by (simp_all add: wal_name_def)

lemma base_lsn_of_wal_name:
  assumes "l < 2 ^ 32" "n < 2 ^ 32" "l * 2 ^ 32 + n * max_size < 2 ^ 64"
  shows "base_lsn_of (wal_name t l n) max_size = Ok (l * 2 ^ 32 + n * max_size)"
  using assms
  by (simp add: base_lsn_of_def add_chk_def parse_wal_name [where ys = "[]", simplified])

lemma mod_of_dvd_pow:
  fixes s :: nat
  assumes "segment_size dvd 2 ^ 32"
  shows "s mod 2 ^ 32 div segment_size * segment_size + s div 2 ^ 32 * 2 ^ 32 = s - s mod segment_size"
proof -
  have "s mod 2 ^ 32 mod segment_size = s mod segment_size"
    using assms by (rule mod_mod_cancel)
  then have "s mod 2 ^ 32 div segment_size * segment_size = s mod 2 ^ 32 - s mod segment_size"
    by (metis minus_mod_eq_div_mult)
  moreover have "s mod segment_size \<le> s mod 2 ^ 32"
    using \<open>s mod 2 ^ 32 mod segment_size = s mod segment_size\<close> by (metis mod_less_eq_dividend)
  ultimately show ?thesis
    using div_mult_mod_eq [of s "2 ^ 32"] by linarith
qed

lemma base_lsn_of_filename:
  assumes "segment_size dvd 2 ^ 32" "0 < segment_size" "s < 2 ^ 64"
  shows "base_lsn_of (wal_name t (s div 2 ^ 32) (s mod 2 ^ 32 div segment_size)) segment_size =
    Ok (s - s mod segment_size)"
proof -
  have "s mod 2 ^ 32 div segment_size \<le> s mod 2 ^ 32" by simp
  also have "\<dots> < 2 ^ 32" by simp
  finally have n: "s mod 2 ^ 32 div segment_size < 2 ^ 32" .
  have l: "s div 2 ^ 32 < 2 ^ 32" using assms(3) by (simp add: less_mult_imp_div_less)
  have eq: "s div 2 ^ 32 * 2 ^ 32 + s mod 2 ^ 32 div segment_size * segment_size = s - s mod segment_size"
    using mod_of_dvd_pow [OF assms(1), of s] by simp
  show ?thesis
    using base_lsn_of_wal_name [OF l n, of segment_size t] eq assms(3)
    by (simp add: less_imp_diff_less)
qed

section \<open>What the parser returns\<close>

text \<open>The record offset only matters once a record header has been read.\<close>

lemma parse_loop_record_offset: "parse_loop crc p bs off ro es = parse_loop crc p bs off 0 es"
  by (subst (1 2) parse_loop.simps) (auto simp: parse_finish_def)

lemma parse_loop_frame:
  assumes ok: "wal_entry_ok e" and off: "off = length pre"
  shows "parse_loop crc p (pre @ wal_frame crc e @ post) off ro es =
    parse_loop crc p (pre @ wal_frame crc e @ post) (off + length (wal_frame crc e)) 0 (es @ [e])"
proof -
  define body where "body = wal_body e"
  define L where "L = le_bytes 4 (4 + length body)"
  define C where "C = le_bytes 4 (calculate_checksum crc body)"
  define bs where "bs = pre @ wal_frame crc e @ post"
  have bs: "bs = pre @ L @ C @ body @ post"
    by (simp add: bs_def wal_frame_def L_def C_def body_def)
  have small: "length body + 8 < 2 ^ 32" and long: "13 \<le> length body"
    using ok by (simp_all add: wal_entry_ok_def length_wal_body body_def)
  have L: "le_nat L = 4 + length body" "length L = 4"
    using small by (simp_all add: L_def le_nat_le_bytes)
  have "calculate_checksum crc body < 2 ^ 32"
    using unsigned_less [of "crc body", where 'a = nat] by (simp add: calculate_checksum_def)
  then have C: "le_nat C = calculate_checksum crc body" "length C = 4"
    by (simp_all add: C_def le_nat_le_bytes)
  have rl: "take 4 (drop off bs) = L" by (simp add: bs off L)
  have ck: "take 4 (drop (off + 4) bs) = C" by (simp add: bs off L C)
  have rc: "take (4 + length body - 4) (drop (off + 8) bs) = body"
    by (simp add: bs off L C)
  have fl: "length (wal_frame crc e) = 8 + length body"
    by (simp add: length_wal_frame body_def)
  have len: "length bs = off + 8 + length body + length post"
    by (simp add: bs off L C)
  have "parse_loop crc p bs off ro es = parse_loop crc p bs (off + 4 + (4 + length body)) off (es @ [e])"
    using long rc wal_from_bytes_body [OF ok, folded body_def]
    by (subst parse_loop.simps) (simp add: rl ck L C len HEADER_SIZE_def Let_def)
  then show ?thesis
    by (simp add: parse_loop_record_offset [of crc p bs _ off] fl add.assoc flip: bs_def)
qed

interpretation wal_stream: record_stream "wal_frame crc"
  "\<lambda>bs off acc. parse_loop crc p bs off 0 acc" wal_entry_ok for crc p
  by unfold_locales (rule parse_loop_frame [OF _ refl])

lemma parse_loop_short_tail:
  "length bs < off + HEADER_SIZE \<Longrightarrow> parse_loop crc p bs off ro es = (es, Ok None)"
  by (subst parse_loop.simps) (simp add: parse_finish_def)

lemma parse_loop_header_tail:
  assumes ok: "wal_entry_ok e" and off: "off = length pre"
    and hd: "take HEADER_SIZE rest = take HEADER_SIZE (wal_frame crc e)"
    and len: "HEADER_SIZE \<le> length rest" "length rest < length (wal_frame crc e)"
  shows "parse_loop crc p (pre @ rest) off ro es =
    (es, Ok (Some \<lparr>pe_path = p, pe_offset = off, pe_bytes = take HEADER_SIZE (wal_frame crc e)\<rparr>))"
proof -
  have "take 4 rest = take 4 (take HEADER_SIZE rest)" by (simp add: HEADER_SIZE_def)
  also have "\<dots> = take 4 (wal_frame crc e)" by (simp add: hd) (simp add: HEADER_SIZE_def)
  finally have rl: "take 4 rest = le_bytes 4 (4 + length (wal_body e))"
    by (simp add: wal_frame_def)
  have "length (wal_body e) + 8 < 2 ^ 32" using ok by (simp add: wal_entry_ok_def)
  then have "le_nat (take 4 (drop off (pre @ rest))) = 4 + length (wal_body e)"
    by (simp add: off rl le_nat_le_bytes)
  moreover have "13 \<le> length (wal_body e)" by (simp add: length_wal_body)
  moreover have "rest \<noteq> []" using len by (auto simp: HEADER_SIZE_def)
  ultimately show ?thesis
    using len hd
    by (subst parse_loop.simps)
      (simp add: off parse_finish_def length_wal_frame HEADER_SIZE_def)
qed

text \<open>
  A segment is a run of whole entries and a tail.  Three tails occur: nothing or padding
  shorter than a header, and the header of an entry whose rest is in the next segment.
\<close>

lemma parse_entries_short_tail:
  assumes "\<forall>e \<in> set es. wal_entry_ok e" and "length rest < HEADER_SIZE"
  shows "parse_validate_wal_entries crc p (concat (map (wal_frame crc) es) @ rest) = (es, Ok None)"
  using wal_stream.reader_all [of es crc p rest] assms
  by (simp add: parse_validate_wal_entries_def parse_loop_short_tail)

lemma parse_entries_header_tail:
  assumes "\<forall>e \<in> set es. wal_entry_ok e" and "wal_entry_ok e"
    and "take HEADER_SIZE rest = take HEADER_SIZE (wal_frame crc e)"
    and "HEADER_SIZE \<le> length rest" "length rest < length (wal_frame crc e)"
  shows "parse_validate_wal_entries crc p (concat (map (wal_frame crc) es) @ rest) =
    (es, Ok (Some \<lparr>pe_path = p, pe_offset = length (concat (map (wal_frame crc) es)),
                    pe_bytes = take HEADER_SIZE (wal_frame crc e)\<rparr>))"
  using wal_stream.reader_all [of es crc p rest]
    parse_loop_header_tail [OF assms(2) refl assms(3-5), where pre = "concat (map (wal_frame crc) es)"
      and p = p and ro = 0 and es = es]
    assms(1)
  by (simp add: parse_validate_wal_entries_def)

end
