(* ===== verification/Write_Ahead_Log.thy ===== *)
theory Write_Ahead_Log
  imports Wal_Segment
begin

text \<open>
  The write-ahead log (\<open>src/storage_engine/memtable/wal.rs\<close>): an active segment to which
  entries are appended, rotated when the next entry does not fit.  The state of an operation
  is the log and the file system.  The second half describes the shape that a sequence of
  appends gives to the segment files.
\<close>

record wal =
  wal_active :: wal_segment
  wal_segment_max_size :: nat
  wal_dir :: path

type_synonym 'a wal_act = "(wal \<times> file_system, io_error, 'a) act"

definition on_fs :: "'a fs_act \<Rightarrow> 'a wal_act" where
  "on_fs m = (\<lambda>(w, fs). case m fs of (r, fs') \<Rightarrow> (r, w, fs'))"

definition on_active :: "'a seg_act \<Rightarrow> 'a wal_act" where
  "on_active m = (\<lambda>(w, fs). case m (wal_active w, fs) of
     (r, seg', fs') \<Rightarrow> (r, w\<lparr>wal_active := seg'\<rparr>, fs'))"

definition wal_create_new :: "path \<Rightarrow> nat \<Rightarrow> wal fs_act" where
  "wal_create_new dir segment_max_size =
    bind_act (lift_res (determine_segment_filename 0 0 segment_max_size)) (\<lambda>filename.
    bind_act (fs_create (dir @ [filename])) (\<lambda>_.
    bind_act (lift_res (segment_new (dir @ [filename]) 0 segment_max_size)) (\<lambda>segment.
    ret \<lparr>wal_active = segment, wal_segment_max_size = segment_max_size, wal_dir = dir\<rparr>)))"

definition wal_from_segment :: "path \<Rightarrow> wal_segment \<Rightarrow> nat \<Rightarrow> wal" where
  "wal_from_segment dir segment segment_size =
    \<lparr>wal_active = segment, wal_segment_max_size = segment_size, wal_dir = dir\<rparr>"

definition wal_rotate :: "nat \<Rightarrow> unit wal_act" where
  "wal_rotate next_sequence_number = (\<lambda>(w, fs).
    bind_act (lift_res (determine_segment_filename 0 next_sequence_number (wal_segment_max_size w)))
      (\<lambda>filename.
    let path = wal_dir w @ [filename] in
    bind_act (on_fs (fs_create path)) (\<lambda>_.
    bind_act (lift_res (segment_new path 0 (wal_segment_max_size w))) (\<lambda>segment.
    (\<lambda>(w', fs'). (Ok (), w'\<lparr>wal_active := segment\<rparr>, fs'))))) (w, fs))"

definition wal_append :: "crc_fun \<Rightarrow> wal_entry \<Rightarrow> unit wal_act" where
  "wal_append crc entry = (\<lambda>(w, fs).
    bind_act (lift_res (wal_to_bytes crc entry)) (\<lambda>buf.
    let buf_size = length buf mod 2 ^ 32 in
    bind_act (lift_res (remaining_space (wal_active w))) (\<lambda>free_space.
    if buf_size \<le> free_space then on_active (seg_append buf)
    else if HEADER_SIZE \<le> free_space then
      seq_act (on_active (seg_append (take HEADER_SIZE buf)))
     (seq_act (on_active seg_pad)
     (bind_act (lift_res (add_chk 64 (we_seq entry) buf_size)) (\<lambda>next.
      seq_act (wal_rotate next)
      (on_active (seg_append (drop HEADER_SIZE buf))))))
    else
      seq_act (on_active seg_pad)
     (bind_act (lift_res (add_chk 64 (we_seq entry) buf_size)) (\<lambda>next.
      seq_act (wal_rotate next)
      (on_active (seg_append buf)))))) (w, fs))"

definition wal_next_sequence_number :: "wal \<Rightarrow> ('e, nat) res" where
  "wal_next_sequence_number w = next_lsn (wal_active w)"

section \<open>What a successful operation leaves behind\<close>

lemma seg_append_Ok:
  assumes "seg_append buf (seg, fs) = (Ok u, seg', fs')" and "length buf < 2 ^ 32"
  shows "seg_file_size seg + length buf \<le> seg_max_size seg \<and>
    seg' = seg\<lparr>seg_file_size := seg_file_size seg + length buf\<rparr> \<and>
    (\<exists>old. fs_content fs (seg_path seg) = Some old \<and>
       fs_content fs' = (fs_content fs)(seg_path seg \<mapsto> old @ buf)) \<and> fs_dirs fs' = fs_dirs fs"
  using assms
  by (auto simp: seg_append_def Let_def assert_that_def add_chk_def
      split: res.splits if_splits prod.splits dest!: fs_append_Ok)

lemma seg_pad_Ok:
  assumes "seg_pad (seg, fs) = (Ok u, seg', fs')" and "seg_max_size seg < 2 ^ 32"
  shows "seg_file_size seg \<le> seg_max_size seg \<and>
    seg' = seg\<lparr>seg_file_size := seg_max_size seg\<rparr> \<and>
    (\<exists>old. fs_content fs (seg_path seg) = Some old \<and>
       fs_content fs' = (fs_content fs)
         (seg_path seg \<mapsto> old @ replicate (seg_max_size seg - seg_file_size seg) 0)) \<and>
    fs_dirs fs' = fs_dirs fs"
  using assms
  by (auto simp: seg_pad_def remaining_space_def sub_chk_def split: if_splits
      dest!: seg_append_Ok)

text \<open>The file of the segment with a given base sequence number.\<close>

definition wal_path :: "path \<Rightarrow> nat \<Rightarrow> nat \<Rightarrow> path" where
  "wal_path dir segment_size base =
     dir @ [wal_name 0 (base div 2 ^ 32) (base mod 2 ^ 32 div segment_size) @ ''.wal'']"

lemma base_lsn_of_wal_path:
  assumes "segment_size dvd 2 ^ 32" "0 < segment_size" "b < 2 ^ 64"
  shows "base_lsn_of (file_stem (last (wal_path dir segment_size b))) segment_size =
    Ok (b - b mod segment_size)"
proof -
  have "wal_name 0 (b div 2 ^ 32) (b mod 2 ^ 32 div segment_size) \<noteq> []"
    by (metis length_wal_name list.size(3) zero_neq_numeral)
  then show ?thesis
    using base_lsn_of_filename [OF assms, of 0] by (simp add: wal_path_def file_stem_wal)
qed

lemma wal_path_inject:
  assumes "segment_size dvd 2 ^ 32" "0 < segment_size"
    and "b < 2 ^ 64" "b' < 2 ^ 64" "segment_size dvd b" "segment_size dvd b'"
    and "wal_path dir segment_size b = wal_path dir segment_size b'"
  shows "b = b'"
proof -
  have "(Ok b :: (unit, nat) res) = base_lsn_of (file_stem (last (wal_path dir segment_size b))) segment_size"
    using assms(5) by (simp add: base_lsn_of_wal_path [OF assms(1,2,3)] mod_eq_0_iff_dvd)
  also have "\<dots> = Ok b'"
    using assms(6) by (simp add: assms(7) base_lsn_of_wal_path [OF assms(1,2,4)] mod_eq_0_iff_dvd)
  finally show ?thesis by simp
qed

lemma wal_path_cong:
  assumes "0 < segment_size" "segment_size dvd 2 ^ 32"
  shows "wal_path dir segment_size (s - s mod segment_size) = wal_path dir segment_size s"
proof -
  let ?b = "s - s mod segment_size"
  have b: "?b = s mod 2 ^ 32 div segment_size * segment_size + s div 2 ^ 32 * 2 ^ 32"
    using mod_of_dvd_pow [OF assms(2), of s] by simp
  have "s mod 2 ^ 32 div segment_size * segment_size \<le> s mod 2 ^ 32" by simp
  also have "\<dots> < 2 ^ 32" by simp
  finally have small: "s mod 2 ^ 32 div segment_size * segment_size < 2 ^ 32" .
  have "?b div 2 ^ 32 = s div 2 ^ 32" using small by (simp add: b)
  moreover have "?b mod 2 ^ 32 = s mod 2 ^ 32 div segment_size * segment_size"
    using small by (simp add: b)
  ultimately show ?thesis using assms(1) by (simp add: wal_path_def)
qed

lemma segment_new_wal_path:
  assumes "segment_size dvd 2 ^ 32" "0 < segment_size" "b < 2 ^ 64"
  shows "segment_new (wal_path dir segment_size b) 0 segment_size =
    Ok \<lparr>seg_path = wal_path dir segment_size b, seg_file_size = 0, seg_max_size = segment_size,
        seg_base_lsn = b - b mod segment_size\<rparr>"
proof -
  have "wal_path dir segment_size b \<noteq> []" by (simp add: wal_path_def)
  then show ?thesis by (simp add: segment_new_def base_lsn_of_wal_path [OF assms])
qed

lemma wal_rotate_Ok:
  assumes "wal_rotate next (w, fs) = (Ok u, w', fs')"
    and "wal_segment_max_size w dvd 2 ^ 32" "0 < wal_segment_max_size w" "next < 2 ^ 64"
  shows "w' = w\<lparr>wal_active := \<lparr>seg_path = wal_path (wal_dir w) (wal_segment_max_size w) next,
           seg_file_size = 0, seg_max_size = wal_segment_max_size w,
           seg_base_lsn = next - next mod wal_segment_max_size w\<rparr>\<rparr> \<and>
    fs_content fs' = (fs_content fs)(wal_path (wal_dir w) (wal_segment_max_size w) next \<mapsto> []) \<and>
    fs_dirs fs' = fs_dirs fs"
proof -
  have fn: "determine_segment_filename 0 next (wal_segment_max_size w) = (Ok (wal_name 0 (next div 2 ^ 32)
      (next mod 2 ^ 32 div wal_segment_max_size w) @ ''.wal'') :: (io_error, string) res)"
    using assms by (intro determine_segment_filename_eq) auto
  note sn = segment_new_wal_path [OF assms(2,3,4), of "wal_dir w", unfolded wal_path_def, simplified]
  show ?thesis
    using assms(1) unfolding wal_path_def
    by (auto simp: wal_rotate_def fn sn outcome Let_def on_fs_def split: prod.splits
        dest!: fs_create_Ok)
qed

section \<open>The shape of the log\<close>

text \<open>
  \<open>wal_closed crc cs es pre\<close>: the full segments \<open>cs\<close> hold the entries \<open>es\<close> and, when \<open>pre\<close>
  is not empty, end in the header \<open>pre\<close> of the next entry, whose rest opens the following
  segment.  A segment is closed with padding shorter than a header, or with the header of
  an entry that does not fit (and zeros behind it).
\<close>

inductive wal_closed :: "crc_fun \<Rightarrow> bytes list \<Rightarrow> wal_entry list \<Rightarrow> bytes \<Rightarrow> bool" for crc where
  closed_none: "wal_closed crc [] [] []"
| closed_pad: "wal_closed crc cs es pre \<Longrightarrow>
    pre @ c = concat (map (wal_frame crc) es') @ pad \<Longrightarrow> length pad < HEADER_SIZE \<Longrightarrow>
    (\<forall>e \<in> set es'. wal_entry_ok e) \<Longrightarrow> (pre = [] \<or> es' \<noteq> []) \<Longrightarrow>
    wal_closed crc (cs @ [c]) (es @ es') []"
| closed_split: "wal_closed crc cs es pre \<Longrightarrow>
    pre @ c = concat (map (wal_frame crc) es') @ rest \<Longrightarrow>
    take HEADER_SIZE rest = take HEADER_SIZE (wal_frame crc e) \<Longrightarrow> wal_entry_ok e \<Longrightarrow>
    HEADER_SIZE \<le> length rest \<Longrightarrow> length rest < length (wal_frame crc e) \<Longrightarrow>
    (\<forall>e \<in> set es'. wal_entry_ok e) \<Longrightarrow> (pre = [] \<or> es' \<noteq> []) \<Longrightarrow>
    wal_closed crc (cs @ [c]) (es @ es') (take HEADER_SIZE (wal_frame crc e))"

text \<open>The whole log: closed segments, then an active one that ends with a whole entry.\<close>

definition wal_layout :: "crc_fun \<Rightarrow> bytes list \<Rightarrow> bytes \<Rightarrow> wal_entry list \<Rightarrow> bool" where
  "wal_layout crc cs c es \<longleftrightarrow>
    (\<exists>es1 es2 pre. wal_closed crc cs es1 pre \<and> pre @ c = concat (map (wal_frame crc) es2) \<and>
       (\<forall>e \<in> set es2. wal_entry_ok e) \<and> (pre = [] \<or> es2 \<noteq> []) \<and> es = es1 @ es2)"

lemma wal_layout_empty: "wal_layout crc [] [] []"
  unfolding wal_layout_def using closed_none by fastforce

lemma wal_layoutE:
  assumes "wal_layout crc cs c es"
  obtains es1 es2 pre where "wal_closed crc cs es1 pre"
    "pre @ c = concat (map (wal_frame crc) es2)" "\<forall>e \<in> set es2. wal_entry_ok e"
    "pre = [] \<or> es2 \<noteq> []" "es = es1 @ es2"
  using assms unfolding wal_layout_def by blast

lemma wal_layoutI:
  assumes "wal_closed crc cs es1 pre" "pre @ c = concat (map (wal_frame crc) es2)"
    "\<forall>e \<in> set es2. wal_entry_ok e" "pre = [] \<or> es2 \<noteq> []" "es = es1 @ es2"
  shows "wal_layout crc cs c es"
  using assms unfolding wal_layout_def by blast

lemma wal_layout_append:
  assumes "wal_layout crc cs c es" "wal_entry_ok e"
  shows "wal_layout crc cs (c @ wal_frame crc e) (es @ [e])"
proof -
  obtain es1 es2 pre where l: "wal_closed crc cs es1 pre"
    "pre @ c = concat (map (wal_frame crc) es2)" "\<forall>e \<in> set es2. wal_entry_ok e"
    "pre = [] \<or> es2 \<noteq> []" "es = es1 @ es2"
    by (rule wal_layoutE [OF assms(1)])
  show ?thesis
  proof (rule wal_layoutI [OF l(1)])
    show "pre @ c @ wal_frame crc e = concat (map (wal_frame crc) (es2 @ [e]))"
      using append_extend [OF l(2)] by simp
  qed (use assms(2) l in auto)
qed

lemma wal_layout_split:
  assumes "wal_layout crc cs c es" "wal_entry_ok e" "HEADER_SIZE + n < length (wal_frame crc e)"
  shows "wal_layout crc (cs @ [c @ take HEADER_SIZE (wal_frame crc e) @ replicate n 0])
    (drop HEADER_SIZE (wal_frame crc e)) (es @ [e])"
proof -
  obtain es1 es2 pre where l: "wal_closed crc cs es1 pre"
    "pre @ c = concat (map (wal_frame crc) es2)" "\<forall>e \<in> set es2. wal_entry_ok e"
    "pre = [] \<or> es2 \<noteq> []" "es = es1 @ es2"
    by (rule wal_layoutE [OF assms(1)])
  let ?rest = "take HEADER_SIZE (wal_frame crc e) @ replicate n 0"
  have "wal_closed crc (cs @ [c @ ?rest]) (es1 @ es2) (take HEADER_SIZE (wal_frame crc e))"
  proof (rule closed_split [OF l(1)])
    show "pre @ c @ ?rest = concat (map (wal_frame crc) es2) @ ?rest"
      using l(2) by (rule append_extend)
  qed (use assms l in auto)
  then show ?thesis
    by (rule wal_layoutI [where ?es2.0 = "[e]"]) (use assms(2) l(5) in auto)
qed

lemma wal_layout_pad:
  assumes "wal_layout crc cs c es" "wal_entry_ok e" "n < HEADER_SIZE"
  shows "wal_layout crc (cs @ [c @ replicate n 0]) (wal_frame crc e) (es @ [e])"
proof -
  obtain es1 es2 pre where l: "wal_closed crc cs es1 pre"
    "pre @ c = concat (map (wal_frame crc) es2)" "\<forall>e \<in> set es2. wal_entry_ok e"
    "pre = [] \<or> es2 \<noteq> []" "es = es1 @ es2"
    by (rule wal_layoutE [OF assms(1)])
  have "wal_closed crc (cs @ [c @ replicate n 0]) (es1 @ es2) []"
  proof (rule closed_pad [OF l(1)])
    show "pre @ c @ replicate n 0 = concat (map (wal_frame crc) es2) @ replicate n 0"
      using l(2) by (rule append_extend)
  qed (use assms l in auto)
  then show ?thesis
    by (rule wal_layoutI [where ?es2.0 = "[e]"]) (use assms(2) l(5) in auto)
qed

section \<open>The invariant of the log\<close>

text \<open>
  \<open>bases\<close> are the base sequence numbers of the segments in the order of their creation;
  \<open>es\<close> are the entries appended so far.
\<close>

definition wal_lsn :: "wal \<Rightarrow> nat" where
  "wal_lsn w = seg_base_lsn (wal_active w) + seg_file_size (wal_active w)"

definition wal_static :: "wal \<Rightarrow> bool" where
  "wal_static w \<longleftrightarrow> 0 < wal_segment_max_size w \<and> wal_segment_max_size w < 2 ^ 32 \<and>
     wal_segment_max_size w dvd 2 ^ 32"

definition wal_active_at :: "nat \<Rightarrow> nat \<Rightarrow> wal \<Rightarrow> bool" where
  "wal_active_at b n w \<longleftrightarrow> wal_active w = \<lparr>seg_path = wal_path (wal_dir w) (wal_segment_max_size w) b,
     seg_file_size = n, seg_max_size = wal_segment_max_size w, seg_base_lsn = b\<rparr>"

lemma contents_other:
  assumes "wal_static w" "\<forall>x \<in> set (b # bs). x < 2 ^ 64 \<and> wal_segment_max_size w dvd x" "b \<notin> set bs"
    and "m' = m(wal_path (wal_dir w) (wal_segment_max_size w) b \<mapsto> c)"
  shows "map (\<lambda>x. m' (wal_path (wal_dir w) (wal_segment_max_size w) x)) bs =
    map (\<lambda>x. m (wal_path (wal_dir w) (wal_segment_max_size w) x)) bs"
proof (rule map_cong [OF refl])
  fix x assume x: "x \<in> set bs"
  then have "x \<noteq> b" using assms(3) by blast
  moreover have "x = b" if "wal_path (wal_dir w) (wal_segment_max_size w) x =
      wal_path (wal_dir w) (wal_segment_max_size w) b"
    using assms(1,2) x by (intro wal_path_inject [OF _ _ _ _ _ _ that]) (auto simp: wal_static_def)
  ultimately show "m' (wal_path (wal_dir w) (wal_segment_max_size w) x) =
      m (wal_path (wal_dir w) (wal_segment_max_size w) x)"
    unfolding assms(4) by auto
qed

text \<open>The three ways an append can go.\<close>

lemma on_active_Ok:
  "on_active m (w, fs) = (Ok u, w', fs') \<longleftrightarrow>
    (\<exists>seg'. m (wal_active w, fs) = (Ok u, seg', fs') \<and> w' = w\<lparr>wal_active := seg'\<rparr>)"
  by (auto simp: on_active_def split: prod.splits)

text \<open>The state with its contents spelt out, before anything is said about their layout.\<close>

definition wal_files :: "nat list \<Rightarrow> wal \<Rightarrow> file_system \<Rightarrow> bool" where
  "wal_files bases w fs \<longleftrightarrow> wal_dir w \<in> set (fs_dirs fs) \<and>
     (\<forall>p. butlast p = wal_dir w \<and> p \<noteq> [] \<and> fs_content fs p \<noteq> None \<longrightarrow>
        p \<in> wal_path (wal_dir w) (wal_segment_max_size w) ` set bases)"

definition wal_at :: "nat list \<Rightarrow> nat \<Rightarrow> bytes list \<Rightarrow> bytes \<Rightarrow> wal \<Rightarrow> file_system \<Rightarrow> bool" where
  "wal_at bs b cs c w fs \<longleftrightarrow>
     wal_static w \<and> sorted_wrt (<) (bs @ [b]) \<and>
     (\<forall>x \<in> set (bs @ [b]). x < 2 ^ 64 \<and> wal_segment_max_size w dvd x) \<and>
     wal_files (bs @ [b]) w fs \<and>
     map (\<lambda>x. fs_content fs (wal_path (wal_dir w) (wal_segment_max_size w) x)) bs = map Some cs \<and>
     (\<forall>y \<in> set cs. length y = wal_segment_max_size w) \<and>
     fs_content fs (wal_path (wal_dir w) (wal_segment_max_size w) b) = Some c \<and>
     wal_active_at b (length c) w \<and> length c \<le> wal_segment_max_size w"

definition wal_inv :: "crc_fun \<Rightarrow> nat list \<Rightarrow> wal_entry list \<Rightarrow> wal \<Rightarrow> file_system \<Rightarrow> bool" where
  "wal_inv crc bases es w fs \<longleftrightarrow>
    (\<exists>bs b cs c. bases = bs @ [b] \<and> wal_at bs b cs c w fs \<and> wal_layout crc cs c es \<and>
       (es = [] \<or> c \<noteq> []))"

lemma wal_invI:
  "wal_at bs b cs c w fs \<Longrightarrow> wal_layout crc cs c es \<Longrightarrow> c \<noteq> [] \<Longrightarrow> wal_inv crc (bs @ [b]) es w fs"
  unfolding wal_inv_def by blast

lemma wal_files_store:
  assumes "wal_files bases w fs"
    and "fs_content fs' = (fs_content fs)(wal_path (wal_dir w) (wal_segment_max_size w) b \<mapsto> c)"
    and "fs_dirs fs' = fs_dirs fs"
    and "wal_dir w' = wal_dir w" "wal_segment_max_size w' = wal_segment_max_size w"
    and "b \<in> set bases'" "set bases \<subseteq> set bases'"
  shows "wal_files bases' w' fs'"
proof -
  have "wal_path (wal_dir w) (wal_segment_max_size w) ` set bases \<subseteq>
      wal_path (wal_dir w) (wal_segment_max_size w) ` set bases'"
    using assms(7) by (rule image_mono)
  with assms(1-6) show ?thesis unfolding wal_files_def by (auto split: if_splits)
qed

lemma store_active:
  assumes at: "wal_at bs b cs c w fs"
    and fs': "fs_content fs' = (fs_content fs)(wal_path (wal_dir w) (wal_segment_max_size w) b \<mapsto> c')"
  shows "map (\<lambda>x. fs_content fs' (wal_path (wal_dir w) (wal_segment_max_size w) x)) bs = map Some cs"
proof -
  have "b \<notin> set bs" using at by (auto simp: wal_at_def sorted_wrt_append)
  then have eq: "map (\<lambda>x. fs_content fs' (wal_path (wal_dir w) (wal_segment_max_size w) x)) bs =
      map (\<lambda>x. fs_content fs (wal_path (wal_dir w) (wal_segment_max_size w) x)) bs"
    using at by (intro contents_other [OF _ _ _ fs']) (auto simp: wal_at_def)
  have "map (\<lambda>x. fs_content fs (wal_path (wal_dir w) (wal_segment_max_size w) x)) bs = map Some cs"
    using at by (simp add: wal_at_def)
  with eq show ?thesis by (rule trans)
qed

lemma append_at:
  assumes at: "wal_at bs b cs c w fs" and small: "length x < 2 ^ 32"
    and run: "on_active (seg_append x) (w, fs) = (Ok u, w', fs')"
  shows "wal_at bs b cs (c @ x) w' fs' \<and> wal_lsn w' = wal_lsn w + length x \<and>
    wal_segment_max_size w' = wal_segment_max_size w \<and> wal_dir w' = wal_dir w"
proof -
  obtain seg' where seg': "seg_append x (wal_active w, fs) = (Ok u, seg', fs')"
    and w': "w' = w\<lparr>wal_active := seg'\<rparr>"
    using run by (auto simp: on_active_Ok)
  from seg_append_Ok [OF seg' small] at
  have sz: "length c + length x \<le> wal_segment_max_size w"
    and w'': "w' = w\<lparr>wal_active := (wal_active w)\<lparr>seg_file_size := length c + length x\<rparr>\<rparr>"
    and fs': "fs_content fs' = (fs_content fs)
       (wal_path (wal_dir w) (wal_segment_max_size w) b \<mapsto> c @ x)"
    and dirs: "fs_dirs fs' = fs_dirs fs"
    by (auto simp: wal_at_def wal_active_at_def w')
  have "wal_files (bs @ [b]) w' fs'"
    using at by (intro wal_files_store [OF _ fs' dirs]) (auto simp: wal_at_def w'')
  then show ?thesis
    using at sz store_active [OF at fs']
    by (auto simp: wal_at_def w'' fs' wal_static_def wal_active_at_def wal_lsn_def)
qed

text \<open>
  The log between closing a segment and opening the next: everything is on disk, the
  layout of the closed segments is known.
\<close>

definition wal_full :: "nat list \<Rightarrow> bytes list \<Rightarrow> wal \<Rightarrow> file_system \<Rightarrow> bool" where
  "wal_full bases cs w fs \<longleftrightarrow> wal_static w \<and> bases \<noteq> [] \<and> sorted_wrt (<) bases \<and>
     (\<forall>x \<in> set bases. x < 2 ^ 64 \<and> wal_segment_max_size w dvd x) \<and>
     wal_files bases w fs \<and>
     map (\<lambda>x. fs_content fs (wal_path (wal_dir w) (wal_segment_max_size w) x)) bases = map Some cs \<and>
     (\<forall>y \<in> set cs. length y = wal_segment_max_size w)"

lemma next_base_ge:
  fixes size b nxt :: nat
  assumes "size dvd b" "b + size \<le> nxt"
  shows "b + size \<le> nxt - nxt mod size"
proof -
  have "b + size = (b + size) div size * size"
    using assms(1) by (metis dvd_add dvd_div_mult_self dvd_refl)
  also have "\<dots> \<le> nxt div size * size" using assms(2) by (intro mult_le_mono1 div_le_mono)
  also have "\<dots> = nxt - nxt mod size" by (simp add: minus_mod_eq_div_mult)
  finally show ?thesis .
qed

lemma rotate_append:
  assumes full: "wal_full bases cs w fs" and lay: "wal_layout crc cs x es"
    and nxt: "last bases + wal_segment_max_size w \<le> nxt" "nxt < 2 ^ 64" and small: "length x < 2 ^ 32" "x \<noteq> []"
    and run: "seq_act (wal_rotate nxt) (on_active (seg_append x)) (w, fs) = (Ok u, w', fs')"
  shows "wal_inv crc (bases @ [nxt - nxt mod wal_segment_max_size w]) es w' fs' \<and>
    wal_lsn w' = nxt - nxt mod wal_segment_max_size w + length x \<and>
    wal_segment_max_size w' = wal_segment_max_size w \<and> wal_dir w' = wal_dir w"
proof -
  let ?S = "wal_segment_max_size w"
  define nb where "nb = nxt - nxt mod ?S"
  have st: "wal_static w" and ne: "bases \<noteq> []" and so: "sorted_wrt (<) bases"
    and mul: "\<forall>y \<in> set bases. y < 2 ^ 64 \<and> ?S dvd y" and dir: "wal_files bases w fs"
    and lens: "\<forall>y \<in> set cs. length y = ?S"
    and cs: "map (\<lambda>y. fs_content fs (wal_path (wal_dir w) ?S y)) bases = map Some cs"
    using full by (auto simp: wal_full_def)
  have S: "?S dvd 2 ^ 32" "0 < ?S" "?S < 2 ^ 32" using st by (auto simp: wal_static_def)
  obtain v w1 fs1 where r1: "wal_rotate nxt (w, fs) = (Ok v, w1, fs1)"
    and r2: "on_active (seg_append x) (w1, fs1) = (Ok u, w', fs')"
    using run by (auto simp: outcome)
  have p: "wal_path (wal_dir w) ?S nxt = wal_path (wal_dir w) ?S nb"
    using wal_path_cong [OF S(2,1)] by (simp add: nb_def)
  have w1: "w1 = w\<lparr>wal_active := \<lparr>seg_path = wal_path (wal_dir w) ?S nb, seg_file_size = 0,
      seg_max_size = ?S, seg_base_lsn = nb\<rparr>\<rparr>"
    and fs1: "fs_content fs1 = (fs_content fs)(wal_path (wal_dir w) ?S nb \<mapsto> [])"
    and d1: "fs_dirs fs1 = fs_dirs fs"
    using wal_rotate_Ok [OF r1 S(1,2) nxt(2)] p by (auto simp: nb_def)
  obtain seg' where r3: "seg_append x (wal_active w1, fs1) = (Ok u, seg', fs')"
    and w'0: "w' = w1\<lparr>wal_active := seg'\<rparr>"
    using r2 by (auto simp: on_active_Ok)
  have sz: "length x \<le> ?S"
    and w': "w' = w\<lparr>wal_active := \<lparr>seg_path = wal_path (wal_dir w) ?S nb, seg_file_size = length x,
      seg_max_size = ?S, seg_base_lsn = nb\<rparr>\<rparr>"
    and fs': "fs_content fs' = (fs_content fs)(wal_path (wal_dir w) ?S nb \<mapsto> x)"
    and d': "fs_dirs fs' = fs_dirs fs"
    using seg_append_Ok [OF r3 small(1)] by (auto simp: w1 w'0 fs1 d1)
  have last_b: "?S dvd last bases" "last bases < 2 ^ 64" using mul ne by auto
  have gt: "last bases < nb"
    using next_base_ge [OF last_b(1) nxt(1)] S(2) by (simp add: nb_def)
  have all_lt: "\<forall>y \<in> set bases. y < nb"
  proof
    fix y assume "y \<in> set bases"
    moreover obtain zs where zs: "bases = zs @ [last bases]"
      using ne by (metis append_butlast_last_id)
    ultimately have "y = last bases \<or> y \<in> set zs" by (metis Un_iff empty_iff empty_set set_ConsD set_append)
    moreover have "y < last bases" if "y \<in> set zs"
      using so that by (subst (asm) zs) (simp add: sorted_wrt_append)
    ultimately show "y < nb" using gt by auto
  qed
  have nbS: "nb < 2 ^ 64" "?S dvd nb"
    using nxt(2) by (auto simp: nb_def less_imp_diff_less dvd_minus_mod)
  have "map (\<lambda>y. fs_content fs' (wal_path (wal_dir w) ?S y)) bases = map Some cs"
    unfolding cs [symmetric]
    by (rule contents_other [OF st _ _ fs']) (use mul nbS all_lt in auto)
  moreover have "sorted_wrt (<) (bases @ [nb])"
    using so all_lt by (simp add: sorted_wrt_append)
  moreover have "wal_files (bases @ [nb]) w' fs'"
    by (rule wal_files_store [OF dir fs' d']) (auto simp: w')
  ultimately have "wal_at bases nb cs x w' fs'"
    unfolding wal_at_def using st mul nbS lens sz
    by (auto simp: w' fs' wal_static_def wal_active_at_def)
  from wal_invI [OF this lay small(2)] have "wal_inv crc (bases @ [nb]) es w' fs'" .
  then show ?thesis by (simp add: nb_def wal_lsn_def w')
qed

lemma wal_append_ok_unfold:
  assumes ok: "wal_entry_ok e" and act: "wal_active_at b n w" and "n \<le> wal_segment_max_size w"
  shows "wal_append crc e (w, fs) =
    (let buf = wal_frame crc e; free = wal_segment_max_size w - n in
     if length buf \<le> free then on_active (seg_append buf) (w, fs)
     else if HEADER_SIZE \<le> free then
       seq_act (on_active (seg_append (take HEADER_SIZE buf)))
      (seq_act (on_active seg_pad)
      (bind_act (lift_res (add_chk 64 (we_seq e) (length buf))) (\<lambda>next.
       seq_act (wal_rotate next) (on_active (seg_append (drop HEADER_SIZE buf)))))) (w, fs)
     else
       seq_act (on_active seg_pad)
      (bind_act (lift_res (add_chk 64 (we_seq e) (length buf))) (\<lambda>next.
       seq_act (wal_rotate next) (on_active (seg_append buf)))) (w, fs))"
proof -
  have small: "length (wal_frame crc e) < 2 ^ 32"
    using ok by (simp add: wal_entry_ok_def length_wal_frame)
  have rem: "remaining_space (wal_active w) = Ok (wal_segment_max_size w - n)"
    using act assms(3) by (simp add: remaining_space_def sub_chk_def wal_active_at_def)
  show ?thesis
    using small ok by (simp add: wal_append_def rem Let_def)
qed

lemma pad_at:
  assumes at: "wal_at bs b cs c w fs" and run: "on_active seg_pad (w, fs) = (Ok u, w', fs')"
  shows "wal_full (bs @ [b]) (cs @ [c @ replicate (wal_segment_max_size w - length c) 0]) w' fs' \<and>
    wal_segment_max_size w' = wal_segment_max_size w \<and> wal_dir w' = wal_dir w"
proof -
  obtain seg' where seg': "seg_pad (wal_active w, fs) = (Ok u, seg', fs')"
    and w': "w' = w\<lparr>wal_active := seg'\<rparr>"
    using run by (auto simp: on_active_Ok)
  have fs': "fs_content fs' = (fs_content fs)(wal_path (wal_dir w) (wal_segment_max_size w) b
       \<mapsto> c @ replicate (wal_segment_max_size w - length c) 0)" and dirs: "fs_dirs fs' = fs_dirs fs"
    using seg_pad_Ok [OF seg'] at by (auto simp: wal_at_def wal_active_at_def wal_static_def)
  have "wal_files (bs @ [b]) w' fs'"
    using at by (intro wal_files_store [OF _ fs' dirs]) (auto simp: wal_at_def w')
  then show ?thesis
    using at store_active [OF at fs']
    by (auto simp: wal_at_def wal_full_def w' fs' wal_static_def)
qed

text \<open>
  Every successful append of the entry that carries the next sequence number extends the
  log by exactly that entry, and the sequence number grows.
\<close>

lemma wal_append_inv:
  assumes inv: "wal_inv crc bases es w fs" and ok: "wal_entry_ok e" and sq: "we_seq e = wal_lsn w"
    and run: "wal_append crc e (w, fs) = (Ok u, w', fs')"
  shows "\<exists>bases'. wal_inv crc (bases @ bases') (es @ [e]) w' fs' \<and> wal_lsn w < wal_lsn w' \<and>
    wal_segment_max_size w' = wal_segment_max_size w \<and> wal_dir w' = wal_dir w"
proof -
  let ?f = "wal_frame crc e" and ?S = "wal_segment_max_size w"
  obtain bs b cs c where bases: "bases = bs @ [b]"
    and at: "wal_at bs b cs c w fs" and lay: "wal_layout crc cs c es"
    using inv unfolding wal_inv_def by blast
  have act: "wal_active_at b (length c) w" and cS: "length c \<le> ?S"
    using at by (auto simp: wal_at_def)
  have lsn: "wal_lsn w = b + length c"
    using act by (simp add: wal_lsn_def wal_active_at_def)
  have small: "length ?f < 2 ^ 32"
    using ok by (simp add: wal_entry_ok_def length_wal_frame)
  have pos: "21 \<le> length ?f" by (rule length_wal_frame_ge)
  have dvdb: "?S dvd b" "0 < ?S" using at by (auto simp: wal_at_def wal_static_def)
  have grow: "wal_lsn w < nxt - nxt mod ?S + k" if "b + ?S \<le> nxt" "0 < k" for nxt k
    unfolding lsn
    using next_base_ge [OF dvdb(1) that(1)] that(2) cS mod_less_eq_dividend [of nxt ?S] by linarith
  note unf = wal_append_ok_unfold [OF ok act cS, of crc fs, unfolded Let_def]
  consider (here) "length ?f \<le> ?S - length c"
    | (split) "\<not> length ?f \<le> ?S - length c" "HEADER_SIZE \<le> ?S - length c"
    | (fresh) "\<not> length ?f \<le> ?S - length c" "\<not> HEADER_SIZE \<le> ?S - length c" by blast
  then show ?thesis
  proof cases
    case here
    then have "on_active (seg_append ?f) (w, fs) = (Ok u, w', fs')"
      using run by (simp add: unf)
    note st = append_at [OF at small this]
    have "c @ ?f \<noteq> []" using pos by auto
    from wal_invI [OF conjunct1 [OF st] wal_layout_append [OF lay ok] this] st pos
    show ?thesis by (intro exI [of _ "[]"]) (simp add: bases)
  next
    case split
    let ?hd = "take HEADER_SIZE ?f"
    have lhd: "length ?hd = HEADER_SIZE" using pos by (simp add: HEADER_SIZE_def)
    obtain u1 w1 fs1 u2 w2 fs2 where
      r1: "on_active (seg_append ?hd) (w, fs) = (Ok u1, w1, fs1)" and
      r2: "on_active seg_pad (w1, fs1) = (Ok u2, w2, fs2)" and
      n64: "we_seq e + length ?f < 2 ^ 64" and
      r3: "seq_act (wal_rotate (we_seq e + length ?f)) (on_active (seg_append (drop HEADER_SIZE ?f)))
             (w2, fs2) = (Ok u, w', fs')"
      using run by (auto simp: unf split outcome)
    have at1: "wal_at bs b cs (c @ ?hd) w1 fs1" "wal_segment_max_size w1 = ?S" "wal_dir w1 = wal_dir w"
      using append_at [OF at _ r1] small by auto
    define n where "n = ?S - (length c + HEADER_SIZE)"
    have full: "wal_full (bs @ [b]) (cs @ [c @ ?hd @ replicate n 0]) w2 fs2"
      and S2: "wal_segment_max_size w2 = ?S" "wal_dir w2 = wal_dir w"
      using pad_at [OF at1(1) r2] at1(2,3) lhd by (auto simp: n_def)
    have "HEADER_SIZE + n < length ?f" using split by (simp add: n_def)
    note lay' = wal_layout_split [OF lay ok this]
    have far: "b + ?S \<le> we_seq e + length ?f" using split by (simp add: sq lsn)
    have "wal_inv crc ((bs @ [b]) @ [we_seq e + length ?f - (we_seq e + length ?f) mod ?S]) (es @ [e]) w' fs'"
      "wal_lsn w < wal_lsn w'" "wal_segment_max_size w' = ?S" "wal_dir w' = wal_dir w"
      using rotate_append [OF full lay' _ n64 _ _ r3] far S2 small grow [OF far, of "length (drop HEADER_SIZE ?f)"] pos
      by (simp_all add: HEADER_SIZE_def)
    then show ?thesis by (auto simp: bases)
  next
    case fresh
    obtain u2 w2 fs2 where
      r2: "on_active seg_pad (w, fs) = (Ok u2, w2, fs2)" and
      n64: "we_seq e + length ?f < 2 ^ 64" and
      r3: "seq_act (wal_rotate (we_seq e + length ?f)) (on_active (seg_append ?f))
             (w2, fs2) = (Ok u, w', fs')"
      using run by (auto simp: unf fresh outcome)
    have full: "wal_full (bs @ [b]) (cs @ [c @ replicate (?S - length c) 0]) w2 fs2"
      and S2: "wal_segment_max_size w2 = ?S" "wal_dir w2 = wal_dir w"
      using pad_at [OF at r2] by auto
    have "?S - length c < HEADER_SIZE" using fresh by simp
    note lay' = wal_layout_pad [OF lay ok this]
    have far: "b + ?S \<le> we_seq e + length ?f" using fresh by (simp add: sq lsn)
    have fne: "0 < length ?f" using pos by linarith
    note grow [OF far this]
    then have "wal_inv crc ((bs @ [b]) @ [we_seq e + length ?f - (we_seq e + length ?f) mod ?S]) (es @ [e]) w' fs'"
      "wal_lsn w < wal_lsn w'" "wal_segment_max_size w' = ?S" "wal_dir w' = wal_dir w"
      using rotate_append [OF full lay' _ n64 small _ r3] far S2 fne by simp_all
    then show ?thesis by (auto simp: bases)
  qed
qed

lemma on_fs_Ok:
  "on_fs m (w, fs) = (Ok u, w', fs') \<longleftrightarrow> m fs = (Ok u, fs') \<and> w' = w"
  by (auto simp: on_fs_def split: prod.splits)

text \<open>What an append can hold.\<close>

lemma wal_append_Ok_fits:
  assumes at: "wal_at bs b cs c w fs" and ok: "wal_entry_ok e"
    and run: "wal_append crc e (w, fs) = (Ok u, w', fs')"
  shows "length (wal_frame crc e) \<le> wal_segment_max_size w + HEADER_SIZE"
proof -
  let ?f = "wal_frame crc e" and ?S = "wal_segment_max_size w"
  have act: "wal_active_at b (length c) w" and cS: "length c \<le> ?S"
    using at by (auto simp: wal_at_def)
  have small: "length ?f < 2 ^ 32" using ok by (simp add: wal_entry_ok_def length_wal_frame)
  have fresh: "length x \<le> ?S"
    if t: "seq_act (wal_rotate nxt) (on_active (seg_append x)) (w2, fs2) = (Ok u, w', fs')"
      "wal_segment_max_size w2 = ?S" "length x < 2 ^ 32" for nxt x w2 fs2
  proof -
    obtain v w3 fs3 where r: "wal_rotate nxt (w2, fs2) = (Ok v, w3, fs3)"
      and a: "on_active (seg_append x) (w3, fs3) = (Ok u, w', fs')"
      using t(1) by (auto simp: outcome)
    have "seg_max_size (wal_active w3) = ?S"
      using r t(2) by (auto simp: wal_rotate_def outcome on_fs_Ok Let_def segment_new_def
          bind_res_Ok_iff)
    then show ?thesis
      using a t(3) by (auto simp: on_active_Ok dest!: seg_append_Ok)
  qed
  note unf = wal_append_ok_unfold [OF ok act cS, of crc fs, unfolded Let_def]
  show ?thesis
  proof (cases "length ?f \<le> ?S")
    case False
    have big: "\<not> length ?f \<le> ?S - length c" using False by simp
    consider (split) "HEADER_SIZE \<le> ?S - length c" | (new) "\<not> HEADER_SIZE \<le> ?S - length c" by blast
    then show ?thesis
    proof cases
      case split
      obtain u1 w1 fs1 u2 w2 fs2 where
        r1: "on_active (seg_append (take HEADER_SIZE ?f)) (w, fs) = (Ok u1, w1, fs1)" and
        r2: "on_active seg_pad (w1, fs1) = (Ok u2, w2, fs2)" and
        r3: "seq_act (wal_rotate (we_seq e + length ?f)) (on_active (seg_append (drop HEADER_SIZE ?f)))
               (w2, fs2) = (Ok u, w', fs')"
        using run by (auto simp: unf big split outcome)
      have at1: "wal_at bs b cs (c @ take HEADER_SIZE ?f) w1 fs1" "wal_segment_max_size w1 = ?S"
        using append_at [OF at _ r1] small by auto
      have "wal_segment_max_size w2 = ?S" using pad_at [OF at1(1) r2] at1(2) by simp
      then have "length (drop HEADER_SIZE ?f) \<le> ?S"
        by (rule fresh [OF r3]) (use small in simp)
      then show ?thesis by (simp only: length_drop)
    next
      case new
      obtain u2 w2 fs2 where
        r2: "on_active seg_pad (w, fs) = (Ok u2, w2, fs2)" and
        r3: "seq_act (wal_rotate (we_seq e + length ?f)) (on_active (seg_append ?f))
               (w2, fs2) = (Ok u, w', fs')"
        using run by (auto simp: unf big new outcome)
      have "wal_segment_max_size w2 = ?S" using pad_at [OF at r2] by simp
      from fresh [OF r3 this small] show ?thesis by simp
    qed
  qed simp
qed

lemma wal_path_0: "wal_path dir sz 0 = dir @ [wal_name 0 0 0 @ ''.wal'']"
  by (simp add: wal_path_def)

lemma wal_create_new_inv:
  assumes run: "wal_create_new dir sz fs = (Ok w, fs')"
    and sz: "0 < sz" "sz < 2 ^ 32" "sz dvd 2 ^ 32"
    and empty: "\<forall>p. butlast p = dir \<and> p \<noteq> [] \<longrightarrow> fs_content fs p = None"
  shows "wal_inv crc [0] [] w fs' \<and> wal_dir w = dir \<and> wal_segment_max_size w = sz \<and> wal_lsn w = 0"
proof -
  have fn: "determine_segment_filename 0 0 sz = (Ok (wal_name 0 0 0 @ ''.wal'') :: (io_error, string) res)"
    using determine_segment_filename_eq [of 0 0 sz] sz(1) by simp
  have sn: "segment_new (dir @ [wal_name 0 0 0 @ ''.wal'']) 0 sz = (Ok \<lparr>seg_path = wal_path dir sz 0,
      seg_file_size = 0, seg_max_size = sz, seg_base_lsn = 0\<rparr> :: (io_error, wal_segment) res)"
    using segment_new_wal_path [OF sz(3,1), of 0 dir] by (simp add: wal_path_0)
  have w: "w = \<lparr>wal_active = \<lparr>seg_path = wal_path dir sz 0, seg_file_size = 0,
      seg_max_size = sz, seg_base_lsn = 0\<rparr>, wal_segment_max_size = sz, wal_dir = dir\<rparr>"
    and c: "fs_content fs' = (fs_content fs)(wal_path dir sz 0 \<mapsto> [])"
    and d: "dir \<in> set (fs_dirs fs')"
    using run by (auto simp: wal_create_new_def fn sn outcome wal_path_0 dest!: fs_create_Ok)
  have "wal_at [] 0 [] [] w fs'"
    using sz empty d
    by (auto simp: wal_at_def wal_static_def wal_files_def wal_active_at_def w c split: if_splits)
  moreover have "wal_layout crc [] [] []" by (rule wal_layout_empty)
  ultimately have "wal_inv crc [0] [] w fs'"
    unfolding wal_inv_def by (intro exI [of _ "[]"]) auto
  then show ?thesis by (simp add: w wal_lsn_def)
qed

section \<open>Properties of the file system that the log keeps\<close>

definition wal_keeps ::
    "(file_system \<Rightarrow> bool) \<Rightarrow> (path \<Rightarrow> bool) \<Rightarrow> path \<Rightarrow> wal \<times> file_system \<Rightarrow> bool" where
  "wal_keeps J wr dir = (\<lambda>(w, fs). J fs \<and> wal_dir w = dir \<and> wr (seg_path (wal_active w)))"

context fs_invariant
begin

lemma seg_append_keeps:
  "keeps (\<lambda>(seg, fs). I fs \<and> writable (seg_path seg)) (seg_append buf)"
proof -
  have "I fs'" if "I fs" "writable p" "fs_append p b fs = (r, fs')" for p b fs r fs'
    using keepsD [OF fs_append_keeps] that by blast
  then show ?thesis
    unfolding keeps_def seg_append_def by (auto simp: Let_def split: res.split prod.split)
qed

lemma seg_pad_keeps: "keeps (\<lambda>(seg, fs). I fs \<and> writable (seg_path seg)) seg_pad"
  using seg_append_keeps unfolding keeps_def seg_pad_def by (auto split: res.split)

lemma on_active_keeps:
  assumes "keeps (\<lambda>(seg, fs). I fs \<and> writable (seg_path seg)) m"
  shows "keeps (wal_keeps I writable dir) (on_active m)"
  unfolding keeps_def
proof (intro allI impI)
  fix s assume "wal_keeps I writable dir s"
  moreover obtain w fs where s: "s = (w, fs)" by (cases s)
  moreover obtain r seg' fs' where m: "m (wal_active w, fs) = (r, seg', fs')"
    by (cases "m (wal_active w, fs)") auto
  ultimately show "wal_keeps I writable dir (snd (on_active m s))"
    using keepsD [OF assms _ m] by (simp add: wal_keeps_def on_active_def)
qed

lemma wal_rotate_keeps:
  assumes "\<forall>n. writable (dir @ [n])"
  shows "keeps (wal_keeps I writable dir) (wal_rotate nxt)"
proof -
  have create: "I fs'" if "I fs" "fs_create (dir @ [n]) fs = (r, fs')" for n fs r fs'
    using keepsD [OF fs_create_keeps] that assms by blast
  show ?thesis
    unfolding keeps_def wal_rotate_def wal_keeps_def
    using assms
    by (auto simp: bind_act_def on_fs_def segment_new_def bind_res_Ok_iff Let_def
        split: prod.split res.split dest: create)
qed

lemma wal_append_keeps:
  assumes "\<forall>n. writable (dir @ [n])"
  shows "keeps (wal_keeps I writable dir) (wal_append crc e)"
proof -
  note k = on_active_keeps [OF seg_append_keeps] on_active_keeps [OF seg_pad_keeps]
    wal_rotate_keeps [OF assms]
  have step: "wal_keeps I writable dir (snd (m (w, fs)))"
    if "keeps (wal_keeps I writable dir) m" "wal_keeps I writable dir (w, fs)"
    for m :: "unit wal_act" and w fs
    using that by (simp add: keeps_def)
  show ?thesis
    unfolding keeps_def
  proof (intro allI impI)
    fix s assume s: "wal_keeps I writable dir s"
    obtain w fs where wfs: "s = (w, fs)" by (cases s)
    show "wal_keeps I writable dir (snd (wal_append crc e s))"
      unfolding wfs wal_append_def prod.case
      by (rule step [OF _ s [unfolded wfs]], unfold Let_def)
        (intro keeps_bind keeps_lift_res, auto intro!: keeps_bind k)
  qed
qed

end

end
