(* ===== verification/Mem_Table.thy ===== *)
theory Mem_Table
  imports Write_Ahead_Log Sst_Entry
begin

text \<open>
  The memtable (\<open>src/storage_engine/memtable.rs\<close>): the table, the write worker that logs
  and applies each write and flushes a full table, and recovery from the log segments.  The
  table is shared by reference counting and guarded by a lock in the source; here it is a
  field of the worker, and a step of the worker is atomic, as the lock makes it.
\<close>

type_synonym mem_map = "(rstring \<times> mem_value) list"

section \<open>The write worker\<close>

datatype write_job = JobDelete rstring | JobPut rstring rstring | JobShutdown

record write_worker =
  ww_table :: mem_map
  ww_wal :: wal
  ww_current_size :: nat
  ww_max_size :: nat

type_synonym 'a worker_act = "(write_worker \<times> file_system, io_error, 'a) act"

definition on_wal :: "'a wal_act \<Rightarrow> 'a worker_act" where
  "on_wal m = (\<lambda>(ww, fs). case m (ww_wal ww, fs) of
     (r, w', fs') \<Rightarrow> (r, ww\<lparr>ww_wal := w'\<rparr>, fs'))"

text \<open>The insertion that ends \<open>put\<close> and \<open>delete\<close>: the old value is the result.\<close>

definition worker_insert :: "rstring \<Rightarrow> mem_value \<Rightarrow> mem_value option worker_act" where
  "worker_insert key mvalue = (\<lambda>(ww, fs).
     (Ok (map_of (ww_table ww) key),
      ww\<lparr>ww_table := AList.update key mvalue (ww_table ww),
         ww_current_size := ww_current_size ww + sst_len (sst_from key mvalue)\<rparr>, fs))"

definition worker_put :: "crc_fun \<Rightarrow> rstring \<Rightarrow> rstring \<Rightarrow> mem_value option worker_act" where
  "worker_put crc key v = (\<lambda>(ww, fs).
    bind_act (lift_res (wal_next_sequence_number (ww_wal ww))) (\<lambda>sequence_number.
    let entry = \<lparr>we_op = OpPut, we_key = key, we_value = Some v, we_seq = sequence_number\<rparr> in
    seq_act (on_wal (wal_append crc entry))
    (worker_insert key \<lparr>mv_value = Some v, mv_seq = sequence_number\<rparr>)) (ww, fs))"

definition worker_delete :: "crc_fun \<Rightarrow> rstring \<Rightarrow> mem_value option worker_act" where
  "worker_delete crc key = (\<lambda>(ww, fs).
    bind_act (lift_res (wal_next_sequence_number (ww_wal ww))) (\<lambda>sequence_number.
    let entry = \<lparr>we_op = OpDelete, we_key = key, we_value = None, we_seq = sequence_number\<rparr> in
    seq_act (on_wal (wal_append crc entry))
    (worker_insert key \<lparr>mv_value = None, mv_seq = sequence_number\<rparr>)) (ww, fs))"

text \<open>
  One turn of \<open>WriteWorker::run\<close>: a full table is flushed before the job.  The flusher is
  the trait object the worker was given; \<open>'f\<close> is the state it works on.  A failed flush is
  the \<open>todo!()\<close> of the source.  The flag tells whether the loop goes on.
\<close>

type_synonym 'f flusher = "mem_map \<Rightarrow> ('f \<times> file_system, io_error, unit) act"

definition run_flush ::
    "'f flusher \<Rightarrow> ('f \<times> write_worker \<times> file_system, io_error, unit) act" where
  "run_flush flush = (\<lambda>(f, ww, fs).
     if ww_max_size ww \<le> ww_current_size ww then
       (case flush (ww_table ww) (f, fs) of
          (Ok _, f', fs') \<Rightarrow> (Ok (), f', ww\<lparr>ww_current_size := 0, ww_table := []\<rparr>, fs')
        | (_, f', fs') \<Rightarrow> (Panic, f', ww, fs'))
     else (Ok (), f, ww, fs))"

definition run_job ::
    "crc_fun \<Rightarrow> write_job \<Rightarrow> ((io_error, mem_value option) res option \<times> bool) worker_act" where
  "run_job crc job = (\<lambda>(ww, fs).
     case job of
       JobDelete key \<Rightarrow>
         (case worker_delete crc key (ww, fs) of
            (Panic, s) \<Rightarrow> (Panic, s) | (r, s) \<Rightarrow> (Ok (Some r, True), s))
     | JobPut key v \<Rightarrow>
         (case worker_put crc key v (ww, fs) of
            (Panic, s) \<Rightarrow> (Panic, s) | (r, s) \<Rightarrow> (Ok (Some r, True), s))
     | JobShutdown \<Rightarrow> (Ok (None, False), ww, fs))"

definition run_step ::
    "crc_fun \<Rightarrow> 'f flusher \<Rightarrow> write_job \<Rightarrow>
     ('f \<times> write_worker \<times> file_system, io_error,
      (io_error, mem_value option) res option \<times> bool) act" where
  "run_step crc flush job =
    seq_act (run_flush flush)
    (\<lambda>(f, ww, fs). case run_job crc job (ww, fs) of (r, ww', fs') \<Rightarrow> (r, f, ww', fs'))"

text \<open>\<open>run\<close> over the jobs that arrive, and the flush of what is left when it ends.\<close>

fun run_loop ::
    "crc_fun \<Rightarrow> 'f flusher \<Rightarrow> write_job list \<Rightarrow>
     ('f \<times> write_worker \<times> file_system, io_error, (io_error, mem_value option) res list) act" where
  "run_loop crc flush [] = ret []"
| "run_loop crc flush (job # jobs) =
    bind_act (run_step crc flush job) (\<lambda>(reply, continue).
    if continue
    then bind_act (run_loop crc flush jobs)
           (\<lambda>replies. ret (case reply of None \<Rightarrow> replies | Some r \<Rightarrow> r # replies))
    else ret [])"

definition run_final ::
    "'f flusher \<Rightarrow> ('f \<times> write_worker \<times> file_system, io_error, unit) act" where
  "run_final flush = (\<lambda>(f, ww, fs).
     if ww_table ww \<noteq> [] then
       (case flush (ww_table ww) (f, fs) of
          (Panic, f', fs') \<Rightarrow> (Panic, f', ww, fs')
        | (_, f', fs') \<Rightarrow> (Ok (), f', ww, fs'))
     else (Ok (), f, ww, fs))"

definition worker_run ::
    "crc_fun \<Rightarrow> 'f flusher \<Rightarrow> write_job list \<Rightarrow>
     ('f \<times> write_worker \<times> file_system, io_error, (io_error, mem_value option) res list) act" where
  "worker_run crc flush jobs =
    bind_act (run_loop crc flush jobs) (\<lambda>replies. seq_act (run_final flush) (ret replies))"

section \<open>Reading\<close>

definition memtable_get :: "mem_map \<Rightarrow> rstring \<Rightarrow> mem_value option" where
  "memtable_get table key = map_of table key"

section \<open>Recovery\<close>

record recover_state =
  rc_size :: nat
  rc_table :: mem_map
  rc_offset :: nat
  rc_partial :: "partial_entry option"

type_synonym recover_error = "nat \<times> recovery_error"

text \<open>Applying the entries of a segment to the table, in order.\<close>

definition recover_entry :: "wal_entry \<Rightarrow> nat \<times> mem_map \<Rightarrow> nat \<times> mem_map" where
  "recover_entry entry = (\<lambda>(curr_size, table).
     let v = \<lparr>mv_value = we_value entry, mv_seq = we_seq entry\<rparr> in
     (curr_size + sst_len (sst_from (we_key entry) v), AList.update (we_key entry) v table))"

definition recover_entries :: "wal_entry list \<Rightarrow> nat \<times> mem_map \<Rightarrow> nat \<times> mem_map" where
  "recover_entries es st = fold recover_entry es st"

definition recover_segment ::
    "crc_fun \<Rightarrow> wal_segment \<Rightarrow> (recover_state \<times> file_system, recover_error, unit) act" where
  "recover_segment crc segment = (\<lambda>(rc, fs).
    case rc_partial rc of
      None \<Rightarrow>
        (case read_parse_validate_from_offset crc segment (rc_offset rc) fs of ((entries, r), fs') \<Rightarrow>
          (case recover_entries entries (rc_size rc, rc_table rc) of (size', table') \<Rightarrow>
            (let rc' = rc\<lparr>rc_size := size', rc_table := table', rc_offset := 0\<rparr> in
             case r of
               Ok opt \<Rightarrow> (Ok (), rc'\<lparr>rc_partial := opt\<rparr>, fs')
             | Err e \<Rightarrow> (Err (size', e), rc', fs')
             | Panic \<Rightarrow> (Panic, rc, fs'))))
    | Some part_entry \<Rightarrow>
        (case read_parse_validate_from_partial_record crc segment (pe_bytes part_entry) fs of
          ((entries, r), fs') \<Rightarrow>
          (case recover_entries entries (rc_size rc, rc_table rc) of (size', table') \<Rightarrow>
            (let rc' = rc\<lparr>rc_size := size', rc_table := table'\<rparr> in
             case r of
               Ok opt \<Rightarrow> (Ok (), rc'\<lparr>rc_partial := opt\<rparr>, fs')
             | Err e \<Rightarrow>
                 (if entries = []
                  then (Err (size', Corrupted (pe_path part_entry) (pe_offset part_entry)), rc', fs')
                  else (Err (size', e), rc', fs'))
             | Panic \<Rightarrow> (Panic, rc, fs')))))"

fun recover_loop ::
    "crc_fun \<Rightarrow> wal_segment list \<Rightarrow> (recover_state \<times> file_system, recover_error, unit) act" where
  "recover_loop crc [] = ret ()"
| "recover_loop crc (seg # segs) = seq_act (recover_segment crc seg) (recover_loop crc segs)"

definition recover_end :: "(recover_state \<times> file_system, recover_error, nat) act" where
  "recover_end = (\<lambda>(rc, fs).
    case rc_partial rc of
      Some entry \<Rightarrow> (Err (rc_size rc, Corrupted (pe_path entry) (pe_offset entry)), rc, fs)
    | None \<Rightarrow> (Ok (rc_size rc), rc, fs))"

definition recover ::
    "crc_fun \<Rightarrow> wal_segment list \<Rightarrow> nat \<Rightarrow> mem_map \<Rightarrow> file_system \<Rightarrow>
     (recover_error, nat) res \<times> mem_map \<times> file_system" where
  "recover crc segments starting_offset table fs =
    (case seq_act (recover_loop crc segments) recover_end
        (\<lparr>rc_size = 0, rc_table = table, rc_offset = starting_offset, rc_partial = None\<rparr>, fs) of
       (r, rc, fs') \<Rightarrow> (r, rc_table rc, fs'))"

section \<open>Starting up\<close>

fun list_filter :: "(path \<times> nat) list \<Rightarrow> nat \<Rightarrow> (io_error, path list) res" where
  "list_filter [] sequence_number = Ok []"
| "list_filter ((p, len) # ds) sequence_number =
    bind_res (final_entry_after (last p) len sequence_number) (\<lambda>keep.
    bind_res (list_filter ds sequence_number) (\<lambda>ps. Ok (if keep then p # ps else ps)))"

definition list_segment_files :: "path \<Rightarrow> nat \<Rightarrow> path list fs_act" where
  "list_segment_files dir sequence_number =
    bind_act (fs_read_dir dir) (\<lambda>ds.
    bind_act (lift_res (list_filter ds sequence_number)) (\<lambda>ps. ret (sort ps)))"

text \<open>Opening one segment file: its size is checked and the handle is put at its end.\<close>

definition open_segment :: "nat \<Rightarrow> path \<Rightarrow> wal_segment fs_act" where
  "open_segment segment_size fp =
    bind_act (fs_read fp) (\<lambda>content.
    let file_size = length content in
    if segment_size < file_size then raise FileTooLarge
    else lift_res (segment_from fp (file_size mod 2 ^ 32) segment_size))"

fun open_segments :: "nat \<Rightarrow> path list \<Rightarrow> wal_segment list fs_act" where
  "open_segments segment_size [] = ret []"
| "open_segments segment_size (fp # fps) =
    bind_act (open_segment segment_size fp) (\<lambda>seg.
    bind_act (open_segments segment_size fps) (\<lambda>segs. ret (seg # segs)))"

definition find_and_open_segments :: "path \<Rightarrow> nat \<Rightarrow> nat \<Rightarrow> wal_segment list fs_act" where
  "find_and_open_segments dir segment_size sequence_number =
    bind_act (list_segment_files dir sequence_number) (open_segments segment_size)"

definition open_last_segment :: "path \<Rightarrow> nat \<Rightarrow> wal_segment fs_act" where
  "open_last_segment dir segment_size =
    bind_act (list_segment_files dir 0) (\<lambda>ps.
    if ps = [] then raise NotFound else open_segment segment_size (last ps))"

definition truncate_and_open_segment_file :: "path \<Rightarrow> nat \<Rightarrow> nat \<Rightarrow> wal_segment fs_act" where
  "truncate_and_open_segment_file segment_fp offset segment_size =
    bind_act (list_segment_files (butlast segment_fp) 0) (\<lambda>ps.
    case filter (\<lambda>p. segment_fp \<le> p) (sort ps) of
      [] \<Rightarrow> raise NotFound
    | fp # _ \<Rightarrow>
        seq_act (fs_set_len fp offset)
        (lift_res (segment_from fp (offset mod 2 ^ 32) segment_size)))"

fun remove_files :: "path list \<Rightarrow> unit fs_act" where
  "remove_files [] = ret ()"
| "remove_files (p # ps) = seq_act (fs_remove p) (remove_files ps)"

definition worker_from :: "mem_map \<Rightarrow> wal \<Rightarrow> nat \<Rightarrow> nat \<Rightarrow> write_worker" where
  "worker_from table w curr_size max_size =
    \<lparr>ww_table = table, ww_wal = w, ww_current_size = curr_size, ww_max_size = max_size\<rparr>"

definition memtable_start ::
    "crc_fun \<Rightarrow> path \<Rightarrow> nat \<Rightarrow> nat \<Rightarrow> nat \<Rightarrow> write_worker fs_act" where
  "memtable_start crc wal_dr segment_size sequence_number max_size =
    seq_act (fs_create_dir_all wal_dr)
    (bind_act (find_and_open_segments wal_dr segment_size sequence_number) (\<lambda>segments.
     if segments \<noteq> [] then
       bind_act (lift_res (if segment_size = 0 then Panic else Ok (sequence_number mod segment_size)))
         (\<lambda>offset fs.
         case recover crc segments offset [] fs of
           (Ok curr_size, table, fs') \<Rightarrow>
             bind_act (open_last_segment wal_dr segment_size) (\<lambda>segment.
             ret (worker_from table (wal_from_segment wal_dr segment segment_size) curr_size max_size)) fs'
         | (Err (curr_size, Corrupted fp off), table, fs') \<Rightarrow>
             bind_act (truncate_and_open_segment_file fp off segment_size) (\<lambda>segment.
             bind_act (lift_res (next_lsn segment)) (\<lambda>lsn.
             bind_act (list_segment_files wal_dr lsn) (\<lambda>fps.
             seq_act (remove_files fps)
             (ret (worker_from table (wal_from_segment wal_dr segment segment_size) curr_size max_size))))) fs'
         | (Err (_, RecIo e), table, fs') \<Rightarrow> (Err e, fs')
         | (Panic, table, fs') \<Rightarrow> (Panic, fs'))
     else
       bind_act (wal_create_new wal_dr segment_size) (\<lambda>w.
       ret (worker_from [] w 0 max_size))))"

end
