(* ===== verification/Mem_Worker.thy ===== *)
theory Mem_Worker
  imports Mem_Recovery
begin

text \<open>
  What the write worker guarantees: after every successful write its table is the replay of
  the entries it has logged, a failed write changes neither the table nor a file outside the
  log directory, and a run of jobs behaves as the same jobs on an abstract map.
\<close>

section \<open>One write\<close>

text \<open>\<open>put\<close> and \<open>delete\<close> differ in the entry they log.\<close>

definition worker_log :: "crc_fun \<Rightarrow> wal_entry \<Rightarrow> mem_value option worker_act" where
  "worker_log crc e = seq_act (on_wal (wal_append crc e))
     (worker_insert (we_key e) \<lparr>mv_value = we_value e, mv_seq = we_seq e\<rparr>)"

lemma worker_put_log:
  "worker_put crc key v (ww, fs) =
    bind_act (lift_res (wal_next_sequence_number (ww_wal ww))) (\<lambda>n.
      worker_log crc \<lparr>we_op = OpPut, we_key = key, we_value = Some v, we_seq = n\<rparr>) (ww, fs)"
  by (simp add: worker_put_def worker_log_def)

lemma worker_delete_log:
  "worker_delete crc key (ww, fs) =
    bind_act (lift_res (wal_next_sequence_number (ww_wal ww))) (\<lambda>n.
      worker_log crc \<lparr>we_op = OpDelete, we_key = key, we_value = None, we_seq = n\<rparr>) (ww, fs)"
  by (simp add: worker_delete_def worker_log_def)

lemma on_wal_Ok:
  "on_wal m (ww, fs) = (Ok u, ww', fs') \<longleftrightarrow>
    (\<exists>w'. m (ww_wal ww, fs) = (Ok u, w', fs') \<and> ww' = ww\<lparr>ww_wal := w'\<rparr>)"
  by (auto simp: on_wal_def split: prod.splits)

lemma wal_append_Ok_valid:
  "wal_append crc e (w, fs) = (Ok u, s) \<Longrightarrow>
    as_bytes (we_key e) \<noteq> [] \<and> (we_op e = OpPut \<longleftrightarrow> we_value e \<noteq> None)"
  by (auto simp: wal_append_def outcome wal_to_bytes_eq split: if_splits)

text \<open>The size that the 32-bit length fields of an entry can express.\<close>

definition entry_small :: "wal_entry \<Rightarrow> bool" where
  "entry_small e \<longleftrightarrow> length (wal_body e) + 8 < 2 ^ 32"

lemma recover_entries_snoc:
  "recover_entries (es @ [e]) st = recover_entry e (recover_entries es st)"
  by (simp add: recover_entries_def)

lemma recover_entries_map:
  "map_of (snd (recover_entries (es @ [e]) st)) =
    (map_of (snd (recover_entries es st)))(we_key e \<mapsto> \<lparr>mv_value = we_value e, mv_seq = we_seq e\<rparr>)"
  by (auto simp: recover_entries_snoc recover_entry_def Let_def split: prod.split)

lemma worker_log_inv:
  assumes inv: "worker_inv crc bases es0 es ww fs" and small: "entry_small e"
    and sq: "we_seq e = wal_lsn (ww_wal ww)" "we_seq e < 2 ^ 64"
    and run: "worker_log crc e (ww, fs) = (Ok old, ww', fs')"
  shows "\<exists>bases'. worker_inv crc (bases @ bases') es0 (es @ [e]) ww' fs' \<and>
    old = map_of (ww_table ww) (we_key e) \<and> wal_lsn (ww_wal ww) < wal_lsn (ww_wal ww') \<and>
    ww_max_size ww' = ww_max_size ww \<and> wal_dir (ww_wal ww') = wal_dir (ww_wal ww) \<and>
    wal_segment_max_size (ww_wal ww') = wal_segment_max_size (ww_wal ww)"
proof -
  let ?v = "\<lparr>mv_value = we_value e, mv_seq = we_seq e\<rparr>"
  obtain u w' where ap: "wal_append crc e (ww_wal ww, fs) = (Ok u, w', fs')"
    and old: "old = map_of (ww_table ww) (we_key e)"
    and ww': "ww' = ww\<lparr>ww_wal := w', ww_table := AList.update (we_key e) ?v (ww_table ww),
      ww_current_size := ww_current_size ww + sst_len (sst_from (we_key e) ?v)\<rparr>"
    using run by (auto simp: worker_log_def outcome on_wal_Ok worker_insert_def)
  have ok: "wal_entry_ok e"
    using wal_append_Ok_valid [OF ap] small sq(2) by (simp add: wal_entry_ok_def entry_small_def)
  have wi: "wal_inv crc bases (es0 @ es) (ww_wal ww) fs" and wf: "fs_wf fs"
    and tab: "recover_entries es (0, []) = (ww_current_size ww, ww_table ww)"
    using inv by (auto simp: worker_inv_def)
  obtain bases' where b: "wal_inv crc (bases @ bases') ((es0 @ es) @ [e]) w' fs'"
    "wal_lsn (ww_wal ww) < wal_lsn w'" "wal_segment_max_size w' = wal_segment_max_size (ww_wal ww)"
    "wal_dir w' = wal_dir (ww_wal ww)"
    using wal_append_inv [OF wi ok sq(1) ap] by blast
  have "wal_keeps fs_wf (\<lambda>_. True) (wal_dir (ww_wal ww)) (w', fs')"
    by (rule keepsD [OF wf_fs.wal_append_keeps _ ap]) (simp_all add: wal_keeps_def wf)
  then have "fs_wf fs'" by (simp add: wal_keeps_def)
  moreover have "(ww_current_size ww', ww_table ww') = recover_entries (es @ [e]) (0, [])"
    by (simp add: recover_entries_snoc tab recover_entry_def Let_def ww')
  ultimately show ?thesis
    using b old by (intro exI [of _ bases']) (simp add: worker_inv_def ww')
qed

text \<open>A failed write.\<close>

lemma worker_log_fails:
  assumes "worker_log crc e (ww, fs) = (r, ww', fs')" and "\<forall>x. r \<noteq> Ok x"
  shows "ww_table ww' = ww_table ww \<and> ww_current_size ww' = ww_current_size ww \<and>
    ww_max_size ww' = ww_max_size ww"
  using assms
  by (auto simp: worker_log_def bind_act_def on_wal_def worker_insert_def
      split: prod.splits res.splits)

lemma worker_log_frame:
  assumes J: "fs_invariant J wr" and wr: "\<forall>n. wr (wal_dir (ww_wal ww) @ [n])"
    and act: "wal_keeps J wr (wal_dir (ww_wal ww)) (ww_wal ww, fs)"
    and run: "worker_log crc e (ww, fs) = (r, ww', fs')"
  shows "wal_keeps J wr (wal_dir (ww_wal ww)) (ww_wal ww', fs')"
proof -
  obtain r1 w1 fs1 where ap: "wal_append crc e (ww_wal ww, fs) = (r1, w1, fs1)"
    by (cases "wal_append crc e (ww_wal ww, fs)") auto
  have "wal_keeps J wr (wal_dir (ww_wal ww)) (w1, fs1)"
    by (rule keepsD [OF fs_invariant.wal_append_keeps [OF J wr] act ap])
  moreover have "ww_wal ww' = w1 \<and> fs' = fs1"
    using run ap
    by (auto simp: worker_log_def bind_act_def on_wal_def worker_insert_def split: res.splits)
  ultimately show ?thesis by simp
qed

section \<open>A run of jobs against an abstract map\<close>

type_synonym kv_map = "rstring \<Rightarrow> mem_value option"

text \<open>The entry a job logs at a given sequence number.\<close>

fun job_entry :: "nat \<Rightarrow> write_job \<Rightarrow> wal_entry option" where
  "job_entry n (JobPut k v) = Some \<lparr>we_op = OpPut, we_key = k, we_value = Some v, we_seq = n\<rparr>"
| "job_entry n (JobDelete k) = Some \<lparr>we_op = OpDelete, we_key = k, we_value = None, we_seq = n\<rparr>"
| "job_entry n JobShutdown = None"

definition job_small :: "write_job \<Rightarrow> bool" where
  "job_small job \<longleftrightarrow> (case job_entry 0 job of None \<Rightarrow> True | Some e \<Rightarrow> entry_small e)"

lemma job_small_entry: "job_small job \<Longrightarrow> job_entry n job = Some e \<Longrightarrow> entry_small e"
  by (cases job) (auto simp: job_small_def entry_small_def length_wal_body)

lemma job_entry_seq: "job_entry n job = Some e \<Longrightarrow> we_seq e = n"
  by (cases job) auto

lemma run_job_log:
  assumes "job_entry n job = Some e" and "wal_next_sequence_number (ww_wal ww) = (Ok n :: (io_error, nat) res)"
  shows "run_job crc job (ww, fs) = (case worker_log crc e (ww, fs) of
    (Panic, s) \<Rightarrow> (Panic, s) | (r, s) \<Rightarrow> (Ok (Some r, True), s))"
  using assms by (cases job) (auto simp: run_job_def worker_put_log worker_delete_log)

lemma run_job_no_lsn:
  assumes "job \<noteq> JobShutdown" and "wal_next_sequence_number (ww_wal ww) = (Panic :: (io_error, nat) res)"
  shows "run_job crc job (ww, fs) = (Panic, ww, fs)"
  using assms by (cases job) (auto simp: run_job_def worker_put_log worker_delete_log)

lemma next_sequence_number_cases:
  obtains "wal_next_sequence_number w = (Ok (wal_lsn w) :: (io_error, nat) res)" "wal_lsn w < 2 ^ 64"
  | "wal_next_sequence_number w = (Panic :: (io_error, nat) res)"
  by (cases "wal_lsn w < 2 ^ 64")
    (auto simp: wal_next_sequence_number_def next_lsn_def add_chk_def wal_lsn_def)

section \<open>Runs without a flush\<close>

text \<open>With no faults scheduled, no operation of the log reports an I/O error.\<close>

definition no_faults :: "file_system \<Rightarrow> bool" where
  "no_faults fs \<longleftrightarrow> fs_faults fs = []"

interpretation no_faults_fs: fs_invariant no_faults "\<lambda>_. True"
  by unfold_locales (auto simp: no_faults_def)

definition job_size :: "write_job \<Rightarrow> nat" where
  "job_size job = (case job_entry 0 job of None \<Rightarrow> 0
     | Some e \<Rightarrow> sst_len (sst_from (we_key e) \<lparr>mv_value = we_value e, mv_seq = 0\<rparr>))"

lemma sst_len_seq: "sst_len (sst_from k \<lparr>mv_value = v, mv_seq = m\<rparr>) = sst_len (sst_from k \<lparr>mv_value = v, mv_seq = n\<rparr>)"
  by (simp add: sst_len_def sst_from_def)

lemma worker_log_size:
  assumes "worker_log crc e (ww, fs) = (Ok old, ww', fs')" "job_entry n job = Some e"
  shows "ww_current_size ww' = ww_current_size ww + job_size job"
  using assms sst_len_seq [of _ _ n 0]
  by (cases job) (auto simp: worker_log_def outcome on_wal_Ok worker_insert_def job_size_def)

text \<open>
  What a client sees of the table: the latest value of each key, \<open>None\<close> when there is none
  or it was deleted; and what a job does to that map.
\<close>

type_synonym kv = "rstring \<Rightarrow> rstring option"

definition visible :: "kv_map \<Rightarrow> kv" where
  "visible m = (\<lambda>k. case m k of None \<Rightarrow> None | Some mv \<Rightarrow> mv_value mv)"

fun spec_job :: "write_job \<Rightarrow> kv \<Rightarrow> kv" where
  "spec_job (JobPut k v) m = m(k \<mapsto> v)"
| "spec_job (JobDelete k) m = m(k := None)"
| "spec_job JobShutdown m = m"

text \<open>A run: a job whose reply is an error changes nothing; a shutdown ends the run.\<close>

fun spec_run :: "write_job list \<Rightarrow> ('e, 'a) res list \<Rightarrow> kv \<Rightarrow> kv" where
  "spec_run (job # jobs) (r # replies) m =
     (if job = JobShutdown then m
      else spec_run jobs replies (case r of Ok _ \<Rightarrow> spec_job job m | _ \<Rightarrow> m))"
| "spec_run jobs [] m = m"
| "spec_run [] replies m = m"

lemma visible_update:
  "visible (m(k \<mapsto> \<lparr>mv_value = v, mv_seq = n\<rparr>)) = (visible m)(k := v)"
  by (auto simp: visible_def)

lemma worker_log_visible:
  assumes "worker_log crc e (ww, fs) = (Ok old, ww', fs')" "job_entry n job = Some e"
  shows "visible (map_of (ww_table ww')) = spec_job job (visible (map_of (ww_table ww)))"
  using assms
  by (cases job) (auto simp: worker_log_def outcome on_wal_Ok worker_insert_def visible_update)

text \<open>One step of the loop that does not flush.\<close>

lemma run_step_no_flush:
  assumes "ww_current_size ww < ww_max_size ww"
  shows "run_step crc flush job (f, ww, fs) =
    (case run_job crc job (ww, fs) of (r, ww', fs') \<Rightarrow> (r, f, ww', fs'))"
  using assms by (simp add: run_step_def run_flush_def)

lemma run_job_Ok:
  assumes run: "run_job crc job (ww, fs) = (Ok (reply, go), ww', fs')" and job: "job \<noteq> JobShutdown"
  obtains e r where "job_entry (wal_lsn (ww_wal ww)) job = Some e" "wal_lsn (ww_wal ww) < 2 ^ 64"
    "worker_log crc e (ww, fs) = (r, ww', fs')" "r \<noteq> Panic" "reply = Some r" "go"
proof -
  obtain e where e: "job_entry (wal_lsn (ww_wal ww)) job = Some e" using job by (cases job) auto
  from next_sequence_number_cases [of "ww_wal ww"] show thesis
  proof cases
    case 1
    show thesis
      using run [unfolded run_job_log [OF e 1(1)]] that [OF e 1(2)] by (cases "worker_log crc e (ww, fs)") (auto split: res.splits)
  next
    case 2
    with run job show thesis by (simp add: run_job_no_lsn)
  qed
qed

lemma run_loop_shutdown:
  "run_loop crc flush (JobShutdown # jobs) (f, ww, fs) =
    (case run_flush flush (f, ww, fs) of
       (Ok _, f', ww', fs') \<Rightarrow> (Ok [], f', ww', fs')
     | (Err e, s) \<Rightarrow> (Err e, s) | (Panic, s) \<Rightarrow> (Panic, s))"
  by (simp add: run_step_def run_job_def bind_act_def split: prod.split res.split)

lemma spec_run_shutdown: "spec_run (JobShutdown # jobs) replies m = m"
  by (cases replies) auto

text \<open>
  A run whose jobs fit into the table: the table is what the jobs that succeeded make of
  it, and while no write fails the log holds all of it.
\<close>

lemma run_loop_no_flush:
  assumes "run_loop crc flush jobs (f, ww, fs) = (Ok replies, f', ww', fs')"
    and "ww_current_size ww + sum_list (map job_size jobs) < ww_max_size ww"
  shows "f' = f \<and> visible (map_of (ww_table ww')) = spec_run jobs replies (visible (map_of (ww_table ww)))"
  using assms
proof (induction jobs arbitrary: ww fs replies)
  case Nil
  then show ?case by simp
next
  case (Cons job jobs)
  have nf: "ww_current_size ww < ww_max_size ww" using Cons.prems(2) by simp
  show ?case
  proof (cases "job = JobShutdown")
    case True
    then show ?thesis
      using Cons.prems(1) nf by (auto simp: run_loop_shutdown run_flush_def spec_run_shutdown simp del: run_loop.simps)
  next
    case False
    obtain reply go ww1 fs1 where j: "run_job crc job (ww, fs) = (Ok (reply, go), ww1, fs1)"
      and rest: "(if go then bind_act (run_loop crc flush jobs)
           (\<lambda>replies. ret (case reply of None \<Rightarrow> replies | Some r \<Rightarrow> r # replies)) else ret [])
           (f, ww1, fs1) = (Ok replies, f', ww', fs')"
      using Cons.prems(1) by (auto simp: outcome run_step_no_flush [OF nf] split: prod.splits)
    obtain e r where e: "job_entry (wal_lsn (ww_wal ww)) job = Some e"
      "worker_log crc e (ww, fs) = (r, ww1, fs1)" "r \<noteq> Panic" "reply = Some r" "go"
      using run_job_Ok [OF j False] by blast
    obtain replies1 where r1: "run_loop crc flush jobs (f, ww1, fs1) = (Ok replies1, f', ww', fs')"
      "replies = r # replies1"
      using rest e by (auto simp: outcome)
    show ?thesis
    proof (cases r)
      case (Ok old)
      note ok = e(2) [unfolded Ok]
      have "ww_max_size ww1 = ww_max_size ww"
        using ok by (auto simp: worker_log_def outcome on_wal_Ok worker_insert_def)
      then have "f' = f \<and> visible (map_of (ww_table ww')) =
          spec_run jobs replies1 (visible (map_of (ww_table ww1)))"
        using Cons.IH [OF r1(1)] worker_log_size [OF ok e(1)] Cons.prems(2) by simp
      then show ?thesis using worker_log_visible [OF ok e(1)] False by (simp add: r1(2) Ok)
    next
      case (Err x)
      have "ww_table ww1 = ww_table ww" "ww_current_size ww1 = ww_current_size ww"
        "ww_max_size ww1 = ww_max_size ww"
        using worker_log_fails [OF e(2)] Err by auto
      then show ?thesis using Cons.IH [OF r1(1)] Cons.prems(2) False by (simp add: r1(2) Err)
    qed (use e(3) in simp)
  qed
qed

lemma run_loop_logged:
  assumes "run_loop crc flush jobs (f, ww, fs) = (Ok replies, f', ww', fs')"
    and "ww_current_size ww + sum_list (map job_size jobs) < ww_max_size ww"
    and "\<forall>r \<in> set replies. \<exists>v. r = Ok v" and "\<forall>job \<in> set jobs. job_small job"
    and "worker_inv crc bases es0 es ww fs"
  shows "\<exists>bases' es'. worker_inv crc (bases @ bases') es0 (es @ es') ww' fs' \<and>
    wal_lsn (ww_wal ww) \<le> wal_lsn (ww_wal ww') \<and> ww_max_size ww' = ww_max_size ww \<and>
    wal_dir (ww_wal ww') = wal_dir (ww_wal ww) \<and>
    wal_segment_max_size (ww_wal ww') = wal_segment_max_size (ww_wal ww) \<and>
    length es' = length replies"
  using assms
proof (induction jobs arbitrary: ww fs replies bases es)
  case Nil
  then show ?case by (intro exI [of _ "[]"]) simp
next
  case (Cons job jobs)
  have nf: "ww_current_size ww < ww_max_size ww" using Cons.prems(2) by simp
  show ?case
  proof (cases "job = JobShutdown")
    case True
    then show ?thesis
      using Cons.prems(1,5) nf
      by (intro exI [of _ "[]"]) (auto simp: run_loop_shutdown run_flush_def simp del: run_loop.simps)
  next
    case False
    obtain reply go ww1 fs1 where j: "run_job crc job (ww, fs) = (Ok (reply, go), ww1, fs1)"
      and rest: "(if go then bind_act (run_loop crc flush jobs)
           (\<lambda>replies. ret (case reply of None \<Rightarrow> replies | Some r \<Rightarrow> r # replies)) else ret [])
           (f, ww1, fs1) = (Ok replies, f', ww', fs')"
      using Cons.prems(1) by (auto simp: outcome run_step_no_flush [OF nf] split: prod.splits)
    obtain e r where e: "job_entry (wal_lsn (ww_wal ww)) job = Some e" "wal_lsn (ww_wal ww) < 2 ^ 64"
      "worker_log crc e (ww, fs) = (r, ww1, fs1)" "reply = Some r" "go"
      using run_job_Ok [OF j False] by blast
    obtain replies1 where r1: "run_loop crc flush jobs (f, ww1, fs1) = (Ok replies1, f', ww', fs')"
      "replies = r # replies1"
      using rest e by (auto simp: outcome)
    obtain old where old: "r = Ok old" using Cons.prems(3) by (auto simp: r1(2))
    note ok = e(3) [unfolded old]
    have small: "entry_small e" using Cons.prems(4) job_small_entry [OF _ e(1)] by simp
    have sq: "we_seq e = wal_lsn (ww_wal ww)" "we_seq e < 2 ^ 64"
      using job_entry_seq [OF e(1)] e(2) by simp_all
    obtain b1 where w1: "worker_inv crc (bases @ b1) es0 (es @ [e]) ww1 fs1"
      "wal_lsn (ww_wal ww) < wal_lsn (ww_wal ww1)" "ww_max_size ww1 = ww_max_size ww"
      "wal_dir (ww_wal ww1) = wal_dir (ww_wal ww)"
      "wal_segment_max_size (ww_wal ww1) = wal_segment_max_size (ww_wal ww)"
      using worker_log_inv [OF Cons.prems(5) small sq ok] by blast
    have "ww_current_size ww1 + sum_list (map job_size jobs) < ww_max_size ww1"
      using worker_log_size [OF ok e(1)] Cons.prems(2) w1(3) by simp
    moreover have "\<forall>r \<in> set replies1. \<exists>v. r = Ok v" "\<forall>job \<in> set jobs. job_small job"
      using Cons.prems(3,4) by (simp_all add: r1(2))
    ultimately obtain b2 es2 where "worker_inv crc ((bases @ b1) @ b2) es0 ((es @ [e]) @ es2) ww' fs'"
      "wal_lsn (ww_wal ww1) \<le> wal_lsn (ww_wal ww')" "ww_max_size ww' = ww_max_size ww1"
      "wal_dir (ww_wal ww') = wal_dir (ww_wal ww1)"
      "wal_segment_max_size (ww_wal ww') = wal_segment_max_size (ww_wal ww1)"
      "length es2 = length replies1"
      using Cons.IH [OF r1(1) _ _ _ w1(1)] by blast
    with w1 show ?thesis
      by (intro exI [of _ "b1 @ b2"] exI [of _ "e # es2"]) (simp add: r1(2))
  qed
qed

section \<open>From one start to the next\<close>

definition fresh_dir :: "path \<Rightarrow> file_system \<Rightarrow> bool" where
  "fresh_dir dir fs \<longleftrightarrow> (\<forall>p. butlast p = dir \<and> p \<noteq> [] \<longrightarrow> fs_content fs p = None)"

lemma fs_read_dir_fresh:
  assumes "fresh_dir dir fs" "dir \<in> set (fs_dirs fs)" "fs_faults fs = []"
  shows "fs_read_dir dir fs = (Ok [], fs)"
proof -
  have "filter (\<lambda>(p, bs). p \<noteq> [] \<and> butlast p = dir) (fs_files fs) = []"
  proof (rule ccontr)
    assume "filter (\<lambda>(p, bs). p \<noteq> [] \<and> butlast p = dir) (fs_files fs) \<noteq> []"
    then obtain p bs where "(p, bs) \<in> set (fs_files fs)" "p \<noteq> []" "butlast p = dir"
      by (auto simp: filter_empty_conv)
    then show False
      using assms(1) map_of_eq_None_iff [of "fs_files fs" p]
      by (force simp: fresh_dir_def fs_content_def)
  qed
  then show ?thesis
    using assms(2,3) by (simp add: fs_read_dir_def)
qed

lemma list_segment_files_fresh:
  "fresh_dir dir fs \<Longrightarrow> dir \<in> set (fs_dirs fs) \<Longrightarrow> fs_faults fs = [] \<Longrightarrow> list_segment_files dir s fs = (Ok [], fs)"
  by (simp add: list_segment_files_def fs_read_dir_fresh)

lemma memtable_start_fresh:
  assumes run: "memtable_start crc dir sz s max_size fs = (Ok ww, fs')"
    and fresh: "fresh_dir dir fs" and nf: "fs_faults fs = []" and wf: "fs_wf fs"
    and sz: "0 < sz" "sz < 2 ^ 32" "sz dvd 2 ^ 32"
  shows "worker_inv crc [0] [] [] ww fs' \<and> wal_dir (ww_wal ww) = dir \<and>
    wal_segment_max_size (ww_wal ww) = sz \<and> ww_table ww = [] \<and> ww_current_size ww = 0 \<and>
    ww_max_size ww = max_size"
proof -
  let ?fs = "fs\<lparr>fs_dirs := dir # fs_dirs fs\<rparr>"
  have fresh': "fresh_dir dir ?fs" using fresh by (simp add: fresh_dir_def fs_content_def)
  have dir: "fs_create_dir_all dir fs = (Ok (), ?fs)" using nf by (simp add: fs_create_dir_all_def)
  have "find_and_open_segments dir sz s ?fs = (Ok [], ?fs)"
    using list_segment_files_fresh [OF fresh', of s] nf by (simp add: find_and_open_segments_def)
  with run obtain w where w: "wal_create_new dir sz ?fs = (Ok w, fs')"
    and ww: "ww = worker_from [] w 0 max_size"
    by (auto simp: memtable_start_def dir outcome)
  have wf': "fs_wf fs'"
  proof -
    have "fs_wf ?fs" using wf by (simp add: fs_wf_def)
    moreover have "keeps fs_wf (wal_create_new dir sz)"
      unfolding wal_create_new_def
      by (intro keeps_bind keeps_lift_res keeps_ret wf_fs.fs_create_keeps) simp
    ultimately show ?thesis using w keepsD [where J = fs_wf and m = "wal_create_new dir sz"] by simp
  qed
  have "\<forall>p. butlast p = dir \<and> p \<noteq> [] \<longrightarrow> fs_content ?fs p = None"
    using fresh' unfolding fresh_dir_def .
  from wal_create_new_inv [OF w sz this] wf' show ?thesis
    by (simp add: worker_inv_def ww worker_from_def)
qed

lemma memtable_start_fresh_frame:
  assumes run: "memtable_start crc dir sz s max_size fs = (Ok ww, fs')"
    and fresh: "fresh_dir dir fs" and nf: "fs_faults fs = []"
  shows "fs_faults fs' = [] \<and> fs_dirs fs' = dir # fs_dirs fs \<and>
    (\<forall>p. butlast p \<noteq> dir \<longrightarrow> fs_content fs' p = fs_content fs p)"
proof -
  let ?fs = "fs\<lparr>fs_dirs := dir # fs_dirs fs\<rparr>"
  have fresh': "fresh_dir dir ?fs" using fresh by (simp add: fresh_dir_def fs_content_def)
  have dir: "fs_create_dir_all dir fs = (Ok (), ?fs)" using nf by (simp add: fs_create_dir_all_def)
  have "find_and_open_segments dir sz s ?fs = (Ok [], ?fs)"
    using list_segment_files_fresh [OF fresh', of s] nf by (simp add: find_and_open_segments_def)
  with run obtain w where w: "wal_create_new dir sz ?fs = (Ok w, fs')"
    by (auto simp: memtable_start_def dir outcome)
  then obtain filename where "fs_create (dir @ [filename]) ?fs = (Ok (), fs')"
    by (auto simp: wal_create_new_def outcome)
  then have "fs' = fs_store (dir @ [filename]) [] ?fs"
    using nf by (simp add: fs_create_def)
  then show ?thesis
    using nf by (auto simp: fs_content_def fs_store_def)
qed

lemma worker_inv_faults:
  assumes "worker_inv crc bases es0 es ww fs"
  shows "worker_inv crc bases es0 es ww (fs\<lparr>fs_faults := fl\<rparr>)"
proof -
  have "fs_content (fs\<lparr>fs_faults := fl\<rparr>) = fs_content fs"
    by (rule ext) (simp add: fs_content_def)
  then show ?thesis
    using assms wal_inv_cong [of "fs\<lparr>fs_faults := fl\<rparr>" fs]
    by (auto simp: worker_inv_def fs_wf_def)
qed

lemma worker_inv_restart:
  assumes inv: "worker_inv crc bases [] es ww fs" and ne: "es \<noteq> []" and lsn: "wal_lsn (ww_wal ww) < 2 ^ 63"
  shows "memtable_start crc (wal_dir (ww_wal ww)) (wal_segment_max_size (ww_wal ww)) 0 (ww_max_size ww)
      (fs\<lparr>fs_faults := []\<rparr>) =
    (Ok ww, fs\<lparr>fs_faults := [], fs_dirs := wal_dir (ww_wal ww) # fs_dirs fs\<rparr>)"
proof -
  let ?fs = "fs\<lparr>fs_faults := []\<rparr>"
  have i: "wal_inv crc bases es (ww_wal ww) ?fs" "fs_wf ?fs"
    and tab: "recover_entries es (0, []) = (ww_current_size ww, ww_table ww)"
    using worker_inv_faults [OF inv, of "[]"] by (auto simp: worker_inv_def)
  have ww: "worker_from (ww_table ww) (ww_wal ww) (ww_current_size ww) (ww_max_size ww) = ww"
    by (simp add: worker_from_def)
  show ?thesis
    using memtable_start_replays [OF i _ ne lsn, of "ww_max_size ww"] by (simp add: tab ww)
qed

section \<open>Empty keys\<close>

lemma worker_empty_key:
  assumes "as_bytes key = []"
  shows "worker_put crc key v (ww, fs) = (Panic, ww, fs) \<and> worker_delete crc key (ww, fs) = (Panic, ww, fs)"
proof -
  have "worker_log crc e (ww, fs) = (Panic, ww, fs)" if k: "we_key e = key" for e
  proof -
    have "(wal_to_bytes crc e :: (io_error, bytes) res) = Panic"
      using assms k by (simp add: wal_to_bytes_eq)
    then have "wal_append crc e (ww_wal ww, fs) = (Panic, ww_wal ww, fs)"
      unfolding wal_append_def prod.case by (intro bind_act_run(3)) simp
    then have "on_wal (wal_append crc e) (ww, fs) = (Panic, ww, fs)"
      by (simp add: on_wal_def)
    then show ?thesis unfolding worker_log_def by (rule bind_act_run(3))
  qed
  then have log: "worker_log crc \<lparr>we_op = opt, we_key = key, we_value = val, we_seq = n\<rparr> (ww, fs) = (Panic, ww, fs)"
    for opt val n by simp
  from next_sequence_number_cases [of "ww_wal ww"] show ?thesis
    by cases (simp_all add: worker_put_log worker_delete_log log)
qed

end
