(* ===== verification/Sst_Lookup.thy ===== *)
theory Sst_Lookup
  imports Sst_Segment
begin

text \<open>
  The contract of a segment: a file that holds the frames of a sorted run of entries, an
  index of some of their positions and a footer.  Opening such a file gives a segment whose
  \<open>get\<close> is the lookup in the run, whichever entries the index names.
\<close>

section \<open>The shape of a segment file\<close>

definition entries_ok :: "sst_entry list \<Rightarrow> bool" where
  "entries_ok es \<longleftrightarrow> sorted_wrt (<) (map se_key es) \<and> (\<forall>e \<in> set es. sst_entry_ok e)"

definition data_block :: "sst_entry list \<Rightarrow> bytes" where
  "data_block es = concat (map sst_frame es)"

definition entry_offset :: "sst_entry list \<Rightarrow> nat \<Rightarrow> nat" where
  "entry_offset es i = length (data_block (take i es))"

definition index_points :: "sst_entry list \<Rightarrow> nat list \<Rightarrow> index_entry list" where
  "index_points es ps = map (\<lambda>i. \<lparr>ie_key = se_key (es ! i), ie_offset = entry_offset es i\<rparr>) ps"

definition points_ok :: "sst_entry list \<Rightarrow> nat list \<Rightarrow> bool" where
  "points_ok es ps \<longleftrightarrow> sorted_wrt (<) ps \<and> (\<forall>i \<in> set ps. i < length es)"

text \<open>The lookup a segment promises.\<close>

definition lookup_entry :: "sst_entry list \<Rightarrow> rstring \<Rightarrow> sst_entry option" where
  "lookup_entry es key = find (\<lambda>e. se_key e = key) es"

definition segment_of :: "sst_segment \<Rightarrow> sst_entry list \<Rightarrow> nat list \<Rightarrow> bool" where
  "segment_of seg es ps \<longleftrightarrow> entries_ok es \<and> points_ok es ps \<and>
     idx_indices (sg_index seg) = index_points es ps \<and> sg_data_block_end seg = length (data_block es)"

lemma data_block_append [simp]: "data_block (xs @ ys) = data_block xs @ data_block ys"
  by (simp add: data_block_def)

lemma data_block_Nil [simp]: "data_block [] = []"
  by (simp add: data_block_def)

lemma entry_offset_all: "length es \<le> i \<Longrightarrow> entry_offset es i = length (data_block es)"
  by (simp add: entry_offset_def)

lemma entry_offset_0 [simp]: "entry_offset es 0 = 0"
  by (simp add: entry_offset_def)

lemma data_block_mid:
  assumes "i \<le> j" "j \<le> length es"
  shows "data_block es @ rest = data_block (take i es) @ data_block (drop i (take j es)) @
    data_block (drop j es) @ rest"
proof -
  have "es = take i es @ drop i (take j es) @ drop j es"
    using assms by (metis append.assoc append_take_drop_id min.absorb1 take_take)
  then show ?thesis by (metis append.assoc data_block_append)
qed

lemma entry_offset_mid:
  assumes "i \<le> j" "j \<le> length es"
  shows "entry_offset es j = entry_offset es i + length (data_block (drop i (take j es)))"
proof -
  have "take j es = take i es @ drop i (take j es)"
    using assms by (metis append_take_drop_id min.absorb1 take_take)
  then show ?thesis unfolding entry_offset_def by (metis data_block_append length_append)
qed

section \<open>Binary search\<close>

lemma binary_search_loop_spec:
  assumes "l \<le> r" "r < length ies" "ie_key (ies ! l) \<le> key"
    and "\<forall>j. r < j \<and> j < length ies \<longrightarrow> key < ie_key (ies ! j)"
    and "sorted_wrt (<) (map ie_key ies)"
  shows "\<exists>i. binary_search_loop ies key l r = Ok i \<and> i < length ies \<and> ie_key (ies ! i) \<le> key \<and>
    (\<forall>j. i < j \<and> j < length ies \<longrightarrow> key < ie_key (ies ! j))"
  using assms
proof (induction "r - l" arbitrary: l r rule: less_induct)
  case less
  show ?case
  proof (cases "l < r")
    case True
    define m where "m = (l + r) div 2 + 1"
    have m: "l < m" "m \<le> r" using True by (simp_all add: m_def)
    have ok': "index_chk ies m = (Ok (ies ! m) :: (io_error, index_entry) res)"
      using m less.prems(2) by (simp add: index_chk_def)
    have step: "binary_search_loop ies key l r = (if ie_key (ies ! m) \<le> key
        then binary_search_loop ies key m r else binary_search_loop ies key l (m - 1))"
      using True ok' unfolding m_def by (subst binary_search_loop.simps) (simp add: Let_def)
    show ?thesis
    proof (cases "ie_key (ies ! m) \<le> key")
      case le: True
      have "\<exists>i. binary_search_loop ies key m r = Ok i \<and> i < length ies \<and> ie_key (ies ! i) \<le> key \<and>
          (\<forall>j. i < j \<and> j < length ies \<longrightarrow> key < ie_key (ies ! j))"
        using less.hyps [of r m] m le less.prems True by (simp add: diff_less_mono2)
      then show ?thesis
        using le by (simp add: step)
    next
      case gt: False
      have "key < ie_key (ies ! j)" if j: "m - 1 < j" "j < length ies" for j
      proof (cases "j = m")
        case False
        then have "m < j" using j by simp
        then have "ie_key (ies ! m) < ie_key (ies ! j)"
          using less.prems(5) j(2) by (simp add: sorted_wrt_iff_nth_less)
        then show ?thesis using gt by simp
      qed (use gt in simp)
      then have "\<exists>i. binary_search_loop ies key l (m - 1) = Ok i \<and> i < length ies \<and> ie_key (ies ! i) \<le> key \<and>
          (\<forall>j. i < j \<and> j < length ies \<longrightarrow> key < ie_key (ies ! j))"
        using less.hyps [of "m - 1" l] m less.prems by auto
      then show ?thesis
        using gt by (simp add: step)
    qed
  next
    case False
    then have "l = r" using less.prems(1) by simp
    then show ?thesis
      using less.prems by (subst binary_search_loop.simps) auto
  qed
qed

text \<open>What \<open>find\<close> returns: the position of the key, or the gap of the index it falls into.\<close>

lemma index_find_cases:
  assumes "sorted_wrt (<) (map ie_key (idx_indices idx))"
  obtains (empty) "idx_indices idx = []" "index_find idx key = Ok (Range 0 None)"
  | (before) "idx_indices idx \<noteq> []" "key < ie_key (idx_indices idx ! 0)"
      "index_find idx key = Ok (Range 0 (Some (ie_offset (idx_indices idx ! 0))))"
  | (hit) i where "i < length (idx_indices idx)" "ie_key (idx_indices idx ! i) = key"
      "index_find idx key = Ok (Match (ie_offset (idx_indices idx ! i)))"
  | (gap) i where "i + 1 < length (idx_indices idx)" "ie_key (idx_indices idx ! i) < key"
      "key < ie_key (idx_indices idx ! (i + 1))"
      "index_find idx key = Ok (Range (ie_offset (idx_indices idx ! i))
         (Some (ie_offset (idx_indices idx ! (i + 1)))))"
  | (behind) i where "i + 1 = length (idx_indices idx)" "ie_key (idx_indices idx ! i) < key"
      "index_find idx key = Ok (Range (ie_offset (idx_indices idx ! i)) None)"
proof (cases "idx_indices idx")
  case Nil
  then show ?thesis by (intro empty) (simp_all add: index_find_def)
next
  case (Cons e0 es)
  let ?n = "length (idx_indices idx)"
  show ?thesis
  proof (cases "key < ie_key e0")
    case True
    then show ?thesis using Cons by (intro before) (simp_all add: index_find_def)
  next
    case False
    have r: "?n - 1 < ?n" using Cons by simp
    have "\<exists>i. binary_search_loop (idx_indices idx) key 0 (?n - 1) = Ok i \<and> i < ?n \<and>
        ie_key (idx_indices idx ! i) \<le> key \<and>
        (\<forall>j. i < j \<and> j < ?n \<longrightarrow> key < ie_key (idx_indices idx ! j))"
      by (rule binary_search_loop_spec [OF _ r _ _ assms]) (use False Cons in auto)
    then obtain i where i: "binary_search_loop (idx_indices idx) key 0 (?n - 1) = Ok i" "i < ?n"
      "ie_key (idx_indices idx ! i) \<le> key"
      "\<forall>j. i < j \<and> j < ?n \<longrightarrow> key < ie_key (idx_indices idx ! j)"
      by blast
    have bs: "binary_search idx key = Ok (idx_indices idx ! i, i)"
      using i Cons by (simp add: binary_search_def sub_chk_def index_chk_def)
    have f: "index_find idx key = (if key = ie_key (idx_indices idx ! i)
        then Ok (Match (ie_offset (idx_indices idx ! i)))
        else if i < ?n - 1 then Ok (Range (ie_offset (idx_indices idx ! i)) (Some (ie_offset (idx_indices idx ! (i + 1)))))
        else Ok (Range (ie_offset (idx_indices idx ! i)) None))"
      using False Cons bs by (simp add: index_find_def)
    show ?thesis
    proof (cases "key = ie_key (idx_indices idx ! i)")
      case True
      then show ?thesis using hit [of i] f i by simp
    next
      case ne: False
      then have lt: "ie_key (idx_indices idx ! i) < key" using i(3) by simp
      show ?thesis
      proof (cases "i < ?n - 1")
        case True
        then show ?thesis using gap [of i] f ne lt i by simp
      next
        case False
        then show ?thesis using behind [of i] f ne lt i by simp
      qed
    qed
  qed
qed

section \<open>Scanning a part of the run\<close>

lemma find_none: "(\<forall>e \<in> set es. se_key e \<noteq> key) \<Longrightarrow> find (\<lambda>e. se_key e = key) es = None"
  by (simp add: find_None_iff)

lemma find_append: "find P (xs @ ys) = (case find P xs of None \<Rightarrow> find P ys | Some x \<Rightarrow> Some x)"
  by (induction xs) auto

lemma scan_entries_find:
  "sorted_wrt (<) (map se_key es) \<Longrightarrow> scan_entries key es = find (\<lambda>e. se_key e = key) es"
proof (induction es)
  case (Cons e es)
  have "find (\<lambda>x. se_key x = key) es = None" if "key < se_key e"
    using Cons.prems that by (intro find_none) auto
  with Cons show ?case by auto
qed simp

lemma entries_ok_less:
  "entries_ok es \<Longrightarrow> i < j \<Longrightarrow> j < length es \<Longrightarrow> se_key (es ! i) < se_key (es ! j)"
  by (simp add: entries_ok_def sorted_wrt_iff_nth_less)

lemma scan_entries_part:
  assumes ok: "entries_ok es" and ij: "i \<le> j" "j \<le> length es"
    and low: "\<forall>k < i. se_key (es ! k) < key" and high: "\<forall>k. j \<le> k \<and> k < length es \<longrightarrow> key < se_key (es ! k)"
  shows "scan_entries key (drop i (take j es)) = lookup_entry es key"
proof -
  have es: "es = take i es @ drop i (take j es) @ drop j es"
    using ij by (metis append.assoc append_take_drop_id min.absorb1 take_take)
  have "sorted_wrt (<) (map se_key es)" using ok by (simp add: entries_ok_def)
  then have "sorted_wrt (<) (map se_key (drop i (take j es)))"
    by (metis drop_map sorted_wrt_drop sorted_wrt_take take_map)
  then have "scan_entries key (drop i (take j es)) = find (\<lambda>e. se_key e = key) (drop i (take j es))"
    by (rule scan_entries_find)
  moreover have "find (\<lambda>e. se_key e = key) (take i es) = None"
  proof (rule find_none)
    show "\<forall>e \<in> set (take i es). se_key e \<noteq> key"
      using low ij by (force simp: in_set_conv_nth)
  qed
  moreover have "find (\<lambda>e. se_key e = key) (drop j es) = None"
  proof (rule find_none, clarify)
    fix e assume "e \<in> set (drop j es)" "key = se_key e"
    then obtain k where "k < length es - j" "e = es ! (j + k)"
      using ij(2) by (auto simp: in_set_conv_nth)
    moreover from this have "j + k < length es" by linarith
    ultimately show False using high [rule_format, of "j + k"] \<open>key = se_key e\<close> by simp
  qed
  ultimately show ?thesis
    unfolding lookup_entry_def by (subst es) (simp add: find_append split: option.split)
qed

lemma lookup_entry_nth:
  assumes "entries_ok es" "i < length es"
  shows "lookup_entry es (se_key (es ! i)) = Some (es ! i)"
  unfolding lookup_entry_def find_Some_iff
proof (intro exI conjI allI impI)
  fix j assume "j < i"
  then show "se_key (es ! j) \<noteq> se_key (es ! i)"
    using entries_ok_less [OF assms(1), of j i] assms(2) by auto
qed (use assms in auto)

section \<open>Reading from the file\<close>

lemma read_loop_full:
  assumes "fs_faults fs = []" "fs_content fs p = Some c" "off + n \<le> length c"
  shows "read_loop p n (replicate n 0) 0 off 0 fs = (Ok (take n (drop off c), off + n), fs)"
proof (cases "n = 0")
  case True
  then show ?thesis by (subst read_loop.simps) simp
next
  case False
  have len: "length (take n (drop off c)) = n" using assms(3) by simp
  then have "take n (drop off c) \<noteq> []" using False by auto
  then show ?thesis
    using False len assms(3)
    by (subst read_loop.simps, subst read_loop.simps)
      (simp add: fs_read_at_no_faults [OF assms(1,2)] Let_def)
qed

lemma read_table_entries_block:
  assumes fs: "fs_faults fs = []" "fs_content fs p = Some (data_block es @ rest)"
    and ok: "entries_ok es" and ij: "i \<le> j" "j \<le> length es"
  shows "read_table_entries p (entry_offset es i) (entry_offset es j) fs = (Ok (drop i (take j es)), fs)"
proof -
  let ?mid = "data_block (drop i (take j es))"
  have off: "entry_offset es j = entry_offset es i + length ?mid" by (rule entry_offset_mid [OF ij])
  have c: "data_block es @ rest = data_block (take i es) @ ?mid @ data_block (drop j es) @ rest"
    by (rule data_block_mid [OF ij])
  have oi: "entry_offset es i = length (data_block (take i es))" by (simp add: entry_offset_def)
  have "read_loop p (length ?mid) (replicate (length ?mid) 0) 0 (entry_offset es i) 0 fs =
      (Ok (take (length ?mid) (drop (entry_offset es i) (data_block es @ rest)),
        entry_offset es i + length ?mid), fs)"
    by (rule read_loop_full [OF fs]) (simp add: c oi)
  moreover have "take (length ?mid) (drop (entry_offset es i) (data_block es @ rest)) = ?mid"
    by (simp add: c oi)
  moreover have "vec_from_bytes ?mid = (Ok (drop i (take j es)) :: (io_error, sst_entry list) res)"
    unfolding data_block_def
    using ok by (intro vec_from_bytes_frames) (auto simp: entries_ok_def dest!: in_set_dropD in_set_takeD)
  ultimately show ?thesis
    by (simp add: read_table_entries_def off sub_chk_def)
qed

lemma read_table_entry_at:
  assumes fs: "fs_faults fs = []" "fs_content fs p = Some (data_block es @ rest)"
    and ok: "entries_ok es" and i: "i < length es"
  shows "read_table_entry p (entry_offset es i) fs = (Ok (es ! i), fs)"
proof -
  let ?e = "es ! i"
  define post where "post = data_block (drop (Suc i) es) @ rest"
  have e: "sst_entry_ok ?e" using ok i by (simp add: entries_ok_def)
  have one: "drop i (take (Suc i) es) = [?e]" using i by (simp add: take_Suc_conv_app_nth)
  have c: "data_block es @ rest = data_block (take i es) @ le_bytes 4 (sst_len ?e) @ sst_to_bytes ?e @ post"
    using data_block_mid [of i "Suc i" es rest] i one
    by (simp add: data_block_def sst_frame_def post_def)
  have oi: "entry_offset es i = length (data_block (take i es))" by (simp add: entry_offset_def)
  have r1: "read_loop p 4 (replicate 4 0) 0 (entry_offset es i) 0 fs =
      (Ok (le_bytes 4 (sst_len ?e), entry_offset es i + 4), fs)"
    using read_loop_full [OF fs, of "entry_offset es i" 4] by (simp add: c oi)
  have n: "le_nat (le_bytes 4 (sst_len ?e)) = sst_len ?e"
    using e by (simp add: le_nat_le_bytes sst_entry_ok_def)
  have r2: "read_loop p (sst_len ?e) (replicate (sst_len ?e) 0) 0 (entry_offset es i + 4) 0 fs =
      (Ok (sst_to_bytes ?e, entry_offset es i + 4 + sst_len ?e), fs)"
    using read_loop_full [OF fs, of "entry_offset es i + 4" "sst_len ?e"]
    by (simp add: c oi length_sst_to_bytes)
  have "sst_from_bytes (sst_to_bytes ?e) = (Ok ?e :: (io_error, sst_entry) res)"
    by (rule sst_from_bytes_to_bytes [OF e])
  then show ?thesis by (simp add: read_table_entry_def r1 n r2 Let_def)
qed

section \<open>The lookup\<close>

lemma index_points_sorted:
  assumes "entries_ok es" "points_ok es ps"
  shows "sorted_wrt (<) (map ie_key (index_points es ps))"
proof -
  have "sorted_wrt (<) (map (\<lambda>i. se_key (es ! i)) ps)"
    unfolding sorted_wrt_map
    by (rule sorted_wrt_mono_rel [of _ "(<)"]) (use assms entries_ok_less in \<open>auto simp: points_ok_def\<close>)
  then show ?thesis by (simp add: index_points_def comp_def)
qed

lemma index_points_nth [simp]:
  "i < length ps \<Longrightarrow> index_points es ps ! i = \<lparr>ie_key = se_key (es ! (ps ! i)), ie_offset = entry_offset es (ps ! i)\<rparr>"
  "length (index_points es ps) = length ps"
  by (simp_all add: index_points_def)

lemma keys_below:
  assumes "entries_ok es" "i < length es" "se_key (es ! i) < key"
  shows "\<forall>k < i. se_key (es ! k) < key"
  using entries_ok_less [OF assms(1)] assms(2,3) less_trans by blast

lemma keys_above:
  assumes "entries_ok es" "j < length es" "key < se_key (es ! j)"
  shows "\<forall>k. j \<le> k \<and> k < length es \<longrightarrow> key < se_key (es ! k)"
  using entries_ok_less [OF assms(1)] assms(2,3) by (metis le_neq_implies_less less_trans)

lemma segment_get_lookup:
  assumes seg: "segment_of seg es ps" and fs: "fs_faults fs = []"
    "fs_content fs (sg_path seg) = Some (data_block es @ rest)"
  shows "segment_get seg key fs = (Ok (lookup_entry es key), fs)"
proof -
  let ?ies = "idx_indices (sg_index seg)"
  have ok: "entries_ok es" and ps: "points_ok es ps" and idx: "?ies = index_points es ps"
    and end_pos: "sg_data_block_end seg = entry_offset es (length es)"
    using seg by (auto simp: segment_of_def entry_offset_all)
  have sorted: "sorted_wrt (<) (map ie_key ?ies)" unfolding idx by (rule index_points_sorted [OF ok ps])
  have in_es: "ps ! i < length es" if "i < length ps" for i using ps that by (simp add: points_ok_def)
  have scan: "read_table_entries (sg_path seg) (entry_offset es i) (entry_offset es j) fs = (Ok (drop i (take j es)), fs) \<and>
      scan_entries key (drop i (take j es)) = lookup_entry es key"
    if "i \<le> j" "j \<le> length es" "\<forall>k < i. se_key (es ! k) < key"
      "\<forall>k. j \<le> k \<and> k < length es \<longrightarrow> key < se_key (es ! k)" for i j
    using read_table_entries_block [OF fs ok that(1,2)] scan_entries_part [OF ok that] by simp
  show ?thesis
  proof (cases rule: index_find_cases [OF sorted, of key, case_names empty before hit gap behind])
    case empty
    moreover have "\<forall>k. length es \<le> k \<and> k < length es \<longrightarrow> key < se_key (es ! k)" by auto
    ultimately show ?thesis using scan [of 0 "length es"] by (simp add: segment_get_def end_pos)
  next
    case before
    then have n: "0 < length ps" by (auto simp: idx index_points_def)
    have "key < se_key (es ! (ps ! 0))" using before(2) n by (simp add: idx)
    then show ?thesis
      using scan [of 0 "ps ! 0"] keys_above [OF ok in_es [OF n]] in_es [OF n] before(3) n
      by (simp add: segment_get_def idx)
  next
    case (hit i)
    then have n: "i < length ps" by (simp add: idx)
    have "key = se_key (es ! (ps ! i))" using hit(2) n by (simp add: idx)
    then show ?thesis
      using hit(3) n read_table_entry_at [OF fs ok in_es [OF n]] lookup_entry_nth [OF ok in_es [OF n]]
      by (simp add: segment_get_def idx)
  next
    case (gap i)
    then have n: "i < length ps" "i + 1 < length ps" by (simp_all add: idx)
    have k: "se_key (es ! (ps ! i)) < key" "key < se_key (es ! (ps ! (i + 1)))"
      using gap(2,3) n by (simp_all add: idx)
    have "ps ! i \<le> ps ! (i + 1)"
      using ps n by (simp add: points_ok_def sorted_wrt_iff_nth_less less_imp_le)
    then show ?thesis
      using scan [of "ps ! i" "ps ! (i + 1)"] keys_above [OF ok in_es [OF n(2)] k(2)]
        keys_below [OF ok in_es [OF n(1)] k(1)] in_es [OF n(2)] gap(4) n
      by (simp add: segment_get_def idx)
  next
    case (behind i)
    then have n: "i < length ps" by (simp add: idx)
    have k: "se_key (es ! (ps ! i)) < key" using behind(2) n by (simp add: idx)
    have "\<forall>k. length es \<le> k \<and> k < length es \<longrightarrow> key < se_key (es ! k)" by auto
    then show ?thesis
      using scan [of "ps ! i" "length es"] keys_below [OF ok in_es [OF n] k] in_es [OF n] behind(3) n
      by (simp add: segment_get_def idx end_pos)
  qed
qed

section \<open>The index and the footer are read back\<close>

definition index_of :: "index_entry list \<Rightarrow> segment_index" where
  "index_of ies = \<lparr>idx_indices = ies, idx_len = sum_list (map (\<lambda>e. str_len (ie_key e) + 12) ies)\<rparr>"

lemma idx_indices_of [simp]: "idx_indices (index_of ies) = ies"
  by (simp add: index_of_def)

lemma index_of_Nil: "index_of [] = index_new"
  by (simp add: index_of_def index_new_def)

lemma add_index_of: "add_index k off (index_of ies) = index_of (ies @ [\<lparr>ie_key = k, ie_offset = off\<rparr>])"
  by (simp add: index_of_def add_index_def)

definition index_entry_ok :: "index_entry \<Rightarrow> bool" where
  "index_entry_ok e \<longleftrightarrow> str_len (ie_key e) < 2 ^ 32 \<and> ie_offset e < 2 ^ 64"

lemma le_nat_append_zeros: "le_nat (xs @ replicate n 0) = le_nat xs"
proof (induction xs)
  case Nil
  show ?case by (induction n) auto
qed simp

lemma index_loop_frame:
  assumes "index_entry_ok e"
  shows "index_loop (pre @ index_entry_to_bytes e @ post) (length pre) (index_of acc) =
    index_loop (pre @ index_entry_to_bytes e @ post) (length pre + length (index_entry_to_bytes e))
      (index_of (acc @ [e]))"
proof -
  let ?k = "as_bytes (ie_key e)" and ?n = "str_len (ie_key e)"
  have n: "length ?k = ?n" by (simp add: str_len_def)
  have key: "le_nat (le_bytes 4 ?n @ replicate 4 0) = ?n"
    using assms by (simp add: le_nat_append_zeros le_nat_le_bytes index_entry_ok_def)
  define L where "L = le_bytes 4 ?n @ replicate 4 (0 :: u8)"
  have L: "length L = 8" "le_nat L = ?n" using key by (simp_all add: L_def)
  have b: "pre @ index_entry_to_bytes e @ post = pre @ L @ ?k @ le_bytes 8 (ie_offset e) @ post"
    by (simp add: index_entry_to_bytes_def L_def)
  have off: "le_nat (le_bytes 8 (ie_offset e)) = ie_offset e"
    using assms by (simp add: le_nat_le_bytes index_entry_ok_def)
  have len: "length (index_entry_to_bytes e) = 16 + ?n"
    by (simp add: index_entry_to_bytes_def n)
  have e: "e = \<lparr>ie_key = ie_key e, ie_offset = ie_offset e\<rparr>" by simp
  show ?thesis
    unfolding b len
    by (subst index_loop.simps)
      (simp add: read_le_def slice_chk_def L n off add_index_of add.assoc flip: e)
qed

interpretation index_stream: record_stream index_entry_to_bytes
  "\<lambda>buf off acc. index_loop buf off (index_of acc)" index_entry_ok
  by unfold_locales (rule index_loop_frame)

lemma index_from_bytes_to_bytes:
  assumes "\<forall>e \<in> set ies. index_entry_ok e"
  shows "index_from_bytes (index_to_bytes (index_of ies)) = Ok (index_of ies)"
proof -
  have b: "index_to_bytes (index_of ies) = concat (map index_entry_to_bytes ies)"
    by (simp add: index_to_bytes_def index_of_def)
  show ?thesis
    unfolding b index_from_bytes_def index_of_Nil [symmetric]
    using index_stream.reader_all [OF assms, of "[]"]
    by (simp add: index_loop.simps [of _ "length _"])
qed

section \<open>Opening a segment file\<close>

definition segment_image :: "sst_entry list \<Rightarrow> nat list \<Rightarrow> bytes" where
  "segment_image es ps = data_block es @ index_to_bytes (index_of (index_points es ps)) @
     footer_to_bytes (length (data_block es))"

lemma length_footer [simp]: "length (footer_to_bytes n) = 12"
  by (simp add: footer_to_bytes_def MAGIC_BYTES_def)

text \<open>What opening must find besides the entries: their number of bytes is an offset.\<close>

definition run_ok :: "sst_entry list \<Rightarrow> nat list \<Rightarrow> bool" where
  "run_ok es ps \<longleftrightarrow> entries_ok es \<and> points_ok es ps \<and> es \<noteq> [] \<and> length (data_block es) < 2 ^ 64"

lemma index_points_ok:
  assumes "run_ok es ps"
  shows "\<forall>e \<in> set (index_points es ps). index_entry_ok e"
proof
  fix e assume "e \<in> set (index_points es ps)"
  then obtain i where i: "i < length es" "e = \<lparr>ie_key = se_key (es ! i), ie_offset = entry_offset es i\<rparr>"
    using assms by (auto simp: index_points_def run_ok_def points_ok_def)
  have "sst_entry_ok (es ! i)" using assms i(1) by (simp add: run_ok_def entries_ok_def)
  then have "str_len (se_key (es ! i)) < 2 ^ 32"
    by (simp add: sst_entry_ok_def sst_len_def split: option.splits)
  moreover have "entry_offset es i \<le> length (data_block es)"
    using entry_offset_mid [of i "length es" es] i(1) by (simp add: entry_offset_all)
  ultimately show "index_entry_ok e" using assms i(2) by (simp add: index_entry_ok_def run_ok_def)
qed

lemma highest_seq_max: "highest_seq es m = fold max (map se_seq es) m"
  by (induction es m rule: highest_seq.induct) (auto simp: max_def)

lemma segment_from_file_image:
  assumes ok: "run_ok es ps" and fs: "fs_faults fs = []" "fs_content fs p = Some (segment_image es ps)"
    and name: "p \<noteq> []" "level_and_segment_number (last p) = (Ok (l, n) :: (segment_open_error, nat \<times> nat) res)"
  shows "\<exists>seg. segment_from_file p fs = (Ok seg, fs) \<and> segment_of seg es ps \<and> sg_path seg = p \<and>
    sg_level_number seg = l \<and> sg_number seg = n \<and> sg_size seg = length (segment_image es ps) \<and>
    sg_first_key seg = se_key (hd es) \<and> sg_last_key seg = se_key (last es) \<and>
    sg_highest_sequence_no seg = highest_seq (drop (if ps = [] then 0 else last ps) es) 0"
proof -
  let ?d = "data_block es" and ?ies = "index_points es ps"
  define ib where "ib = index_to_bytes (index_of ?ies)"
  have im: "segment_image es ps = ?d @ ib @ le_bytes 8 (length ?d) @ MAGIC_BYTES"
    by (simp add: segment_image_def ib_def footer_to_bytes_def)
  have e: "entries_ok es" "points_ok es ps" "es \<noteq> []" "length ?d < 2 ^ 64" using ok by (auto simp: run_ok_def)
  have m: "length MAGIC_BYTES = 4" by (simp add: MAGIC_BYTES_def)
  have idx: "index_from_bytes ib = (Ok (index_of ?ies) :: (segment_open_error, segment_index) res)"
    unfolding ib_def by (rule index_from_bytes_to_bytes [OF index_points_ok [OF ok]])
  have foot: "footer_from_bytes (le_bytes 8 (length ?d)) = (Ok (length ?d) :: (segment_open_error, nat) res)"
    using e(4) by (simp add: footer_from_bytes_def SEGMENT_FOOTER_LEN_def m read_le_def slice_chk_def le_nat_le_bytes)
  note cont = fs(2) [unfolded im]
  have first: "read_table_entry p 0 fs = (Ok (hd es), fs)"
    using read_table_entry_at [OF fs(1) cont e(1), of 0] e(3) by (simp add: hd_conv_nth)
  define i where "i = (if ps = [] then 0 else last ps)"
  have i: "i < length es" using e(2,3) by (auto simp: i_def points_ok_def)
  have start: "?ies = [] \<Longrightarrow> entry_offset es i = 0" "?ies \<noteq> [] \<Longrightarrow> ie_offset (last ?ies) = entry_offset es i"
    by (simp_all add: i_def index_points_def last_map)
  have entries: "read_table_entries p (entry_offset es i) (length ?d) fs = (Ok (drop i es), fs)"
    using read_table_entries_block [OF fs(1) cont e(1), of i "length es"] i
    by (simp add: entry_offset_all)
  have "last (drop i es) = last es" "drop i es \<noteq> []" using i by (simp_all add: last_drop)
  note last_e = this
  let ?seg = "\<lparr>sg_path = p, sg_index = index_of ?ies, sg_highest_sequence_no = highest_seq (drop i es) 0,
        sg_size = length (segment_image es ps), sg_data_block_end = length ?d, sg_level_number = l,
        sg_number = n, sg_first_key = se_key (hd es), sg_last_key = se_key (last es)\<rparr>"
  have rd: "on_open (fs_read p) fs = (Ok (segment_image es ps), fs)"
    by (simp add: on_open_def fs_read_no_faults [OF fs])
  have fst': "on_open (read_table_entry p 0) fs = (Ok (hd es), fs)"
    by (simp add: on_open_def first)
  have ent': "on_open (read_table_entries p (entry_offset es i) (length ?d)) fs = (Ok (drop i es), fs)"
    by (simp add: on_open_def entries)
  have "segment_from_file p fs = (Ok ?seg, fs)"
    using name last_e start ent'
    by (cases "?ies = []") (simp_all add: segment_from_file_def rd im SEGMENT_FOOTER_LEN_def m foot idx fst'
        sub_chk_def Let_def)
  then show ?thesis using e by (auto simp: segment_of_def index_of_def i_def)
qed

section \<open>Writing\<close>

lemma index_points_snoc:
  assumes "points_ok es ps"
  shows "index_points (es @ es') ps = index_points es ps"
proof -
  have "entry_offset (es @ es') i = entry_offset es i \<and> (es @ es') ! i = es ! i" if "i \<in> set ps" for i
    using assms that by (auto simp: points_ok_def nth_append entry_offset_def)
  then show ?thesis by (simp add: index_points_def)
qed

lemma points_ok_extend: "points_ok es ps \<Longrightarrow> points_ok (es @ es') ps"
  by (auto simp: points_ok_def)

lemma points_ok_add:
  assumes "points_ok es ps"
  shows "points_ok (es @ [e]) (ps @ [length es])"
  using assms by (auto simp: points_ok_def sorted_wrt_append)

lemma index_points_add:
  assumes "points_ok es ps"
  shows "index_of (index_points (es @ [e]) (ps @ [length es])) =
    add_index (se_key e) (length (data_block es)) (index_of (index_points es ps))"
proof -
  have "index_points (es @ [e]) (ps @ [length es]) = index_points es ps @
      [\<lparr>ie_key = se_key e, ie_offset = length (data_block es)\<rparr>]"
    using index_points_snoc [OF assms, of "[e]"] by (simp add: index_points_def entry_offset_def)
  then show ?thesis by (simp add: add_index_of)
qed

lemma data_block_single: "data_block [e] = le_bytes 4 (length (sst_to_bytes e)) @ sst_to_bytes e"
  by (simp add: data_block_def sst_frame_def length_sst_to_bytes)

text \<open>The entries of a table in the order of its keys.\<close>

definition table_entries :: "(rstring \<times> mem_value) list \<Rightarrow> rstring list \<Rightarrow> sst_entry list" where
  "table_entries table keys = map (\<lambda>k. sst_from k (the (map_of table k))) keys"

lemma memtable_writer_loop_image:
  assumes "0 < sparsity" "set keys \<subseteq> dom (map_of table)" "points_ok es ps"
  shows "\<exists>ps'. memtable_writer_loop sparsity table keys (length es) (length (data_block es)) (data_block es)
      (index_of (index_points es ps)) =
    Ok (data_block (es @ table_entries table keys), length (data_block (es @ table_entries table keys)),
        index_of (index_points (es @ table_entries table keys) ps')) \<and>
    points_ok (es @ table_entries table keys) ps'"
  using assms
proof (induction keys arbitrary: es ps)
  case Nil
  then show ?case by (auto simp: table_entries_def)
next
  case (Cons key keys)
  obtain v where v: "map_of table key = Some v" using Cons.prems by auto
  define e where "e = sst_from key v"
  have k: "se_key e = key" by (simp add: e_def sst_from_def)
  have te: "es @ table_entries table (key # keys) = (es @ [e]) @ table_entries table keys"
    by (simp add: table_entries_def v e_def)
  obtain ps1 where ps1: "points_ok (es @ [e]) ps1"
    "(if length es mod sparsity = 0 then add_index key (length (data_block es)) (index_of (index_points es ps))
      else index_of (index_points es ps)) = index_of (index_points (es @ [e]) ps1)"
    using points_ok_add [OF Cons.prems(3), of e] index_points_add [OF Cons.prems(3), of e]
      points_ok_extend [OF Cons.prems(3), of "[e]"] index_points_snoc [OF Cons.prems(3), of "[e]"] k
    by metis
  have len: "length (data_block (es @ [e])) = length (data_block es) + 4 + sst_len e"
    by (simp add: data_block_single length_sst_to_bytes)
  have db: "data_block (es @ [e]) = data_block es @ le_bytes 4 (length (sst_to_bytes e)) @ sst_to_bytes e"
    by (simp add: data_block_single)
  have step: "memtable_writer_loop sparsity table (key # keys) (length es) (length (data_block es)) (data_block es)
      (index_of (index_points es ps)) =
    memtable_writer_loop sparsity table keys (length (es @ [e])) (length (data_block (es @ [e])))
      (data_block (es @ [e])) (index_of (index_points (es @ [e]) ps1))"
    unfolding len db ps1(2) [symmetric]
    using Cons.prems(1) v by (simp add: Let_def length_sst_to_bytes add.assoc flip: e_def)
  show ?case
    unfolding step te by (rule Cons.IH) (use Cons.prems ps1(1) in auto)
qed

lemma sst_filename_eq:
  assumes "l < 16 ^ 8" "n < 16 ^ 8"
  shows "sst_filename l n = Ok (hexw 8 l @ hexw 8 n @ ''.sst'')"
  using assms by (simp add: sst_filename_def pad_hex_hexw)

lemma sst_filename_parses:
  assumes "l < 16 ^ 8" "n < 16 ^ 8"
  shows "level_and_segment_number (hexw 8 l @ hexw 8 n @ ''.sst'') = Ok (l, n)"
  using assms
  by (simp add: level_and_segment_number_def sst_parse_field_def slice_chk_def from_str_radix16_hexw)

definition sst_path :: "path \<Rightarrow> nat \<Rightarrow> nat \<Rightarrow> path" where
  "sst_path dir level_number segment_number = dir @ [hexw 8 level_number @ hexw 8 segment_number @ ''.sst'']"

text \<open>A table that a flush can write: distinct keys, and entries that fit the format.\<close>

definition table_ok :: "(rstring \<times> mem_value) list \<Rightarrow> bool" where
  "table_ok table \<longleftrightarrow> distinct (map fst table) \<and> (\<forall>(k, v) \<in> set table. sst_entry_ok (sst_from k v))"

definition sorted_entries :: "(rstring \<times> mem_value) list \<Rightarrow> sst_entry list" where
  "sorted_entries table = table_entries table (sort (map fst table))"

lemma sorted_entries_keys: "map se_key (sorted_entries table) = sort (map fst table)"
  by (simp add: sorted_entries_def table_entries_def sst_from_def comp_def)

lemma sorted_entries_ok:
  assumes "table_ok table"
  shows "entries_ok (sorted_entries table)"
  unfolding entries_ok_def
proof
  have "distinct (sort (map fst table))" using assms by (simp add: table_ok_def)
  then show "sorted_wrt (<) (map se_key (sorted_entries table))"
    unfolding sorted_entries_keys by (simp add: strict_sorted_iff)
  show "\<forall>e \<in> set (sorted_entries table). sst_entry_ok e"
  proof
    fix e assume "e \<in> set (sorted_entries table)"
    then obtain k where k: "k \<in> fst ` set table" "e = sst_from k (the (map_of table k))"
      by (auto simp: sorted_entries_def table_entries_def)
    then obtain v where "map_of table k = Some v" by (metis domD dom_map_of_conv_image_fst)
    with k show "sst_entry_ok e" using assms by (auto simp: table_ok_def dest: map_of_SomeD)
  qed
qed

lemma lookup_sorted_entries:
  assumes "table_ok table"
  shows "lookup_entry (sorted_entries table) key = map_option (sst_from key) (map_of table key)"
proof (cases "map_of table key")
  case None
  then have "key \<notin> set (map se_key (sorted_entries table))"
    unfolding sorted_entries_keys by (simp add: map_of_eq_None_iff)
  then show ?thesis
    using None by (auto simp: lookup_entry_def find_None_iff)
next
  case (Some v)
  then have "key \<in> set (map se_key (sorted_entries table))"
    unfolding sorted_entries_keys by (metis domI dom_map_of_conv_image_fst set_map set_sort)
  then obtain i where i: "i < length (sorted_entries table)" "se_key (sorted_entries table ! i) = key"
    by (auto simp: in_set_conv_nth)
  have "sorted_entries table ! i = sst_from key v"
    using i Some by (auto simp: sorted_entries_def table_entries_def sst_from_def)
  then show ?thesis
    using lookup_entry_nth [OF sorted_entries_ok [OF assms] i(1)] i(2) Some by simp
qed

lemma segment_file_from_memtable_image:
  assumes tab: "table_ok table" and sp: "0 < sparsity" and n: "n < 16 ^ 8"
    and fs: "fs_faults fs = []" "dir \<in> set (fs_dirs fs)" "fs_content fs (sst_path dir 0 n) = None"
  shows "\<exists>ps fs'. segment_file_from_memtable dir table n sparsity fs = (Ok (sst_path dir 0 n), fs') \<and>
    points_ok (sorted_entries table) ps \<and>
    fs_content fs' = (fs_content fs)(sst_path dir 0 n \<mapsto> segment_image (sorted_entries table) ps) \<and>
    fs_dirs fs' = fs_dirs fs \<and> fs_faults fs' = []"
proof -
  let ?p = "sst_path dir 0 n" and ?es = "sorted_entries table"
  have name: "sst_filename 0 n = (Ok (hexw 8 0 @ hexw 8 n @ ''.sst'') :: (io_error, string) res)"
    using sst_filename_eq [OF _ n, of 0] by simp
  have keys: "set (sort (map fst table)) \<subseteq> dom (map_of table)" by (simp add: dom_map_of_conv_image_fst)
  obtain ps where loop: "memtable_writer_loop sparsity table (sort (map fst table)) 0 0 [] index_new =
      (Ok (data_block ?es, length (data_block ?es), index_of (index_points ?es ps))
        :: (io_error, bytes \<times> nat \<times> segment_index) res)"
    and ps: "points_ok ?es ps"
    using memtable_writer_loop_image [OF sp keys, of "[]" "[]"]
    by (force simp: index_points_def index_of_Nil points_ok_def sorted_entries_def)
  have op: "fs_open_write ?p fs = (Ok 0, fs_store ?p [] fs)"
    using fs by (simp add: fs_open_write_def sst_path_def)
  have wr: "fs_write_front ?p bs (fs_store ?p [] fs) = (Ok (), fs_store ?p bs (fs_store ?p [] fs))" for bs
    using fs by (simp add: fs_write_front_def sst_path_def)
  have "segment_file_from_memtable dir table n sparsity fs =
      (Ok ?p, fs_store ?p (segment_image ?es ps) (fs_store ?p [] fs))"
    using op wr
    by (simp add: segment_file_from_memtable_def name loop Let_def segment_image_def flip: sst_path_def)
  moreover have "fs_content (fs_store ?p (segment_image ?es ps) (fs_store ?p [] fs)) =
      (fs_content fs)(?p \<mapsto> segment_image ?es ps)"
    by (rule ext) simp
  ultimately show ?thesis using ps fs(1) by fastforce
qed

end
