(* ===== verification/Mem_Flush.thy ===== *)
theory Mem_Flush
  imports Mem_Worker Sst_Lookup
begin

text \<open>
  The interface between the write worker and the store it flushes to (the trait
  \<open>MemTableFlush\<close> of \<open>src/storage_engine/memtable_flusher.rs\<close>), as a locale: what a flush
  promises of the lookups after it, and which files it may touch.  Inside the locale, the
  worker is proved to behave as a map, whatever flushes happen along the way.

  The contract is about runs without I/O errors; what errors do is the subject of
  \<open>Mem_Crash\<close> and of the properties of the worker.
\<close>

section \<open>The invariant only depends on the log's own directory\<close>

lemma wal_inv_cong_dir:
  assumes same: "\<forall>p. p \<noteq> [] \<and> butlast p = wal_dir w \<longrightarrow> fs_content fs' p = fs_content fs p"
    and dirs: "set (fs_dirs fs) \<subseteq> set (fs_dirs fs')" and inv: "wal_inv crc bases es w fs"
  shows "wal_inv crc bases es w fs'"
proof -
  have p: "fs_content fs' (wal_path (wal_dir w) (wal_segment_max_size w) b) =
      fs_content fs (wal_path (wal_dir w) (wal_segment_max_size w) b)" for b
    using same by simp
  have files: "wal_files bs w fs \<Longrightarrow> wal_files bs w fs'" for bs
    using same dirs by (auto simp: wal_files_def)
  have "wal_at bs b cs c w fs \<Longrightarrow> wal_at bs b cs c w fs'" for bs b cs c
    using files by (simp add: wal_at_def p)
  with inv show ?thesis unfolding wal_inv_def by blast
qed

section \<open>The bytes of a table\<close>

definition table_bytes :: "mem_map \<Rightarrow> nat" where
  "table_bytes table = sum_list (map (\<lambda>(k, v). sst_len (sst_from k v)) table)"

lemma table_bytes_update:
  "table_bytes (AList.update k v table) \<le> table_bytes table + sst_len (sst_from k v)"
  by (induction table) (auto simp: table_bytes_def)

lemma table_bytes_pos: "table \<noteq> [] \<Longrightarrow> 0 < table_bytes table"
  by (cases table) (auto simp: table_bytes_def sst_len_def split: option.splits)

lemma length_data_block: "length (data_block es) = sum_list (map (\<lambda>e. 4 + sst_len e) es)"
  by (induction es) (simp_all add: data_block_def length_sst_frame)

lemma length_sorted_entries:
  assumes "table_ok table"
  shows "length (data_block (sorted_entries table)) \<le> 2 * table_bytes table"
proof -
  have d: "distinct (map fst table)" using assms by (simp add: table_ok_def)
  let ?f = "\<lambda>k. 4 + sst_len (sst_from k (the (map_of table k)))"
  have "length (data_block (sorted_entries table)) = sum_list (map ?f (sort (map fst table)))"
    by (simp add: length_data_block sorted_entries_def table_entries_def comp_def)
  also have "\<dots> = sum_list (map ?f (map fst table))"
    using d by (simp add: sum_list_distinct_conv_sum_set del: map_map)
  also have "\<dots> = sum_list (map (\<lambda>(k, v). 4 + sst_len (sst_from k v)) table)"
    using d by (auto simp: comp_def intro!: arg_cong [where f = sum_list] map_cong)
  also have "\<dots> \<le> sum_list (map (\<lambda>(k, v). 2 * sst_len (sst_from k v)) table)"
    by (rule sum_list_mono) (auto simp: sst_len_def split: option.splits)
  also have "\<dots> = 2 * table_bytes table"
    by (induction table) (auto simp: table_bytes_def)
  finally show ?thesis .
qed

lemma table_ok_update:
  assumes "table_ok table" "sst_entry_ok (sst_from k v)"
  shows "table_ok (AList.update k v table)"
proof -
  have "set (AList.update k v table) \<subseteq> insert (k, v) (set table)"
    by (induction table) auto
  then show ?thesis
    using assms by (auto simp: table_ok_def distinct_update)
qed

section \<open>The contract\<close>

text \<open>Every stored value of a key in the table is older than the one in the table.\<close>

definition newer :: "mem_map \<Rightarrow> kv_map \<Rightarrow> bool" where
  "newer table m \<longleftrightarrow> (\<forall>k v v'. map_of table k = Some v \<and> m k = Some v' \<longrightarrow> mv_seq v' < mv_seq v)"

locale table_flush =
  fixes flush :: "'f flusher"
    and stored :: "'f \<Rightarrow> file_system \<Rightarrow> kv_map"
    and inv :: "'f \<Rightarrow> file_system \<Rightarrow> bool"
    and owned :: "path \<Rightarrow> bool"
  assumes stored_frame:
    "inv f fs \<Longrightarrow> fs_faults fs = [] \<Longrightarrow> fs_faults fs' = [] \<Longrightarrow> set (fs_dirs fs) \<subseteq> set (fs_dirs fs') \<Longrightarrow>
     (\<forall>p. owned p \<longrightarrow> fs_content fs' p = fs_content fs p) \<Longrightarrow> inv f fs' \<and> stored f fs' = stored f fs"
    and flush_stored:
    "inv f fs \<Longrightarrow> fs_faults fs = [] \<Longrightarrow> table_ok table \<Longrightarrow> table \<noteq> [] \<Longrightarrow> 2 * table_bytes table < 2 ^ 64 \<Longrightarrow>
     newer table (stored f fs) \<Longrightarrow> flush table (f, fs) = (Ok u, f', fs') \<Longrightarrow>
     inv f' fs' \<and> stored f' fs' = stored f fs ++ map_of table \<and>
     (\<forall>p. \<not> owned p \<longrightarrow> fs_content fs' p = fs_content fs p) \<and> fs_dirs fs' = fs_dirs fs \<and>
     fs_faults fs' = [] \<and> (fs_wf fs \<longrightarrow> fs_wf fs')"
begin

text \<open>What the store shows of a key: the table, and below it what was flushed.\<close>

definition view :: "'f \<Rightarrow> write_worker \<Rightarrow> file_system \<Rightarrow> kv_map" where
  "view f ww fs = stored f fs ++ map_of (ww_table ww)"

text \<open>Nothing the log ever held is lost: all of it, replayed, is what the store shows.\<close>

definition logged :: "crc_fun \<Rightarrow> 'f \<Rightarrow> write_worker \<Rightarrow> file_system \<Rightarrow> nat list \<Rightarrow> wal_entry list \<Rightarrow> wal_entry list \<Rightarrow> bool" where
  "logged crc f ww fs bases es0 es \<longleftrightarrow> worker_inv crc bases es0 es ww fs \<and>
     view f ww fs = map_of (snd (recover_entries (es0 @ es) (0, []))) \<and> (es0 @ es = [] \<longrightarrow> bases = [0]) \<and>
     (stored f fs = Map.empty \<longrightarrow> es0 = [])"

definition store_inv :: "crc_fun \<Rightarrow> 'f \<Rightarrow> write_worker \<Rightarrow> file_system \<Rightarrow> bool" where
  "store_inv crc f ww fs \<longleftrightarrow>
     inv f fs \<and> fs_faults fs = [] \<and> (\<exists>bases es0 es. logged crc f ww fs bases es0 es) \<and>
     (\<forall>p. butlast p = wal_dir (ww_wal ww) \<longrightarrow> \<not> owned p) \<and>
     table_ok (ww_table ww) \<and> newer (ww_table ww) (stored f fs) \<and>
     table_bytes (ww_table ww) \<le> ww_current_size ww \<and>
     0 < ww_max_size ww \<and> ww_max_size ww < 2 ^ 62 \<and> ww_current_size ww < 2 ^ 62 + 2 ^ 32 \<and>
     (ww_table ww = [] \<longrightarrow> ww_current_size ww = 0) \<and>
     (\<forall>k v. view f ww fs k = Some v \<longrightarrow> mv_seq v < wal_lsn (ww_wal ww))"

lemma store_inv_wal_active:
  assumes "store_inv crc f ww fs"
  shows "wal_keeps J (\<lambda>p. butlast p = wal_dir (ww_wal ww)) (wal_dir (ww_wal ww)) (ww_wal ww, fs) \<longleftrightarrow> J fs"
  using assms
  by (auto simp: store_inv_def logged_def worker_inv_def wal_inv_def wal_at_def wal_active_at_def wal_keeps_def)

text \<open>A flush does not change what is shown.\<close>

lemma run_flush_view:
  assumes si: "store_inv crc f ww fs" and run: "run_flush flush (f, ww, fs) = (Ok u, f', ww', fs')"
  shows "store_inv crc f' ww' fs' \<and> view f' ww' fs' = view f ww fs \<and> ww_wal ww' = ww_wal ww \<and>
    ww_max_size ww' = ww_max_size ww \<and> ww_current_size ww' < ww_max_size ww' \<and>
    (stored f' fs' = stored f fs \<or> stored f' fs' = view f ww fs)"
proof (cases "ww_max_size ww \<le> ww_current_size ww")
  case False
  with si run show ?thesis by (auto simp: run_flush_def)
next
  case True
  with run obtain u1 where fl: "flush (ww_table ww) (f, fs) = (Ok u1, f', fs')"
    and ww': "ww' = ww\<lparr>ww_current_size := 0, ww_table := []\<rparr>"
    by (auto simp: run_flush_def split: prod.splits res.splits)
  have ne: "ww_table ww \<noteq> []" and small: "2 * table_bytes (ww_table ww) < 2 ^ 64"
    using si True by (auto simp: store_inv_def)
  have st: "inv f' fs'" "stored f' fs' = view f ww fs"
    and fr: "\<forall>p. \<not> owned p \<longrightarrow> fs_content fs' p = fs_content fs p" "fs_dirs fs' = fs_dirs fs"
    "fs_faults fs' = []" "fs_wf fs \<longrightarrow> fs_wf fs'"
    using flush_stored [OF _ _ _ ne small _ fl] si by (auto simp: store_inv_def view_def)
  obtain bases es0 es where wi: "wal_inv crc bases (es0 @ es) (ww_wal ww) fs" "fs_wf fs"
    and lg: "view f ww fs = map_of (snd (recover_entries (es0 @ es) (0, [])))" "es0 @ es = [] \<longrightarrow> bases = [0]"
    using si by (auto simp: store_inv_def logged_def worker_inv_def)
  have "wal_inv crc bases (es0 @ es) (ww_wal ww) fs'"
    by (rule wal_inv_cong_dir [OF _ _ wi(1)]) (use fr si in \<open>auto simp: store_inv_def\<close>)
  then have "worker_inv crc bases (es0 @ es) [] ww' fs'"
    using fr(4) wi(2) by (simp add: worker_inv_def ww')
  moreover have v: "view f' ww' fs' = view f ww fs" by (simp add: view_def ww' st(2))
  moreover have "stored f' fs' \<noteq> Map.empty" using ne by (simp add: st(2) view_def)
  ultimately have "logged crc f' ww' fs' bases (es0 @ es) []" using lg by (simp add: logged_def)
  then show ?thesis
    using si st fr(3) v
    by (auto simp: store_inv_def ww' newer_def table_ok_def table_bytes_def)
qed

lemma run_flush_frame:
  assumes si: "store_inv crc f ww fs" and run: "run_flush flush (f, ww, fs) = (Ok u, f', ww', fs')"
  shows "(\<forall>p. \<not> owned p \<longrightarrow> fs_content fs' p = fs_content fs p) \<and> fs_dirs fs' = fs_dirs fs"
proof (cases "ww_max_size ww \<le> ww_current_size ww")
  case True
  with run obtain u1 where fl: "flush (ww_table ww) (f, fs) = (Ok u1, f', fs')"
    by (auto simp: run_flush_def split: prod.splits res.splits)
  have "ww_table ww \<noteq> []" "2 * table_bytes (ww_table ww) < 2 ^ 64" using si True by (auto simp: store_inv_def)
  from flush_stored [OF _ _ _ this _ fl] si show ?thesis by (auto simp: store_inv_def)
qed (use run in \<open>simp add: run_flush_def\<close>)

text \<open>A logged write leaves the files of the flusher alone.\<close>

lemma worker_log_outside:
  assumes si: "store_inv crc f ww fs" and run: "worker_log crc e (ww, fs) = (r, ww', fs')"
  shows "(\<forall>p. butlast p \<noteq> wal_dir (ww_wal ww) \<longrightarrow> fs_content fs' p = fs_content fs p) \<and>
    set (fs_dirs fs) \<subseteq> set (fs_dirs fs')"
proof -
  let ?w = "ww_wal ww"
  let ?wr = "\<lambda>p. butlast p = wal_dir ?w"
  have inv: "fs_invariant (fs_frame (fs_content fs) ?wr) ?wr" by unfold_locales (auto simp: fs_frame_def fs_tick_content)
  have "wal_keeps (fs_frame (fs_content fs) ?wr) ?wr (wal_dir ?w) (ww_wal ww', fs')"
    by (rule worker_log_frame [OF inv _ _ run]) (simp_all add: store_inv_wal_active [OF si] fs_frame_def)
  moreover
  let ?J = "\<lambda>fs'. set (fs_dirs fs) \<subseteq> set (fs_dirs fs')"
  have "wal_keeps ?J ?wr (wal_dir ?w) (ww_wal ww', fs')"
    by (rule worker_log_frame [OF _ _ _ run])
      (unfold_locales, use si in \<open>auto simp: fs_tick_frame store_inv_wal_active [OF si]\<close>)
  ultimately show ?thesis by (auto simp: wal_keeps_def fs_frame_def)
qed

lemma worker_log_owned:
  assumes si: "store_inv crc f ww fs" and run: "worker_log crc e (ww, fs) = (Ok old, ww', fs')"
  shows "\<forall>p. owned p \<longrightarrow> fs_content fs' p = fs_content fs p"
  using worker_log_outside [OF si run] si by (auto simp: store_inv_def)

text \<open>The store may be replaced under the worker by one that holds the same.\<close>

lemma store_inv_replace:
  assumes si: "store_inv crc f ww fs" and new: "inv f' fs'" "stored f' fs' = stored f fs"
    and fr: "fs_faults fs' = []" "\<forall>p. \<not> owned p \<longrightarrow> fs_content fs' p = fs_content fs p"
    "set (fs_dirs fs) \<subseteq> set (fs_dirs fs')" "fs_wf fs'"
  shows "store_inv crc f' ww fs' \<and> view f' ww fs' = view f ww fs"
proof -
  obtain bases es0 es where wi: "logged crc f ww fs bases es0 es"
    using si by (auto simp: store_inv_def)
  have "wal_inv crc bases (es0 @ es) (ww_wal ww) fs'"
    by (rule wal_inv_cong_dir) (use wi fr si in \<open>auto simp: store_inv_def logged_def worker_inv_def\<close>)
  moreover have "view f' ww fs' = view f ww fs" by (simp add: view_def new(2))
  ultimately have "logged crc f' ww fs' bases es0 es" "view f' ww fs' = view f ww fs"
    using wi fr(4) new(2) by (simp_all add: logged_def worker_inv_def)
  then show ?thesis using si new fr by (auto simp: store_inv_def)
qed

text \<open>A logged write takes effect, and nothing else does.\<close>

lemma worker_log_view:
  assumes si: "store_inv crc f ww fs" and full: "ww_current_size ww < ww_max_size ww"
    and job: "job_entry (wal_lsn (ww_wal ww)) job = Some e" "job_small job" "wal_lsn (ww_wal ww) < 2 ^ 64"
    and run: "worker_log crc e (ww, fs) = (Ok old, ww', fs')"
  shows "store_inv crc f ww' fs' \<and>
    view f ww' fs' = (view f ww fs)(we_key e \<mapsto> \<lparr>mv_value = we_value e, mv_seq = wal_lsn (ww_wal ww)\<rparr>) \<and>
    old = map_of (ww_table ww) (we_key e) \<and> stored f fs' = stored f fs"
proof -
  let ?w = "ww_wal ww" and ?v = "\<lparr>mv_value = we_value e, mv_seq = we_seq e\<rparr>"
  let ?wr = "\<lambda>p. butlast p = wal_dir ?w"
  obtain bases es0 es where lg: "logged crc f ww fs bases es0 es"
    using si by (auto simp: store_inv_def)
  then have wi: "worker_inv crc bases es0 es ww fs" by (simp add: logged_def)
  have sq: "we_seq e = wal_lsn ?w" using job_entry_seq [OF job(1)] .
  have small: "entry_small e" by (rule job_small_entry [OF job(2,1)])
  obtain bases' where w1: "worker_inv crc (bases @ bases') es0 (es @ [e]) ww' fs'"
    "old = map_of (ww_table ww) (we_key e)" "wal_lsn ?w < wal_lsn (ww_wal ww')"
    "ww_max_size ww' = ww_max_size ww" "wal_dir (ww_wal ww') = wal_dir ?w"
    using worker_log_inv [OF wi small sq _ run] job(3) sq by auto
  have tab: "ww_table ww' = AList.update (we_key e) ?v (ww_table ww)"
    and sz: "ww_current_size ww' = ww_current_size ww + sst_len (sst_from (we_key e) ?v)"
    using run by (auto simp: worker_log_def outcome on_wal_Ok worker_insert_def)
  have frame: "\<forall>p. owned p \<longrightarrow> fs_content fs' p = fs_content fs p"
    by (rule worker_log_owned [OF si run])
  have nf: "fs_faults fs' = []"
  proof -
    have "wal_keeps no_faults ?wr (wal_dir ?w) (ww_wal ww', fs')"
      by (rule worker_log_frame [OF _ _ _ run])
        (unfold_locales, use si in \<open>auto simp: no_faults_def store_inv_wal_active [OF si] store_inv_def\<close>)
    then show ?thesis by (simp add: wal_keeps_def no_faults_def)
  qed
  have dirs: "set (fs_dirs fs) \<subseteq> set (fs_dirs fs')"
    using worker_log_outside [OF si run] by blast
  have st: "inv f fs'" "stored f fs' = stored f fs"
    using stored_frame [OF _ _ nf dirs frame] si by (auto simp: store_inv_def)
  have v: "view f ww' fs' = (view f ww fs)(we_key e \<mapsto> ?v)"
    by (rule ext) (simp add: view_def st(2) tab map_add_def)
  have len: "sst_len (sst_from (we_key e) ?v) < 2 ^ 32"
    using small by (auto simp: entry_small_def length_wal_body sst_len_def sst_from_def split: option.splits)
  have ok: "sst_entry_ok (sst_from (we_key e) ?v)"
    using len job(3) sq by (simp add: sst_entry_ok_def sst_from_def)
  have bytes: "table_bytes (ww_table ww') \<le> ww_current_size ww'"
    using table_bytes_update [of "we_key e" ?v "ww_table ww"] si
    unfolding tab sz store_inv_def by linarith
  have nw: "newer (ww_table ww') (stored f fs')"
    unfolding newer_def
  proof (intro allI impI)
    fix k v v' assume a: "map_of (ww_table ww') k = Some v \<and> stored f fs' k = Some v'"
    show "mv_seq v' < mv_seq v"
    proof (cases "k = we_key e")
      case True
      have "\<exists>x. view f ww fs k = Some x \<and> mv_seq v' \<le> mv_seq x"
        using a si by (cases "map_of (ww_table ww) k")
          (auto simp: view_def st(2) store_inv_def newer_def less_imp_le map_add_def)
      then have "mv_seq v' < wal_lsn ?w" using si unfolding store_inv_def by (meson le_less_trans)
      then show ?thesis using a True sq by (auto simp: tab)
    next
      case False
      then show ?thesis using a si by (auto simp: tab st(2) store_inv_def newer_def)
    qed
  qed
  have "store_inv crc f ww' fs'"
    unfolding store_inv_def
  proof (intro conjI)
    show "\<forall>k v. view f ww' fs' k = Some v \<longrightarrow> mv_seq v < wal_lsn (ww_wal ww')"
    proof (intro allI impI)
      fix k v assume "view f ww' fs' k = Some v"
      then have "mv_seq v \<le> wal_lsn ?w"
        using si sq by (auto simp: v store_inv_def less_imp_le split: if_splits)
      then show "mv_seq v < wal_lsn (ww_wal ww')" using w1(3) by simp
    qed
    show "ww_current_size ww' < 2 ^ 62 + 2 ^ 32" using si full len by (simp add: sz store_inv_def)
    have "logged crc f ww' fs' (bases @ bases') es0 (es @ [e])"
      using w1(1) lg recover_entries_map [of "es0 @ es" e] st(2) by (simp add: logged_def v)
    then show "\<exists>bases es0 es. logged crc f ww' fs' bases es0 es" by blast
    show "table_ok (ww_table ww')"
      unfolding tab by (rule table_ok_update [OF _ ok]) (use si in \<open>simp add: store_inv_def\<close>)
    show "ww_table ww' = [] \<longrightarrow> ww_current_size ww' = 0"
      unfolding tab by (cases "ww_table ww") auto
  qed (use si st(1) nf w1 nw bytes in \<open>auto simp: store_inv_def\<close>)
  then show ?thesis using v w1(2) sq st(2) by simp
qed

lemma visible_job:
  "job_entry n job = Some e \<Longrightarrow>
    visible (m(we_key e \<mapsto> \<lparr>mv_value = we_value e, mv_seq = k\<rparr>)) = spec_job job (visible m)"
  by (cases job) (auto simp: visible_update)

lemma run_step_view:
  assumes si: "store_inv crc f ww fs" and small: "job_small job"
    and run: "run_step crc flush job (f, ww, fs) = (Ok (Some (Ok old), go), f', ww', fs')"
  shows "store_inv crc f' ww' fs' \<and> visible (view f' ww' fs') = spec_job job (visible (view f ww fs)) \<and>
    (stored f' fs' = stored f fs \<or> stored f' fs' = view f ww fs)"
proof -
  obtain r1 f1 ww1 fs1 where fl0: "run_flush flush (f, ww, fs) = (r1, f1, ww1, fs1)"
    by (cases "run_flush flush (f, ww, fs)") auto
  have r1: "r1 = Ok ()" and "(case run_job crc job (ww1, fs1) of (r, ww', fs') \<Rightarrow> (r, f1, ww', fs')) =
      (Ok (Some (Ok old), go), f', ww', fs')"
    using run by (auto simp: run_step_def bind_act_def fl0 split: res.splits)
  then have j: "run_job crc job (ww1, fs1) = (Ok (Some (Ok old), go), ww', fs')" and f': "f' = f1"
    by (auto split: prod.splits)
  note fl = fl0 [unfolded r1]
  note fv = run_flush_view [OF si fl]
  have ns: "job \<noteq> JobShutdown" using j by (auto simp: run_job_def)
  obtain e where e: "job_entry (wal_lsn (ww_wal ww1)) job = Some e" "wal_lsn (ww_wal ww1) < 2 ^ 64"
    "worker_log crc e (ww1, fs1) = (Ok old, ww', fs')"
    using run_job_Ok [OF j ns] by force
  from worker_log_view [OF _ _ e(1) small e(2,3), of f1] fv
  have "store_inv crc f1 ww' fs'"
    "view f1 ww' fs' = (view f ww fs)(we_key e \<mapsto> \<lparr>mv_value = we_value e, mv_seq = wal_lsn (ww_wal ww1)\<rparr>)"
    "stored f1 fs' = stored f fs \<or> stored f1 fs' = view f ww fs"
    by auto
  then show ?thesis using visible_job [OF e(1)] by (simp add: f')
qed

lemma run_loop_view:
  assumes "run_loop crc flush jobs (f, ww, fs) = (Ok replies, f', ww', fs')"
    and "store_inv crc f ww fs" "\<forall>job \<in> set jobs. job_small job" "\<forall>r \<in> set replies. is_Ok r"
  shows "store_inv crc f' ww' fs' \<and>
    visible (view f' ww' fs') = spec_run jobs replies (visible (view f ww fs))"
  using assms
proof (induction jobs arbitrary: f ww fs replies)
  case Nil
  then show ?case by simp
next
  case (Cons job jobs)
  show ?case
  proof (cases "job = JobShutdown")
    case True
    obtain r1 f1 ww1 fs1 where fl: "run_flush flush (f, ww, fs) = (r1, f1, ww1, fs1)"
      by (cases "run_flush flush (f, ww, fs)") auto
    have "r1 = Ok () \<and> f' = f1 \<and> ww' = ww1 \<and> fs' = fs1"
      using Cons.prems(1) fl by (simp add: True run_loop_shutdown del: run_loop.simps split: res.splits)
    then show ?thesis
      using run_flush_view [OF Cons.prems(2)] fl by (simp add: True spec_run_shutdown)
  next
    case False
    obtain reply go f1 ww1 fs1 where st: "run_step crc flush job (f, ww, fs) = (Ok (reply, go), f1, ww1, fs1)"
      and rest: "(if go then bind_act (run_loop crc flush jobs)
           (\<lambda>replies. ret (case reply of None \<Rightarrow> replies | Some r \<Rightarrow> r # replies)) else ret [])
           (f1, ww1, fs1) = (Ok replies, f', ww', fs')"
      using Cons.prems(1) by (auto simp: outcome)
    obtain r2 f2 ww2 fs2 where fl: "run_flush flush (f, ww, fs) = (r2, f2, ww2, fs2)"
      by (cases "run_flush flush (f, ww, fs)") auto
    have "run_job crc job (ww2, fs2) = (Ok (reply, go), ww1, fs1)"
      using st by (auto simp: run_step_def bind_act_def fl split: res.splits prod.splits)
    then obtain r where r: "reply = Some r" "go"
      using run_job_Ok [OF _ False] by metis
    obtain replies1 where r1: "run_loop crc flush jobs (f1, ww1, fs1) = (Ok replies1, f', ww', fs')"
      "replies = r # replies1"
      using rest r by (auto simp: outcome)
    obtain old where old: "r = Ok old" using Cons.prems(4) by (auto simp: r1(2) is_Ok_iff)
    have "store_inv crc f1 ww1 fs1 \<and> visible (view f1 ww1 fs1) = spec_job job (visible (view f ww fs))"
      using run_step_view [OF Cons.prems(2) _ st [unfolded r old]] Cons.prems(3) by simp
    then show ?thesis
      using Cons.IH [OF r1(1)] Cons.prems(3,4) False by (simp add: r1(2) old)
  qed
qed

text \<open>A start on the files that are left: the table is all that was shown.\<close>

lemma store_inv_restart:
  assumes si: "store_inv crc f ww fs" and lsn: "wal_lsn (ww_wal ww) < 2 ^ 63"
  obtains ww2 fs2 where "memtable_start crc (wal_dir (ww_wal ww)) (wal_segment_max_size (ww_wal ww)) 0
      (ww_max_size ww) fs = (Ok ww2, fs2)"
    "map_of (ww_table ww2) = view f ww fs" "stored f fs = Map.empty \<longrightarrow> ww2 = ww"
    "fs_content fs2 = fs_content fs" "fs_dirs fs2 = wal_dir (ww_wal ww) # fs_dirs fs" "fs_faults fs2 = []" "fs_wf fs2"
proof -
  let ?w = "ww_wal ww"
  obtain bases es0 es where lg: "logged crc f ww fs bases es0 es" and nf: "fs_faults fs = []"
    using si by (auto simp: store_inv_def)
  then have wi: "wal_inv crc bases (es0 @ es) ?w fs" "fs_wf fs"
    and tab: "recover_entries es (0, []) = (ww_current_size ww, ww_table ww)"
    and v: "view f ww fs = map_of (snd (recover_entries (es0 @ es) (0, [])))"
    and e0: "stored f fs = Map.empty \<longrightarrow> es0 = []"
    by (simp_all add: logged_def worker_inv_def)
  have ww: "worker_from (ww_table ww) ?w (ww_current_size ww) (ww_max_size ww) = ww"
    by (simp add: worker_from_def)
  show thesis
  proof (cases "es0 @ es = []")
    case False
    obtain sz table where r: "recover_entries (es0 @ es) (0, []) = (sz, table)"
      by (cases "recover_entries (es0 @ es) (0, [])")
    have "stored f fs = Map.empty \<longrightarrow> worker_from table ?w sz (ww_max_size ww) = ww"
      using e0 r tab ww by auto
    then show thesis
      using memtable_start_replays [OF wi nf False lsn, of "ww_max_size ww"] r v wi(2) nf
      by (intro that [of "worker_from table ?w sz (ww_max_size ww)"
            "fs\<lparr>fs_dirs := wal_dir ?w # fs_dirs fs\<rparr>"])
        (simp_all add: worker_from_def fs_content_def fun_eq_iff fs_wf_def)
  next
    case True
    then have "bases = [0]" using lg by (simp add: logged_def)
    then obtain cs c where at: "wal_at [] 0 cs c ?w fs" "wal_layout crc cs c []"
      using wi(1) True by (auto simp: wal_inv_def)
    have cs: "cs = []" using at(1) by (simp add: wal_at_def)
    have "c = []" using at(2) by (auto simp: wal_layout_def cs elim: wal_closed.cases)
    then have "wal_at [] 0 [] [] ?w fs" using at(1) cs by simp
    from memtable_start_empty_log [OF this wi(2) nf, of crc "ww_max_size ww"]
    obtain fs2 where m: "memtable_start crc (wal_dir ?w) (wal_segment_max_size ?w) 0 (ww_max_size ww) fs =
      (Ok (worker_from [] ?w 0 (ww_max_size ww)), fs2)" "fs_content fs2 = fs_content fs"
      "fs_dirs fs2 = wal_dir ?w # fs_dirs fs" "fs_wf fs2" "fs_faults fs2 = []" by blast
    have "worker_from [] ?w 0 (ww_max_size ww) = ww" using tab True ww by simp
    moreover have "ww_table ww = []" using tab True by simp
    ultimately show thesis using m v True by (intro that [OF m(1)]) auto
  qed
qed

end

end
