(* ===== verification/Sst_Table.thy ===== *)
theory Sst_Table
  imports Sst_Level Mem_Flush
begin

text \<open>
  The sorted table (\<open>SsTable\<close> of \<open>src/storage_engine/sstable.rs\<close>) and the flusher that
  writes a memtable to it (\<open>src/storage_engine/memtable_flusher.rs\<close>).  The locks and the
  reference counting are left out: an operation reads or replaces the container as a whole.
  The flusher is an instance of the contract of \<open>Mem_Flush\<close>.
\<close>

section \<open>The operations\<close>

fun first_hit :: "(rstring \<Rightarrow> sst_entry option fs_act) list \<Rightarrow> rstring \<Rightarrow> sst_entry option fs_act" where
  "first_hit [] key = ret None"
| "first_hit (g # gs) key = bind_act (g key) (\<lambda>r. case r of
     Some entry \<Rightarrow> ret (Some entry) | None \<Rightarrow> first_hit gs key)"

definition sstable_get :: "level_container \<Rightarrow> rstring \<Rightarrow> sst_entry option fs_act" where
  "sstable_get lc key =
    first_hit (overlapping_get (lc_level_zero lc) # map partitioned_get (lc_partitioned_levels lc)) key"

text \<open>The flag tells whether the compaction thread is notified.\<close>

definition find_and_add_segment :: "path \<Rightarrow> level_container \<Rightarrow> (level_container \<times> bool) fs_act" where
  "find_and_add_segment p lc = bind_act (add_to_level_zero p lc) (\<lambda>lc'. ret (lc', do_compact lc'))"

definition highest_segment_number :: "nat \<Rightarrow> level_container \<Rightarrow> ('e, nat) res" where
  "highest_segment_number level_number lc =
    (if level_number = 0 then Ok (highest_number (ol_segments (lc_level_zero lc)) 0)
     else bind_res (index_chk (lc_partitioned_levels lc) (level_number - 1)) (\<lambda>level.
       Ok (highest_number (pl_segments level) 0)))"

definition highest_sequence_number :: "level_container \<Rightarrow> nat" where
  "highest_sequence_number lc =
    fold (\<lambda>level m. let n = highest_sequence (pl_segments level) 0 in if n > m then n else m)
      (lc_partitioned_levels lc) (highest_sequence (ol_segments (lc_level_zero lc)) 0)"

definition flusher_flush :: "path \<Rightarrow> nat \<Rightarrow> level_container flusher" where
  "flusher_flush dir sparsity table = (\<lambda>(lc, fs).
    case bind_act (lift_res (highest_segment_number 0 lc)) (\<lambda>n.
         bind_act (segment_file_from_memtable dir table (n + 1) sparsity) (\<lambda>fp.
         find_and_add_segment fp lc)) fs of
      (Ok (lc', _), fs') \<Rightarrow> (Ok (), lc', fs')
    | (Err e, fs') \<Rightarrow> (Err e, lc, fs')
    | (Panic, fs') \<Rightarrow> (Panic, lc, fs'))"

section \<open>What the levels promise\<close>

text \<open>
  The interface of a level (the reading half of the trait \<open>SstLevel\<close>): under the level's
  invariant, \<open>get\<close> succeeds, changes nothing and returns the lookup in the level's contents.
\<close>

type_synonym entry_map = "rstring \<Rightarrow> sst_entry option"

locale sst_level =
  fixes level_get :: "'l \<Rightarrow> rstring \<Rightarrow> sst_entry option fs_act"
    and contents :: "'l \<Rightarrow> file_system \<Rightarrow> entry_map"
    and level_inv :: "'l \<Rightarrow> file_system \<Rightarrow> bool"
  assumes level_get_contents:
    "level_inv level fs \<Longrightarrow> fs_faults fs = [] \<Longrightarrow> level_get level key fs = (Ok (contents level fs key), fs)"
begin

text \<open>Levels are asked from the newest to the oldest.\<close>

lemma first_hit_levels:
  "(\<forall>level \<in> set levels. level_inv level fs) \<Longrightarrow> fs_faults fs = [] \<Longrightarrow>
   first_hit (map level_get levels) key fs =
     (Ok (fold (\<lambda>level m. m ++ contents level fs) (rev levels) Map.empty key), fs)"
proof (induction levels)
  case (Cons level levels)
  then show ?case
    by (auto simp: level_get_contents map_add_def split: option.split)
qed simp

end

text \<open>A segment whose file is in place.\<close>

definition segment_on :: "file_system \<Rightarrow> sst_segment \<Rightarrow> bool" where
  "segment_on fs seg \<longleftrightarrow> (\<exists>es ps rest. segment_of seg es ps \<and>
     fs_content fs (sg_path seg) = Some (data_block es @ rest))"

text \<open>What it holds, as the readers see it.\<close>

definition segment_map :: "file_system \<Rightarrow> sst_segment \<Rightarrow> entry_map" where
  "segment_map fs seg key = (case fst (segment_get seg key fs) of Ok r \<Rightarrow> r | _ \<Rightarrow> None)"

lemma segment_get_map:
  assumes "segment_on fs seg" "fs_faults fs = []"
  shows "segment_get seg key fs = (Ok (segment_map fs seg key), fs)"
proof -
  obtain es ps rest where s: "segment_of seg es ps" "fs_content fs (sg_path seg) = Some (data_block es @ rest)"
    using assms(1) by (auto simp: segment_on_def)
  show ?thesis by (simp add: segment_map_def segment_get_lookup [OF s(1) assms(2) s(2)])
qed

lemma segment_map_entries:
  assumes "segment_of seg es ps" "fs_faults fs = []" "fs_content fs (sg_path seg) = Some (data_block es @ rest)"
  shows "segment_map fs seg = lookup_entry es"
  by (rule ext) (simp add: segment_map_def segment_get_lookup [OF assms])

text \<open>Level zero: of two entries for a key the newer wins, on a tie the later segment's.\<close>

definition newest :: "sst_entry option \<Rightarrow> sst_entry option \<Rightarrow> sst_entry option" where
  "newest a b = (case b of None \<Rightarrow> a | Some y \<Rightarrow>
     (case a of None \<Rightarrow> b | Some x \<Rightarrow> if se_seq x > se_seq y then a else b))"

definition overlapping_contents :: "overlapping_level \<Rightarrow> file_system \<Rightarrow> entry_map" where
  "overlapping_contents level fs key =
    fold (\<lambda>seg a. newest a (segment_map fs seg key)) (ol_segments level) None"

definition overlapping_inv :: "overlapping_level \<Rightarrow> file_system \<Rightarrow> bool" where
  "overlapping_inv level fs \<longleftrightarrow> (\<forall>seg \<in> set (ol_segments level). segment_on fs seg)"

lemma overlapping_get_loop_contents:
  "(\<forall>seg \<in> set segs. segment_on fs seg) \<Longrightarrow> fs_faults fs = [] \<Longrightarrow>
   overlapping_get_loop segs key a fs = (Ok (fold (\<lambda>seg a. newest a (segment_map fs seg key)) segs a), fs)"
proof (induction segs arbitrary: a)
  case (Cons seg segs)
  then show ?case
    by (simp add: segment_get_map newest_def) (auto split: option.split)
qed simp

interpretation level_zero: sst_level overlapping_get overlapping_contents overlapping_inv
  by unfold_locales
    (simp add: overlapping_get_def overlapping_contents_def overlapping_inv_def overlapping_get_loop_contents)

lemma fold_newest:
  assumes "r = fold (\<lambda>seg a. newest a (f seg)) segs a"
  shows "(r = None \<longleftrightarrow> a = None \<and> (\<forall>seg \<in> set segs. f seg = None)) \<and>
    (\<forall>e. r = Some e \<longrightarrow> (a = Some e \<or> (\<exists>seg \<in> set segs. f seg = Some e)) \<and>
      (\<forall>x. a = Some x \<or> (\<exists>seg \<in> set segs. f seg = Some x) \<longrightarrow> se_seq x \<le> se_seq e))"
  using assms
proof (induction segs arbitrary: a)
  case (Cons seg segs)
  have "newest a (f seg) = None \<longleftrightarrow> a = None \<and> f seg = None"
    and "newest a (f seg) = Some x \<Longrightarrow> (a = Some x \<or> f seg = Some x) \<and>
      (\<forall>y. a = Some y \<or> f seg = Some y \<longrightarrow> se_seq y \<le> se_seq x)" for x
    by (auto simp: newest_def split: option.splits if_splits)
  with Cons.IH [of "newest a (f seg)"] Cons.prems show ?case
    by (cases "newest a (f seg)") (auto 4 4 dest: order_trans)
qed auto

text \<open>A partitioned level: the first segment whose key range contains the key.\<close>

definition partitioned_contents :: "partitioned_level \<Rightarrow> file_system \<Rightarrow> entry_map" where
  "partitioned_contents level fs key = (case find_containing_segment level key of
     None \<Rightarrow> None | Some seg \<Rightarrow> segment_map fs seg key)"

definition partitioned_inv :: "partitioned_level \<Rightarrow> file_system \<Rightarrow> bool" where
  "partitioned_inv level fs \<longleftrightarrow> (\<forall>seg \<in> set (pl_segments level). segment_on fs seg)"

lemma find_containing_segment_in:
  "find_containing_segment level key = Some seg \<Longrightarrow>
    seg \<in> set (pl_segments level) \<and> sg_first_key seg \<le> key \<and> key \<le> sg_last_key seg"
  by (auto simp: find_containing_segment_def find_Some_iff)

interpretation partitioned: sst_level partitioned_get partitioned_contents partitioned_inv
proof
  fix level fs key
  assume "partitioned_inv level fs" "fs_faults fs = []"
  then show "partitioned_get level key fs = (Ok (partitioned_contents level fs key), fs)"
    by (cases "find_containing_segment level key")
      (auto simp: partitioned_get_def partitioned_contents_def partitioned_inv_def segment_get_map
        dest!: find_containing_segment_in)
qed

section \<open>The contents of the table\<close>

definition sstable_inv :: "level_container \<Rightarrow> file_system \<Rightarrow> bool" where
  "sstable_inv lc fs \<longleftrightarrow> overlapping_inv (lc_level_zero lc) fs \<and>
     (\<forall>level \<in> set (lc_partitioned_levels lc). partitioned_inv level fs)"

definition upper_contents :: "partitioned_level list \<Rightarrow> file_system \<Rightarrow> entry_map" where
  "upper_contents levels fs = fold (\<lambda>level m. m ++ partitioned_contents level fs) (rev levels) Map.empty"

definition sstable_contents :: "level_container \<Rightarrow> file_system \<Rightarrow> entry_map" where
  "sstable_contents lc fs = upper_contents (lc_partitioned_levels lc) fs ++
     overlapping_contents (lc_level_zero lc) fs"

lemma sstable_get_contents:
  assumes "sstable_inv lc fs" "fs_faults fs = []"
  shows "sstable_get lc key fs = (Ok (sstable_contents lc fs key), fs)"
proof -
  have "overlapping_get (lc_level_zero lc) key fs = (Ok (overlapping_contents (lc_level_zero lc) fs key), fs)"
    by (rule level_zero.level_get_contents) (use assms in \<open>simp_all add: sstable_inv_def\<close>)
  moreover have "first_hit (map partitioned_get (lc_partitioned_levels lc)) key fs =
      (Ok (upper_contents (lc_partitioned_levels lc) fs key), fs)"
    unfolding upper_contents_def
    by (rule partitioned.first_hit_levels) (use assms in \<open>simp_all add: sstable_inv_def\<close>)
  ultimately show ?thesis
    by (simp add: sstable_get_def sstable_contents_def map_add_def split: option.split)
qed

section \<open>The flusher keeps the contract of the write worker\<close>

definition stored_value :: "sst_entry \<Rightarrow> mem_value" where
  "stored_value e = \<lparr>mv_value = se_value e, mv_seq = se_seq e\<rparr>"

definition sst_stored :: "level_container \<Rightarrow> file_system \<Rightarrow> kv_map" where
  "sst_stored lc fs key = map_option stored_value (sstable_contents lc fs key)"

definition all_segments :: "level_container \<Rightarrow> sst_segment set" where
  "all_segments lc = set (ol_segments (lc_level_zero lc)) \<union>
     (\<Union>level \<in> set (lc_partitioned_levels lc). set (pl_segments level))"

definition in_dir :: "path \<Rightarrow> path \<Rightarrow> bool" where
  "in_dir dir p \<longleftrightarrow> p \<noteq> [] \<and> butlast p = dir"

definition sst_inv :: "path \<Rightarrow> nat \<Rightarrow> level_container \<Rightarrow> file_system \<Rightarrow> bool" where
  "sst_inv dir sparsity lc fs \<longleftrightarrow> 0 < sparsity \<and> dir \<in> set (fs_dirs fs) \<and>
     (\<forall>seg \<in> all_segments lc. segment_on fs seg \<and> in_dir dir (sg_path seg)) \<and>
     (\<forall>n. highest_number (ol_segments (lc_level_zero lc)) 0 < n \<and> n < 16 ^ 8 \<longrightarrow>
        fs_content fs (sst_path dir 0 n) = None)"

lemma sst_inv_sstable: "sst_inv dir sparsity lc fs \<Longrightarrow> sstable_inv lc fs"
  by (auto simp: sst_inv_def sstable_inv_def overlapping_inv_def partitioned_inv_def all_segments_def)

text \<open>Segments read the same from any two file systems that agree on their files.\<close>

lemma segment_same:
  assumes "segment_on fs seg" "fs_faults fs = []" "fs_faults fs' = []"
    and "fs_content fs' (sg_path seg) = fs_content fs (sg_path seg)"
  shows "segment_on fs' seg \<and> segment_map fs' seg = segment_map fs seg"
proof -
  obtain es ps rest where s: "segment_of seg es ps" "fs_content fs (sg_path seg) = Some (data_block es @ rest)"
    using assms(1) by (auto simp: segment_on_def)
  have s': "fs_content fs' (sg_path seg) = Some (data_block es @ rest)" using s(2) assms(4) by simp
  show ?thesis
    using segment_map_entries [OF s(1) assms(2) s(2)] segment_map_entries [OF s(1) assms(3) s'] s(1) s'
    by (auto simp: segment_on_def)
qed

lemma fold_newest_cong:
  "(\<forall>seg \<in> set segs. segment_map fs' seg key = segment_map fs seg key) \<Longrightarrow>
   fold (\<lambda>seg a. newest a (segment_map fs' seg key)) segs a =
   fold (\<lambda>seg a. newest a (segment_map fs seg key)) segs a"
  by (induction segs arbitrary: a) auto

lemma partitioned_same:
  assumes "\<forall>seg \<in> set (pl_segments level). segment_map fs' seg = segment_map fs seg"
  shows "partitioned_contents level fs' = partitioned_contents level fs"
  using assms find_containing_segment_in [of level]
  by (intro ext) (auto simp: partitioned_contents_def split: option.split)

lemma upper_same:
  assumes "\<forall>level \<in> set levels. partitioned_contents level fs' = partitioned_contents level fs"
  shows "upper_contents levels fs' = upper_contents levels fs"
proof -
  have "fold (\<lambda>level m. m ++ partitioned_contents level fs') ls m =
      fold (\<lambda>level m. m ++ partitioned_contents level fs) ls m"
    if "\<forall>level \<in> set ls. partitioned_contents level fs' = partitioned_contents level fs" for ls m
    using that by (induction ls arbitrary: m) auto
  then show ?thesis using assms by (simp add: upper_contents_def)
qed

lemma sst_same:
  assumes inv: "sst_inv dir sparsity lc fs" and nf: "fs_faults fs = []" "fs_faults fs' = []"
    and same: "\<forall>seg \<in> all_segments lc. fs_content fs' (sg_path seg) = fs_content fs (sg_path seg)"
  shows "(\<forall>seg \<in> all_segments lc. segment_on fs' seg) \<and>
    upper_contents (lc_partitioned_levels lc) fs' = upper_contents (lc_partitioned_levels lc) fs \<and>
    overlapping_contents (lc_level_zero lc) fs' = overlapping_contents (lc_level_zero lc) fs"
proof -
  have m: "segment_on fs' seg \<and> segment_map fs' seg = segment_map fs seg" if "seg \<in> all_segments lc" for seg
    using segment_same [OF _ nf] inv same that by (auto simp: sst_inv_def)
  have "upper_contents (lc_partitioned_levels lc) fs' = upper_contents (lc_partitioned_levels lc) fs"
    by (intro upper_same ballI partitioned_same) (use m in \<open>auto simp: all_segments_def\<close>)
  moreover have "overlapping_contents (lc_level_zero lc) fs' = overlapping_contents (lc_level_zero lc) fs"
    unfolding overlapping_contents_def
    by (intro ext fold_newest_cong) (use m in \<open>auto simp: all_segments_def\<close>)
  ultimately show ?thesis using m by blast
qed

lemma sst_stored_frame:
  assumes "sst_inv dir sparsity lc fs" "fs_faults fs = []" "fs_faults fs' = []"
    and "set (fs_dirs fs) \<subseteq> set (fs_dirs fs')"
    and same: "\<forall>p. in_dir dir p \<longrightarrow> fs_content fs' p = fs_content fs p"
  shows "sst_inv dir sparsity lc fs' \<and> sst_stored lc fs' = sst_stored lc fs"
proof -
  have "\<forall>seg \<in> all_segments lc. fs_content fs' (sg_path seg) = fs_content fs (sg_path seg)"
    using assms by (auto simp: sst_inv_def)
  note s = sst_same [OF assms(1-3) this]
  have "sst_stored lc fs' = sst_stored lc fs"
    by (rule ext) (simp add: sst_stored_def sstable_contents_def s)
  moreover have "in_dir dir (sst_path dir 0 n)" for n by (simp add: in_dir_def sst_path_def)
  ultimately show ?thesis
    using assms s by (auto simp: sst_inv_def)
qed

lemma highest_number_mono: "m \<le> highest_number segs m"
  by (induction segs m rule: highest_number.induct) auto

lemma highest_number_append: "highest_number (xs @ [s]) m = max (highest_number xs m) (sg_number s)"
  by (induction xs m rule: highest_number.induct) (auto simp: max_def)

lemma sst_path_inject:
  assumes "m < 16 ^ 8" "n < 16 ^ 8" "sst_path dir 0 m = sst_path dir 0 n"
  shows "m = n"
  using assms hexw_inject [of m 8 n] by (simp add: sst_path_def)

lemma sst_path_parses:
  assumes "n < 16 ^ 8"
  shows "level_and_segment_number (last (sst_path dir 0 n)) = Ok (0, n)"
  using sst_filename_parses [of 0 n] assms by (simp add: sst_path_def)

lemma sorted_image_opens:
  assumes tab: "table_ok table" "table \<noteq> []" "2 * table_bytes table < 2 ^ 64" and n: "n < 16 ^ 8"
    and ps: "points_ok (sorted_entries table) ps" and fs: "fs_faults fs = []"
    "fs_content fs (sst_path dir 0 n) = Some (segment_image (sorted_entries table) ps)"
  shows "\<exists>seg. segment_from_file (sst_path dir 0 n) fs = (Ok seg, fs) \<and>
    segment_of seg (sorted_entries table) ps \<and> sg_path seg = sst_path dir 0 n \<and> sg_number seg = n"
proof -
  let ?p = "sst_path dir 0 n" and ?es = "sorted_entries table"
  have "length (map se_key ?es) \<noteq> 0" unfolding sorted_entries_keys using tab(2) by simp
  then have "?es \<noteq> []" by auto
  then have ok: "run_ok ?es ps"
    using sorted_entries_ok [OF tab(1)] ps length_sorted_entries [OF tab(1)] tab(3)
    by (simp add: run_ok_def)
  have name: "?p \<noteq> []" "level_and_segment_number (last ?p) = (Ok (0, n) :: (segment_open_error, nat \<times> nat) res)"
    using sst_path_parses [OF n] by (simp_all add: sst_path_def)
  show ?thesis using segment_from_file_image [OF ok fs name] by blast
qed

lemma flusher_flush_returns:
  assumes inv: "sst_inv dir sparsity lc fs" and nf: "fs_faults fs = []"
    and tab: "table_ok table" "table \<noteq> []" "2 * table_bytes table < 2 ^ 64"
    and n_eq: "n = highest_number (ol_segments (lc_level_zero lc)) 0 + 1" and n: "n < 16 ^ 8"
  shows "\<exists>ps seg fs'. flusher_flush dir sparsity table (lc, fs) =
      (Ok (), lc\<lparr>lc_level_zero := (lc_level_zero lc)\<lparr>ol_segments := ol_segments (lc_level_zero lc) @ [seg]\<rparr>\<rparr>, fs') \<and>
    segment_of seg (sorted_entries table) ps \<and> sg_path seg = sst_path dir 0 n \<and> sg_number seg = n \<and>
    fs_content fs' = (fs_content fs)(sst_path dir 0 n \<mapsto> segment_image (sorted_entries table) ps) \<and>
    fs_dirs fs' = fs_dirs fs \<and> fs_faults fs' = [] \<and> (fs_wf fs \<longrightarrow> fs_wf fs')"
proof -
  let ?p = "sst_path dir 0 n" and ?es = "sorted_entries table"
  have free: "fs_content fs ?p = None" and sp: "0 < sparsity" and dir: "dir \<in> set (fs_dirs fs)"
    using inv n by (auto simp: sst_inv_def n_eq)
  obtain ps fs2 where im: "segment_file_from_memtable dir table n sparsity fs = (Ok ?p, fs2)"
    "points_ok ?es ps" "fs_content fs2 = (fs_content fs)(?p \<mapsto> segment_image ?es ps)"
    "fs_dirs fs2 = fs_dirs fs" "fs_faults fs2 = []"
    using segment_file_from_memtable_image [OF tab(1) sp n nf dir free] by auto
  have c: "fs_content fs2 ?p = Some (segment_image ?es ps)" by (simp add: im(3))
  obtain seg where seg: "segment_from_file ?p fs2 = (Ok seg, fs2)" "segment_of seg ?es ps"
    "sg_path seg = ?p" "sg_number seg = n"
    using sorted_image_opens [OF tab n im(2,5) c] by blast
  have "flusher_flush dir sparsity table (lc, fs) =
      (Ok (), lc\<lparr>lc_level_zero := (lc_level_zero lc)\<lparr>ol_segments := ol_segments (lc_level_zero lc) @ [seg]\<rparr>\<rparr>, fs2)"
    using seg(1) im(1)
    by (simp add: flusher_flush_def highest_segment_number_def n_eq find_and_add_segment_def add_to_level_zero_def)
  moreover have "fs_wf fs \<longrightarrow> fs_wf fs2"
  proof
    assume "fs_wf fs"
    moreover have "keeps fs_wf (segment_file_from_memtable dir table n sparsity)"
      unfolding segment_file_from_memtable_def Let_def
      by (intro keeps_bind keeps_lift_res keeps_ret wf_fs.fs_open_write_keeps)
        (auto intro!: keeps_bind wf_fs.fs_write_front_keeps)
    ultimately show "fs_wf fs2" using im(1) by (auto simp: keeps_def dest!: spec [of _ fs])
  qed
  ultimately show ?thesis using seg im by blast
qed

lemma flusher_flush_Ok:
  assumes inv: "sst_inv dir sparsity lc fs" and nf: "fs_faults fs = []"
    and tab: "table_ok table" "table \<noteq> []" "2 * table_bytes table < 2 ^ 64"
    and run: "flusher_flush dir sparsity table (lc, fs) = (Ok u, lc', fs')"
  shows "\<exists>n ps seg. n = highest_number (ol_segments (lc_level_zero lc)) 0 + 1 \<and> n < 16 ^ 8 \<and>
    lc' = lc\<lparr>lc_level_zero := (lc_level_zero lc)\<lparr>ol_segments := ol_segments (lc_level_zero lc) @ [seg]\<rparr>\<rparr> \<and>
    segment_of seg (sorted_entries table) ps \<and> sg_path seg = sst_path dir 0 n \<and> sg_number seg = n \<and>
    fs_content fs' = (fs_content fs)(sst_path dir 0 n \<mapsto> segment_image (sorted_entries table) ps) \<and>
    fs_dirs fs' = fs_dirs fs \<and> fs_faults fs' = [] \<and> (fs_wf fs \<longrightarrow> fs_wf fs')"
proof -
  define n where "n = highest_number (ol_segments (lc_level_zero lc)) 0 + 1"
  obtain r2 fs2 where w: "segment_file_from_memtable dir table n sparsity fs = (r2, fs2)"
    by (cases "segment_file_from_memtable dir table n sparsity fs")
  from run w obtain fp where "r2 = Ok fp"
    by (cases r2) (auto simp: flusher_flush_def highest_segment_number_def n_def split: prod.splits res.splits)
  then have "\<exists>s. pad_hex 8 n = (Ok s :: (io_error, string) res)"
    using w by (auto simp: segment_file_from_memtable_def outcome sst_filename_def bind_res_Ok_iff)
  then have n: "n < 16 ^ 8" using pad_hex_Ok_bound by blast
  obtain ps seg gs where r: "flusher_flush dir sparsity table (lc, fs) =
      (Ok (), lc\<lparr>lc_level_zero := (lc_level_zero lc)\<lparr>ol_segments := ol_segments (lc_level_zero lc) @ [seg]\<rparr>\<rparr>, gs)"
    "segment_of seg (sorted_entries table) ps" "sg_path seg = sst_path dir 0 n" "sg_number seg = n"
    "fs_content gs = (fs_content fs)(sst_path dir 0 n \<mapsto> segment_image (sorted_entries table) ps)"
    "fs_dirs gs = fs_dirs fs" "fs_faults gs = []" "fs_wf fs \<longrightarrow> fs_wf gs"
    using flusher_flush_returns [OF inv nf tab n_def n] by blast
  have "fs' = gs" using run r(1) by simp
  show ?thesis
    by (rule exI [of _ n], rule exI [of _ ps], rule exI [of _ seg]) (use r run n \<open>fs' = gs\<close> n_def in simp)
qed

lemma overlapping_contents_snoc:
  "overlapping_contents (level\<lparr>ol_segments := segs @ [seg]\<rparr>) fs key =
    newest (overlapping_contents (level\<lparr>ol_segments := segs\<rparr>) fs key) (segment_map fs seg key)"
  by (simp add: overlapping_contents_def)

lemma flusher_flush_stored:
  assumes inv: "sst_inv dir sparsity lc fs" and nf: "fs_faults fs = []"
    and tab: "table_ok table" "table \<noteq> []" "2 * table_bytes table < 2 ^ 64"
    and newer: "newer table (sst_stored lc fs)"
    and run: "flusher_flush dir sparsity table (lc, fs) = (Ok u, lc', fs')"
  shows "sst_inv dir sparsity lc' fs' \<and> sst_stored lc' fs' = sst_stored lc fs ++ map_of table \<and>
     (\<forall>p. \<not> in_dir dir p \<longrightarrow> fs_content fs' p = fs_content fs p) \<and> fs_dirs fs' = fs_dirs fs \<and>
     fs_faults fs' = [] \<and> (fs_wf fs \<longrightarrow> fs_wf fs')"
proof -
  obtain n ps seg where f: "n = highest_number (ol_segments (lc_level_zero lc)) 0 + 1" "n < 16 ^ 8"
    "lc' = lc\<lparr>lc_level_zero := (lc_level_zero lc)\<lparr>ol_segments := ol_segments (lc_level_zero lc) @ [seg]\<rparr>\<rparr>"
    "segment_of seg (sorted_entries table) ps" "sg_path seg = sst_path dir 0 n" "sg_number seg = n"
    "fs_content fs' = (fs_content fs)(sst_path dir 0 n \<mapsto> segment_image (sorted_entries table) ps)"
    "fs_dirs fs' = fs_dirs fs" "fs_faults fs' = []" "fs_wf fs \<longrightarrow> fs_wf fs'"
    using flusher_flush_Ok [OF inv nf tab run] by blast
  let ?p = "sst_path dir 0 n"
  have new: "fs_content fs ?p = None" using inv f(1,2) by (simp add: sst_inv_def)
  have old: "\<forall>s \<in> all_segments lc. fs_content fs' (sg_path s) = fs_content fs (sg_path s)"
  proof
    fix s assume "s \<in> all_segments lc"
    then have "segment_on fs s" using inv by (simp add: sst_inv_def)
    then have "sg_path s \<noteq> ?p" using new by (auto simp: segment_on_def)
    then show "fs_content fs' (sg_path s) = fs_content fs (sg_path s)" by (simp add: f(7))
  qed
  note same = sst_same [OF inv nf f(9) old]
  have img: "fs_content fs' (sg_path seg) =
      Some (data_block (sorted_entries table) @ drop (length (data_block (sorted_entries table)))
        (segment_image (sorted_entries table) ps))"
    by (simp add: f(5,7) segment_image_def)
  have on: "segment_on fs' seg" unfolding segment_on_def using f(4) img by blast
  have map: "segment_map fs' seg key = map_option (sst_from key) (map_of table key)" for key
    unfolding segment_map_entries [OF f(4,9) img] by (rule lookup_sorted_entries [OF tab(1)])
  have zero: "overlapping_contents (lc_level_zero lc') fs' key =
      newest (overlapping_contents (lc_level_zero lc) fs key) (map_option (sst_from key) (map_of table key))" for key
    using same by (simp add: f(3) overlapping_contents_snoc map)
  have st: "sst_stored lc' fs' key = (sst_stored lc fs ++ map_of table) key" for key
  proof (cases "map_of table key")
    case None
    then show ?thesis
      using same zero [of key]
      by (simp add: sst_stored_def sstable_contents_def map_add_def newest_def f(3))
  next
    case (Some v)
    have "se_seq x < mv_seq v" if "overlapping_contents (lc_level_zero lc) fs key = Some x" for x
    proof -
      have "sst_stored lc fs key = Some (stored_value x)"
        by (simp add: sst_stored_def sstable_contents_def map_add_def that)
      then have "mv_seq (stored_value x) < mv_seq v" using newer Some by (simp add: newer_def)
      then show ?thesis by (simp add: stored_value_def)
    qed
    then have "newest (overlapping_contents (lc_level_zero lc) fs key) (Some (sst_from key v)) = Some (sst_from key v)"
      by (auto simp: newest_def sst_from_def split: option.split)
    then show ?thesis
      using zero [of key] Some
      by (simp add: sst_stored_def sstable_contents_def map_add_def stored_value_def sst_from_def)
  qed
  have segs: "all_segments lc' = insert seg (all_segments lc)"
    by (auto simp: all_segments_def f(3))
  have high: "highest_number (ol_segments (lc_level_zero lc')) 0 = n"
    by (simp add: f(1,3,6) highest_number_append)
  have "sst_inv dir sparsity lc' fs'"
    unfolding sst_inv_def
  proof (intro conjI ballI allI impI)
    fix m assume m: "highest_number (ol_segments (lc_level_zero lc')) 0 < m \<and> m < 16 ^ 8"
    then have "sst_path dir 0 m \<noteq> ?p" using sst_path_inject [of m n dir] f(2) high by auto
    moreover have "fs_content fs (sst_path dir 0 m) = None"
      using inv m high f(1) by (simp add: sst_inv_def)
    ultimately show "fs_content fs' (sst_path dir 0 m) = None" by (simp add: f(7))
  next
    fix s assume "s \<in> all_segments lc'"
    then show "segment_on fs' s" "in_dir dir (sg_path s)"
      using on same inv by (auto simp: segs f(5) sst_inv_def in_dir_def sst_path_def)
  qed (use inv f(8) in \<open>simp_all add: sst_inv_def\<close>)
  moreover have "\<forall>p. \<not> in_dir dir p \<longrightarrow> fs_content fs' p = fs_content fs p"
    by (auto simp: f(7) in_dir_def sst_path_def)
  ultimately show ?thesis using st f(8-10) by (simp add: fun_eq_iff)
qed

interpretation sst_flush: table_flush "flusher_flush dir sparsity" sst_stored "sst_inv dir sparsity" "in_dir dir"
  for dir sparsity
proof
  fix lc fs fs'
  assume "sst_inv dir sparsity lc fs" "fs_faults fs = []" "fs_faults fs' = []" "set (fs_dirs fs) \<subseteq> set (fs_dirs fs')"
    "\<forall>p. in_dir dir p \<longrightarrow> fs_content fs' p = fs_content fs p"
  then show "sst_inv dir sparsity lc fs' \<and> sst_stored lc fs' = sst_stored lc fs"
    by (rule sst_stored_frame)
next
  fix lc fs table and u :: unit and lc' fs'
  assume "sst_inv dir sparsity lc fs" "fs_faults fs = []" "table_ok table" "table \<noteq> []"
    "2 * table_bytes table < 2 ^ 64" "newer table (sst_stored lc fs)"
    "flusher_flush dir sparsity table (lc, fs) = (Ok u, lc', fs')"
  then show "sst_inv dir sparsity lc' fs' \<and> sst_stored lc' fs' = sst_stored lc fs ++ map_of table \<and>
     (\<forall>p. \<not> in_dir dir p \<longrightarrow> fs_content fs' p = fs_content fs p) \<and> fs_dirs fs' = fs_dirs fs \<and>
     fs_faults fs' = [] \<and> (fs_wf fs \<longrightarrow> fs_wf fs')"
    by (rule flusher_flush_stored)
qed

end
