(* ===== verification/Storage_Engine.thy ===== *)
theory Storage_Engine
  imports Sst_Table
begin

text \<open>
  The storage engine (\<open>src/storage_engine.rs\<close>) on top of the memtable, its write worker, the
  sorted table and the flusher.  The engine state holds the level container, the write
  worker's state and what panics leave behind: a writer thread that died, a poisoned table
  lock, and the number of engine threads that still take jobs.  A command runs from the
  moment an engine thread receives it to its answer; \<open>get_torn\<close> is the reading path with
  other commands between its two lookups.
\<close>

section \<open>The state\<close>

datatype command = CmdDelete rstring | CmdGet rstring | CmdPut rstring rstring

datatype engine_error = EngIoError | EngNotFound | EngShutdown

record engine_conf =
  cf_dir :: path
  cf_segment_size :: nat
  cf_memtable_max_size :: nat
  cf_sparsity :: nat
  cf_level_zero_size :: nat
  cf_level_factor :: nat

record engine =
  en_levels :: level_container
  en_worker :: write_worker
  en_writer_alive :: bool
  en_poisoned :: bool
  en_threads :: nat

type_synonym 'a engine_act = "(engine \<times> file_system, io_error, 'a) act"

section \<open>The memtable as the engine sees it\<close>

text \<open>
  A job is sent to the writer thread and its reply awaited.  A panic of the writer drops the
  channel (\<open>NotConnected\<close>, now and for every later job); a panic inside the flush happens
  under the table lock and poisons it.
\<close>

definition memtable_submit :: "crc_fun \<Rightarrow> level_container flusher \<Rightarrow> write_job \<Rightarrow> mem_value option engine_act" where
  "memtable_submit crc flush job = (\<lambda>(en, fs).
     if \<not> en_writer_alive en then (Err NotConnected, en, fs)
     else case run_flush flush (en_levels en, en_worker en, fs) of
       (Ok _, lc, ww, fs1) \<Rightarrow>
         (case run_job crc job (ww, fs1) of
            (Ok (Some reply, go), ww', fs2) \<Rightarrow>
              (reply, en\<lparr>en_levels := lc, en_worker := ww', en_writer_alive := go\<rparr>, fs2)
          | (_, ww', fs2) \<Rightarrow>
              (Err NotConnected, en\<lparr>en_levels := lc, en_worker := ww', en_writer_alive := False\<rparr>, fs2))
     | (_, lc, ww, fs1) \<Rightarrow>
         (Err NotConnected, en\<lparr>en_levels := lc, en_worker := ww, en_writer_alive := False,
            en_poisoned := True\<rparr>, fs1))"

definition memtable_put :: "crc_fun \<Rightarrow> level_container flusher \<Rightarrow> rstring \<Rightarrow> rstring \<Rightarrow> mem_value option engine_act" where
  "memtable_put crc flush key v = memtable_submit crc flush (JobPut key v)"

definition memtable_delete :: "crc_fun \<Rightarrow> level_container flusher \<Rightarrow> rstring \<Rightarrow> mem_value option engine_act" where
  "memtable_delete crc flush key = memtable_submit crc flush (JobDelete key)"

text \<open>\<open>read().unwrap()\<close> on the table lock.\<close>

definition memtable_read :: "rstring \<Rightarrow> mem_value option engine_act" where
  "memtable_read key = (\<lambda>(en, fs).
     if en_poisoned en then (Panic, en, fs) else (Ok (memtable_get (ww_table (en_worker en)) key), en, fs))"

section \<open>The commands\<close>

definition table_read :: "rstring \<Rightarrow> sst_entry option engine_act" where
  "table_read key = (\<lambda>(en, fs). case sstable_get (en_levels en) key fs of (r, fs') \<Rightarrow> (r, en, fs'))"

definition engine_get :: "rstring \<Rightarrow> rstring option engine_act" where
  "engine_get key = bind_act (memtable_read key) (\<lambda>r. case r of
     Some mvalue \<Rightarrow> ret (mv_value mvalue)
   | None \<Rightarrow> bind_act (table_read key) (\<lambda>opt. ret (Option.bind opt se_value)))"

definition engine_put :: "crc_fun \<Rightarrow> level_container flusher \<Rightarrow> rstring \<Rightarrow> rstring \<Rightarrow> rstring option engine_act" where
  "engine_put crc flush key v =
    bind_act (memtable_put crc flush key v) (\<lambda>opt. ret (Option.bind opt mv_value))"

definition engine_delete :: "crc_fun \<Rightarrow> level_container flusher \<Rightarrow> rstring \<Rightarrow> rstring option engine_act" where
  "engine_delete crc flush key =
    bind_act (memtable_delete crc flush key) (\<lambda>opt. ret (Option.bind opt mv_value))"

fun engine_command :: "crc_fun \<Rightarrow> level_container flusher \<Rightarrow> command \<Rightarrow> rstring option engine_act" where
  "engine_command crc flush (CmdDelete key) = engine_delete crc flush key"
| "engine_command crc flush (CmdGet key) = engine_get key"
| "engine_command crc flush (CmdPut key v) = engine_put crc flush key v"

text \<open>
  \<open>get\<close>, \<open>put\<close> and \<open>delete\<close> of the \<open>Store\<close> implementation: the command is sent to the engine
  threads and the answer mapped; a thread that panics is gone and its caller sees a closed
  channel, as do all callers when no thread is left.
\<close>

definition engine_exec ::
    "crc_fun \<Rightarrow> level_container flusher \<Rightarrow> command \<Rightarrow> (engine \<times> file_system, engine_error, rstring option) act" where
  "engine_exec crc flush cmd = (\<lambda>(en, fs).
     if en_threads en = 0 then (Err EngShutdown, en, fs)
     else case engine_command crc flush cmd (en, fs) of
       (Ok r, s) \<Rightarrow> (Ok r, s)
     | (Err e, s) \<Rightarrow> (Err EngIoError, s)
     | (Panic, en', fs') \<Rightarrow> (Err EngShutdown, en'\<lparr>en_threads := en_threads en' - 1\<rparr>, fs'))"

fun to_rc :: "engine_error \<Rightarrow> 8 word" where
  "to_rc EngIoError = 1"
| "to_rc EngNotFound = 2"
| "to_rc EngShutdown = 3"

fun engine_run ::
    "crc_fun \<Rightarrow> level_container flusher \<Rightarrow> command list \<Rightarrow> engine \<times> file_system \<Rightarrow>
     (engine_error, rstring option) res list \<times> engine \<times> file_system" where
  "engine_run crc flush [] s = ([], s)"
| "engine_run crc flush (cmd # cmds) s =
    (case engine_exec crc flush cmd s of (r, s') \<Rightarrow>
       (case engine_run crc flush cmds s' of (answers, s'') \<Rightarrow> (r # answers, s'')))"

section \<open>Starting and stopping\<close>

definition conf_flusher :: "engine_conf \<Rightarrow> level_container flusher" where
  "conf_flusher conf = flusher_flush (cf_dir conf) (cf_sparsity conf)"

text \<open>None: a merge at start does not end.\<close>

definition storage_engine_new ::
    "crc_fun \<Rightarrow> (nat list \<Rightarrow> nat list) \<Rightarrow> engine_conf \<Rightarrow> engine part_act" where
  "storage_engine_new crc order conf fs =
    Option.bind (container_from_dir order (cf_dir conf @ [''SSTable'']) (cf_level_zero_size conf)
        (cf_level_factor conf) (cf_sparsity conf) fs) (\<lambda>(r, fs1). Some (case r of
      Ok lc \<Rightarrow> bind_act (memtable_start crc (cf_dir conf @ [''WAL'']) (cf_segment_size conf)
          (highest_sequence_number lc) (cf_memtable_max_size conf)) (\<lambda>ww.
        ret \<lparr>en_levels = lc, en_worker = ww, en_writer_alive = True, en_poisoned = False,
          en_threads = 6\<rparr>) fs1
    | Err e \<Rightarrow> (Err e, fs1)
    | Panic \<Rightarrow> (Panic, fs1)))"

text \<open>The engine threads end, the memtable is dropped and its writer flushes what is left.\<close>

definition engine_shutdown :: "crc_fun \<Rightarrow> level_container flusher \<Rightarrow> engine \<times> file_system \<Rightarrow> engine \<times> file_system" where
  "engine_shutdown crc flush = (\<lambda>(en, fs).
     if en_writer_alive en then
       (case worker_run crc flush [JobShutdown] (en_levels en, en_worker en, fs) of
          (_, lc, ww, fs') \<Rightarrow>
            (en\<lparr>en_levels := lc, en_worker := ww, en_writer_alive := False, en_threads := 0\<rparr>, fs'))
     else (en\<lparr>en_threads := 0\<rparr>, fs))"

section \<open>The engine as a map\<close>

fun spec_command :: "command \<Rightarrow> kv \<Rightarrow> kv" where
  "spec_command (CmdDelete key) m = m(key := None)"
| "spec_command (CmdGet key) m = m"
| "spec_command (CmdPut key v) m = m(key \<mapsto> v)"

text \<open>Every answer to a \<open>get\<close> is what the commands before it left.\<close>

fun spec_answers :: "command list \<Rightarrow> (engine_error, rstring option) res list \<Rightarrow> kv \<Rightarrow> bool" where
  "spec_answers [] answers m \<longleftrightarrow> answers = []"
| "spec_answers (cmd # cmds) [] m \<longleftrightarrow> False"
| "spec_answers (cmd # cmds) (r # answers) m \<longleftrightarrow>
    (case cmd of CmdGet key \<Rightarrow> r = Ok (m key) | _ \<Rightarrow> True) \<and> spec_answers cmds answers (spec_command cmd m)"

definition spec_final :: "command list \<Rightarrow> kv \<Rightarrow> kv" where
  "spec_final cmds m = fold spec_command cmds m"

definition command_small :: "command \<Rightarrow> bool" where
  "command_small cmd = (case cmd of CmdDelete key \<Rightarrow> job_small (JobDelete key) | CmdGet key \<Rightarrow> True
     | CmdPut key v \<Rightarrow> job_small (JobPut key v))"

definition engine_view :: "engine \<Rightarrow> file_system \<Rightarrow> kv" where
  "engine_view en fs = visible (sst_stored (en_levels en) fs ++ map_of (ww_table (en_worker en)))"

definition engine_stored :: "engine \<Rightarrow> file_system \<Rightarrow> kv" where
  "engine_stored en fs = visible (sst_stored (en_levels en) fs)"

definition engine_inv :: "crc_fun \<Rightarrow> engine_conf \<Rightarrow> engine \<Rightarrow> file_system \<Rightarrow> bool" where
  "engine_inv crc conf en fs \<longleftrightarrow> \<not> en_poisoned en \<and> en_writer_alive en \<and> 0 < en_threads en \<and>
     sst_flush.store_inv (cf_dir conf) (cf_sparsity conf) crc (en_levels en) (en_worker en) fs"

lemma engine_view_eq: "engine_view en fs = visible (sst_flush.view (en_levels en) (en_worker en) fs)"
  by (simp add: engine_view_def sst_flush.view_def)

lemma engine_get_sstable:
  assumes "\<not> en_poisoned en" "sstable_inv (en_levels en) fs" "fs_faults fs = []"
  shows "engine_get key (en, fs) = (Ok (engine_view en fs key), en, fs)"
proof (cases "map_of (ww_table (en_worker en)) key")
  case (Some v)
  then show ?thesis
    using assms by (simp add: engine_get_def memtable_read_def memtable_get_def engine_view_def visible_def)
next
  case None
  show ?thesis
    using assms None sstable_get_contents [OF assms(2,3), of key]
    by (cases "sstable_contents (en_levels en) fs key")
      (simp_all add: engine_get_def memtable_read_def memtable_get_def table_read_def
        engine_view_def visible_def map_add_def sst_stored_def stored_value_def)
qed

lemma engine_get_view:
  assumes "engine_inv crc conf en fs"
  shows "engine_get key (en, fs) = (Ok (engine_view en fs key), en, fs)"
  by (rule engine_get_sstable)
    (use assms in \<open>auto simp: engine_inv_def sst_flush.store_inv_def dest: sst_inv_sstable\<close>)

lemma memtable_submit_view:
  assumes inv: "engine_inv crc conf en fs" and small: "job_small job" and ns: "job \<noteq> JobShutdown"
    and run: "memtable_submit crc (conf_flusher conf) job (en, fs) = (Ok old, en', fs')"
  shows "engine_inv crc conf en' fs' \<and> engine_view en' fs' = spec_job job (engine_view en fs) \<and>
    (engine_stored en' fs' = engine_stored en fs \<or> engine_stored en' fs' = engine_view en fs)"
proof -
  let ?flush = "flusher_flush (cf_dir conf) (cf_sparsity conf)"
  have si: "sst_flush.store_inv (cf_dir conf) (cf_sparsity conf) crc (en_levels en) (en_worker en) fs"
    using inv by (simp add: engine_inv_def)
  obtain r1 lc ww fs1 where fl: "run_flush ?flush (en_levels en, en_worker en, fs) = (r1, lc, ww, fs1)"
    by (cases "run_flush ?flush (en_levels en, en_worker en, fs)") auto
  obtain r2 ww' fs2 where j: "run_job crc job (ww, fs1) = (r2, ww', fs2)"
    by (cases "run_job crc job (ww, fs1)") auto
  obtain go where s: "r1 = Ok ()" "r2 = Ok (Some (Ok old), go)" "fs' = fs2"
    "en' = en\<lparr>en_levels := lc, en_worker := ww', en_writer_alive := go\<rparr>"
    using run inv fl j
    by (auto simp: memtable_submit_def conf_flusher_def engine_inv_def split: res.splits option.splits)
  have "run_step crc ?flush job (en_levels en, en_worker en, fs) = (Ok (Some (Ok old), go), lc, ww', fs')"
    using s by (simp add: run_step_def fl j)
  from sst_flush.run_step_view [OF si small this]
  have v: "sst_flush.store_inv (cf_dir conf) (cf_sparsity conf) crc lc ww' fs'"
    "visible (sst_flush.view lc ww' fs') = spec_job job (visible (sst_flush.view (en_levels en) (en_worker en) fs))"
    "sst_stored lc fs' = sst_stored (en_levels en) fs \<or>
     sst_stored lc fs' = sst_flush.view (en_levels en) (en_worker en) fs"
    by auto
  have "go" using run_job_Ok [OF j [unfolded s(2)] ns] by blast
  then show ?thesis
    using v inv by (auto simp: s(4) engine_inv_def engine_view_eq engine_stored_def)
qed

lemma engine_exec_view:
  assumes inv: "engine_inv crc conf en fs" and small: "command_small cmd"
    and run: "engine_exec crc (conf_flusher conf) cmd (en, fs) = (Ok r, en', fs')"
  shows "engine_inv crc conf en' fs' \<and> engine_view en' fs' = spec_command cmd (engine_view en fs) \<and>
    (case cmd of CmdGet key \<Rightarrow> r = engine_view en fs key | _ \<Rightarrow> True)"
proof (cases cmd)
  case (CmdGet key)
  then show ?thesis
    using run inv engine_get_view [OF inv, of key]
    by (auto simp: engine_exec_def engine_inv_def split: prod.splits res.splits if_splits)
next
  case (CmdDelete key)
  then obtain old where "memtable_submit crc (conf_flusher conf) (JobDelete key) (en, fs) = (Ok old, en', fs')"
    using run by (auto simp: engine_exec_def engine_delete_def memtable_delete_def outcome
        split: prod.splits res.splits if_splits)
  from memtable_submit_view [OF inv _ _ this] small CmdDelete show ?thesis
    by (simp add: command_small_def)
next
  case (CmdPut key v)
  then obtain old where "memtable_submit crc (conf_flusher conf) (JobPut key v) (en, fs) = (Ok old, en', fs')"
    using run by (auto simp: engine_exec_def engine_put_def memtable_put_def outcome
        split: prod.splits res.splits if_splits)
  from memtable_submit_view [OF inv _ _ this] small CmdPut show ?thesis
    by (simp add: command_small_def)
qed

lemma engine_run_view:
  assumes "engine_run crc (conf_flusher conf) cmds (en, fs) = (answers, en', fs')"
    and "engine_inv crc conf en fs" "\<forall>cmd \<in> set cmds. command_small cmd" "\<forall>r \<in> set answers. is_Ok r"
  shows "engine_inv crc conf en' fs' \<and> engine_view en' fs' = spec_final cmds (engine_view en fs) \<and>
    spec_answers cmds answers (engine_view en fs)"
  using assms
proof (induction cmds arbitrary: en fs answers)
  case Nil
  then show ?case by (simp add: spec_final_def)
next
  case (Cons cmd cmds)
  obtain r en1 fs1 where e: "engine_exec crc (conf_flusher conf) cmd (en, fs) = (r, en1, fs1)"
    by (cases "engine_exec crc (conf_flusher conf) cmd (en, fs)") auto
  obtain answers1 where rest: "engine_run crc (conf_flusher conf) cmds (en1, fs1) = (answers1, en', fs')" "answers = r # answers1"
    using Cons.prems(1) e by (auto split: prod.splits)
  obtain x where r: "r = Ok x" using Cons.prems(4) rest(2) by (auto simp: is_Ok_iff)
  note v = engine_exec_view [OF Cons.prems(2) _ e [unfolded r]]
  have "engine_inv crc conf en' fs' \<and> engine_view en' fs' = spec_final cmds (engine_view en1 fs1) \<and>
      spec_answers cmds answers1 (engine_view en1 fs1)"
    by (rule Cons.IH [OF rest(1)]) (use v Cons.prems(3,4) rest(2) in auto)
  then show ?case
    using v Cons.prems(3) by (auto simp: rest(2) r spec_final_def split: command.splits)
qed

section \<open>A torn get\<close>

text \<open>
  The two lookups of \<open>get\<close> are not atomic: jobs of other callers may run in between.  The
  answer is still a value the key had at some moment of the call.
\<close>

fun submit_all ::
    "crc_fun \<Rightarrow> level_container flusher \<Rightarrow> write_job list \<Rightarrow> engine \<times> file_system \<Rightarrow>
     (io_error, mem_value option) res list \<times> engine \<times> file_system" where
  "submit_all crc flush [] s = ([], s)"
| "submit_all crc flush (job # jobs) s =
    (case memtable_submit crc flush job s of (r, s') \<Rightarrow>
       (case submit_all crc flush jobs s' of (answers, s'') \<Rightarrow> (r # answers, s'')))"

definition get_torn ::
    "crc_fun \<Rightarrow> level_container flusher \<Rightarrow> rstring \<Rightarrow> write_job list \<Rightarrow> rstring option engine_act" where
  "get_torn crc flush key jobs = bind_act (memtable_read key) (\<lambda>r. case r of
     Some mvalue \<Rightarrow> ret (mv_value mvalue)
   | None \<Rightarrow> (\<lambda>s. bind_act (table_read key) (\<lambda>opt. ret (Option.bind opt se_value))
       (snd (submit_all crc flush jobs s))))"

definition spec_jobs :: "write_job list \<Rightarrow> kv \<Rightarrow> kv" where
  "spec_jobs jobs m = fold spec_job jobs m"

lemma submit_all_view:
  assumes "submit_all crc (conf_flusher conf) jobs (en, fs) = (answers, en', fs')"
    and "engine_inv crc conf en fs" "\<forall>job \<in> set jobs. job_small job \<and> job \<noteq> JobShutdown"
    and "\<forall>r \<in> set answers. is_Ok r"
  shows "engine_inv crc conf en' fs' \<and> (engine_stored en' fs' = engine_stored en fs \<or>
    (\<exists>n \<le> length jobs. engine_stored en' fs' = spec_jobs (take n jobs) (engine_view en fs)))"
  using assms
proof (induction jobs arbitrary: en fs answers)
  case Nil
  then show ?case by simp
next
  case (Cons job jobs)
  obtain r en1 fs1 where e: "memtable_submit crc (conf_flusher conf) job (en, fs) = (r, en1, fs1)"
    by (cases "memtable_submit crc (conf_flusher conf) job (en, fs)") auto
  obtain answers1 where rest: "submit_all crc (conf_flusher conf) jobs (en1, fs1) = (answers1, en', fs')"
    "answers = r # answers1"
    using Cons.prems(1) e by (auto split: prod.splits)
  obtain x where r: "r = Ok x" using Cons.prems(4) rest(2) by (auto simp: is_Ok_iff)
  have v: "engine_inv crc conf en1 fs1" "engine_view en1 fs1 = spec_job job (engine_view en fs)"
    "engine_stored en1 fs1 = engine_stored en fs \<or> engine_stored en1 fs1 = engine_view en fs"
    using memtable_submit_view [OF Cons.prems(2) _ _ e [unfolded r]] Cons.prems(3) by auto
  have ih: "engine_inv crc conf en' fs' \<and> (engine_stored en' fs' = engine_stored en1 fs1 \<or>
    (\<exists>n \<le> length jobs. engine_stored en' fs' = spec_jobs (take n jobs) (engine_view en1 fs1)))"
    by (rule Cons.IH [OF rest(1) v(1)]) (use Cons.prems(3,4) rest(2) in auto)
  show ?case
  proof (cases "engine_stored en' fs' = engine_stored en1 fs1")
    case True
    have "spec_jobs (take 0 (job # jobs)) (engine_view en fs) = engine_view en fs"
      by (simp add: spec_jobs_def)
    then show ?thesis using ih v(3) True by (metis le0)
  next
    case False
    then obtain n where "n \<le> length jobs" "engine_stored en' fs' = spec_jobs (take n jobs) (engine_view en1 fs1)"
      using ih by blast
    then have "Suc n \<le> length (job # jobs)"
      "engine_stored en' fs' = spec_jobs (take (Suc n) (job # jobs)) (engine_view en fs)"
      by (simp_all add: spec_jobs_def v(2))
    then show ?thesis using ih by blast
  qed
qed

lemma get_torn_view:
  assumes inv: "engine_inv crc conf en fs" and small: "\<forall>job \<in> set jobs. job_small job \<and> job \<noteq> JobShutdown"
    and run: "submit_all crc (conf_flusher conf) jobs (en, fs) = (answers, en', fs')"
    and ok: "\<forall>r \<in> set answers. is_Ok r"
  shows "\<exists>n \<le> length jobs. fst (get_torn crc (conf_flusher conf) key jobs (en, fs)) =
    Ok (spec_jobs (take n jobs) (engine_view en fs) key)"
proof (cases "map_of (ww_table (en_worker en)) key")
  case (Some v)
  then show ?thesis
    using inv by (intro exI [of _ 0])
      (simp add: get_torn_def memtable_read_def memtable_get_def engine_inv_def engine_view_def
        visible_def spec_jobs_def)
next
  case None
  have v: "engine_inv crc conf en' fs'" "engine_stored en' fs' = engine_stored en fs \<or>
    (\<exists>n \<le> length jobs. engine_stored en' fs' = spec_jobs (take n jobs) (engine_view en fs))"
    using submit_all_view [OF run inv small ok] by auto
  have "engine_stored en fs key = spec_jobs (take 0 jobs) (engine_view en fs) key"
    using None by (simp add: engine_stored_def engine_view_def spec_jobs_def visible_def map_add_def)
  then obtain n where n: "n \<le> length jobs" "engine_stored en' fs' key = spec_jobs (take n jobs) (engine_view en fs) key"
    using v(2) by (metis le0)
  have "sst_inv (cf_dir conf) (cf_sparsity conf) (en_levels en') fs'" "fs_faults fs' = []"
    using v(1) by (simp_all add: engine_inv_def sst_flush.store_inv_def)
  then have "sstable_get (en_levels en') key fs' = (Ok (sstable_contents (en_levels en') fs' key), fs')"
    by (intro sstable_get_contents sst_inv_sstable)
  then have "fst (get_torn crc (conf_flusher conf) key jobs (en, fs)) = Ok (engine_stored en' fs' key)"
    using inv None run
    by (cases "sstable_contents (en_levels en') fs' key")
      (simp_all add: get_torn_def memtable_read_def memtable_get_def engine_inv_def table_read_def
        engine_stored_def visible_def sst_stored_def stored_value_def)
  then show ?thesis using n by auto
qed

section \<open>A new engine\<close>

text \<open>A directory the engine has not used: the directories exist and hold no files.\<close>

definition new_store :: "engine_conf \<Rightarrow> file_system \<Rightarrow> bool" where
  "new_store conf fs \<longleftrightarrow> fs_wf fs \<and> fs_faults fs = [] \<and> fs_files fs = [] \<and>
     cf_dir conf \<in> set (fs_dirs fs) \<and> cf_dir conf @ [''SSTable''] \<in> set (fs_dirs fs)"

definition conf_ok :: "engine_conf \<Rightarrow> bool" where
  "conf_ok conf \<longleftrightarrow> 0 < cf_sparsity conf \<and> 0 < cf_memtable_max_size conf \<and> cf_memtable_max_size conf < 2 ^ 62 \<and>
     0 < cf_segment_size conf \<and> cf_segment_size conf < 2 ^ 32 \<and> cf_segment_size conf dvd 2 ^ 32"

lemma sst_contents_new: "sst_stored (container_new n) fs = Map.empty"
  by (rule ext) (simp add: sst_stored_def sstable_contents_def upper_contents_def container_new_def
      overlapping_contents_def overlapping_new_def)

lemma storage_engine_new_parts:
  assumes run: "storage_engine_new crc order conf fs = Some (Ok en, fs')" and new: "new_store conf fs"
  obtains ww where "memtable_start crc (cf_dir conf @ [''WAL'']) (cf_segment_size conf)
      (highest_sequence_number (container_new (cf_level_zero_size conf))) (cf_memtable_max_size conf) fs = (Ok ww, fs')"
    "en = \<lparr>en_levels = container_new (cf_level_zero_size conf), en_worker = ww, en_writer_alive = True,
      en_poisoned = False, en_threads = 6\<rparr>" "fresh_dir (cf_dir conf @ [''WAL'']) fs"
proof -
  have "fs_read_dir (cf_dir conf @ [''SSTable'']) fs = (Ok [], fs)"
    using new by (simp add: fs_read_dir_def fs_tick_def new_store_def)
  then have lc: "container_from_dir order (cf_dir conf @ [''SSTable'']) (cf_level_zero_size conf) (cf_level_factor conf)
      (cf_sparsity conf) fs = Some (Ok (container_new (cf_level_zero_size conf)), fs)"
    by (simp add: container_from_dir_def)
  have "fresh_dir (cf_dir conf @ [''WAL'']) fs" using new by (simp add: fresh_dir_def new_store_def fs_content_def)
  then show thesis using that run by (auto simp: storage_engine_new_def lc outcome)
qed

lemma storage_engine_new_levels:
  assumes run: "storage_engine_new crc order conf fs = Some (Ok en, fs')" and new: "new_store conf fs"
  shows "en_levels en = container_new (cf_level_zero_size conf)"
    "\<forall>p. in_dir (cf_dir conf) p \<longrightarrow> fs_content fs' p = fs_content fs p"
proof -
  obtain ww where start: "memtable_start crc (cf_dir conf @ [''WAL'']) (cf_segment_size conf)
      (highest_sequence_number (container_new (cf_level_zero_size conf))) (cf_memtable_max_size conf) fs = (Ok ww, fs')"
    "en_levels en = container_new (cf_level_zero_size conf)" "fresh_dir (cf_dir conf @ [''WAL'']) fs"
    by (rule storage_engine_new_parts [OF run new]) simp
  show "en_levels en = container_new (cf_level_zero_size conf)" by (rule start(2))
  show "\<forall>p. in_dir (cf_dir conf) p \<longrightarrow> fs_content fs' p = fs_content fs p"
    using memtable_start_fresh_frame [OF start(1,3)] new by (auto simp: in_dir_def new_store_def)
qed

lemma storage_engine_new_inv:
  assumes run: "storage_engine_new crc order conf fs = Some (Ok en, fs')"
    and new: "new_store conf fs" and ok: "conf_ok conf"
  shows "engine_inv crc conf en fs' \<and> engine_view en fs' = Map.empty"
proof -
  let ?wal = "cf_dir conf @ [''WAL'']"
  let ?lc = "container_new (cf_level_zero_size conf)"
  have nf: "fs_faults fs = []" and wf: "fs_wf fs" and dirs: "cf_dir conf \<in> set (fs_dirs fs)"
    and none: "fs_content fs p = None" for p
    using new by (simp_all add: new_store_def fs_content_def)
  obtain ww where start: "memtable_start crc ?wal (cf_segment_size conf) (highest_sequence_number ?lc)
      (cf_memtable_max_size conf) fs = (Ok ww, fs')"
    and en: "en = \<lparr>en_levels = ?lc, en_worker = ww, en_writer_alive = True, en_poisoned = False, en_threads = 6\<rparr>"
    and fresh: "fresh_dir ?wal fs"
    by (rule storage_engine_new_parts [OF run new])
  have ww: "worker_inv crc [0] [] [] ww fs'" "wal_dir (ww_wal ww) = ?wal" "ww_table ww = []"
    "ww_current_size ww = 0" "ww_max_size ww = cf_memtable_max_size conf"
    using memtable_start_fresh [OF start fresh nf wf] ok by (auto simp: conf_ok_def)
  have fr: "fs_faults fs' = []" "set (fs_dirs fs) \<subseteq> set (fs_dirs fs')"
    "\<forall>p. in_dir (cf_dir conf) p \<longrightarrow> fs_content fs' p = fs_content fs p"
    using memtable_start_fresh_frame [OF start fresh nf] by (auto simp: in_dir_def)
  have inv: "sst_inv (cf_dir conf) (cf_sparsity conf) ?lc fs'"
    using ok dirs fr none
    by (auto simp: sst_inv_def conf_ok_def all_segments_def container_new_def overlapping_new_def
        in_dir_def sst_path_def)
  have v: "sst_flush.view ?lc ww fs' = Map.empty" by (simp add: sst_flush.view_def sst_contents_new ww(3))
  have "sst_flush.store_inv (cf_dir conf) (cf_sparsity conf) crc ?lc ww fs'"
    unfolding sst_flush.store_inv_def
  proof (intro conjI exI)
    show "sst_flush.logged crc ?lc ww fs' [0] [] []" using ww(1) v by (simp add: sst_flush.logged_def)
  qed (use inv fr(1) ww ok v in \<open>auto simp: conf_ok_def in_dir_def table_ok_def newer_def table_bytes_def\<close>)
  then show ?thesis
    by (simp add: engine_inv_def engine_view_eq en v visible_def)
qed

section \<open>Shutdown and panics\<close>

lemma flusher_flush_room:
  assumes si: "sst_flush.store_inv dir sparsity crc lc ww fs" and ne: "ww_table ww \<noteq> []"
    and room: "highest_number (ol_segments (lc_level_zero lc)) 0 + 1 < 16 ^ 8"
  shows "\<exists>lc' fs'. flusher_flush dir sparsity (ww_table ww) (lc, fs) = (Ok (), lc', fs') \<and>
    sst_stored lc' fs' = sst_flush.view lc ww fs"
proof -
  have h: "sst_inv dir sparsity lc fs" "fs_faults fs = []" "table_ok (ww_table ww)"
    "2 * table_bytes (ww_table ww) < 2 ^ 64" "newer (ww_table ww) (sst_stored lc fs)"
    using si by (auto simp: sst_flush.store_inv_def)
  obtain lc' fs' where run: "flusher_flush dir sparsity (ww_table ww) (lc, fs) = (Ok (), lc', fs')"
    using flusher_flush_returns [OF h(1-3) ne h(4) refl room] by blast
  then show ?thesis
    using flusher_flush_stored [OF h(1-3) ne h(4,5) run] by (simp add: sst_flush.view_def)
qed

lemma engine_shutdown_stored:
  assumes inv: "engine_inv crc conf en fs"
    and room: "highest_number (ol_segments (lc_level_zero (en_levels en))) 0 + 1 < 16 ^ 8"
    and run: "engine_shutdown crc (conf_flusher conf) (en, fs) = (en', fs')"
  shows "engine_stored en' fs' = engine_view en fs \<and> en_threads en' = 0 \<and> \<not> en_writer_alive en'"
proof -
  let ?flush = "flusher_flush (cf_dir conf) (cf_sparsity conf)"
  have si: "sst_flush.store_inv (cf_dir conf) (cf_sparsity conf) crc (en_levels en) (en_worker en) fs"
    and alive: "en_writer_alive en"
    using inv by (simp_all add: engine_inv_def)
  let ?ww = "en_worker en"
  obtain lc ww gs where w: "worker_run crc ?flush [JobShutdown] (en_levels en, ?ww, fs) = (Ok [], lc, ww, gs)"
    "sst_stored lc gs = sst_flush.view (en_levels en) ?ww fs"
  proof (cases "ww_table ?ww = []")
    case True
    then have "ww_current_size ?ww < ww_max_size ?ww" using si by (auto simp: sst_flush.store_inv_def)
    then show thesis
      using True by (intro that [of "en_levels en" ?ww fs])
        (simp_all add: worker_run_def run_loop_shutdown run_flush_def run_final_def sst_flush.view_def del: run_loop.simps)
  next
    case False
    then obtain lc' gs where f: "?flush (ww_table ?ww) (en_levels en, fs) = (Ok (), lc', gs)"
      "sst_stored lc' gs = sst_flush.view (en_levels en) ?ww fs"
      using flusher_flush_room [OF si _ room] by blast
    show thesis
    proof (cases "ww_max_size ?ww \<le> ww_current_size ?ww")
      case True
      then show thesis
        using f by (intro that [of lc' "?ww\<lparr>ww_current_size := 0, ww_table := []\<rparr>" gs])
          (simp_all add: worker_run_def run_loop_shutdown run_flush_def run_final_def del: run_loop.simps)
    next
      case le: False
      then show thesis
        using f False by (intro that [of lc' ?ww gs])
          (simp_all add: worker_run_def run_loop_shutdown run_flush_def run_final_def del: run_loop.simps)
    qed
  qed
  then show ?thesis
    using run alive
    by (auto simp: engine_shutdown_def conf_flusher_def engine_stored_def engine_view_eq)
qed

text \<open>Every \<open>get\<close> on a poisoned table costs an engine thread.\<close>

lemma poisoned_run:
  "en_poisoned en \<Longrightarrow> engine_run crc flush (replicate (en_threads en) (CmdGet key)) (en, fs) =
    (replicate (en_threads en) (Err EngShutdown), en\<lparr>en_threads := 0\<rparr>, fs)"
proof (induction "en_threads en" arbitrary: en)
  case 0
  then have "en\<lparr>en_threads := 0\<rparr> = en" by simp
  with 0 show ?case by simp
next
  case (Suc n)
  let ?en = "en\<lparr>en_threads := n\<rparr>"
  have "engine_exec crc flush (CmdGet key) (en, fs) = (Err EngShutdown, ?en, fs)"
    using Suc.prems Suc.hyps(2) [symmetric]
    by (simp add: engine_exec_def engine_get_def memtable_read_def)
  moreover have "engine_run crc flush (replicate (en_threads ?en) (CmdGet key)) (?en, fs) =
      (replicate (en_threads ?en) (Err EngShutdown), ?en\<lparr>en_threads := 0\<rparr>, fs)"
    by (rule Suc.hyps(1)) (use Suc.prems in simp_all)
  ultimately show ?case by (simp flip: Suc.hyps(2))
qed

end
