(* ===== verification/Tcp_Protocol.thy ===== *)
theory Tcp_Protocol
  imports Storage_Engine
begin

text \<open>
  The wire protocol (\<open>src/tcp/protocol.rs\<close>): requests and responses, their encodings, and the
  parsers with every error and every panic of an out-of-range slice.  Correlation ids are
  values of the \<open>uuid\<close> crate, of which the code uses four functions: the parameter
  \<open>'u uuid_lib\<close>.  The network is the bytes that arrive and what follows them, the end of the
  stream or silence; a read that waits for ever is \<open>None\<close>.
\<close>

section \<open>Types\<close>

record 'u uuid_lib =
  ul_from_bytes :: "bytes \<Rightarrow> 'u"
  ul_as_bytes :: "'u \<Rightarrow> bytes"
  ul_to_bytes_le :: "'u \<Rightarrow> bytes"
  ul_nil :: 'u

text \<open>What the crate documents.\<close>

definition uuid_ok :: "'u uuid_lib \<Rightarrow> bool" where
  "uuid_ok u \<longleftrightarrow> (\<forall>x. length (ul_as_bytes u x) = 16 \<and> length (ul_to_bytes_le u x) = 16 \<and>
     ul_from_bytes u (ul_as_bytes u x) = x)"

definition PROTOCOL_VERSION :: u8 where "PROTOCOL_VERSION = 0"

definition MAGIC_BYTES :: bytes where "MAGIC_BYTES = [0x72, 0x6B, 0x76, 0x73]"

datatype 'u parse_error =
    UnsupportedVersion 'u | InvalidRequestType 'u | MissingValue 'u | InvalidKey 'u
  | InvalidValue 'u | UnknownFlags 'u | MalformedPayload 'u

datatype connection_error = ConnIo io_error | WrongMagicBytes | TimedOut

datatype 'u tcp_error = TcpConnectionError connection_error | TcpParseError "'u parse_error"

datatype request_type = ReqGet | ReqPut | ReqDelete

record 'u tcp_headers =
  th_request_type :: request_type
  th_correlation_id :: 'u
  th_protocol_version :: u8
  th_flags :: nat

record payload =
  pay_key :: rstring
  pay_value :: "rstring option"

record 'u tcp_request =
  tr_headers :: "'u tcp_headers"
  tr_payload :: payload

record 'u tcp_response =
  tp_correlation_id :: 'u
  tp_response_code :: u8
  tp_payload :: "rstring option"

section \<open>Parsing\<close>

definition verify_magic_bytes :: "bytes \<Rightarrow> bool" where
  "verify_magic_bytes buf \<longleftrightarrow> buf = MAGIC_BYTES"

definition parse_request_type :: "u8 \<Rightarrow> request_type option" where
  "parse_request_type n =
    (if n = 0 then Some ReqDelete else if n = 1 then Some ReqGet
     else if n = 2 then Some ReqPut else None)"

definition parse_headers :: "'u uuid_lib \<Rightarrow> bytes \<Rightarrow> ('u tcp_error, 'u tcp_headers) res" where
  "parse_headers u buf =
    bind_res (slice_chk 0 4 buf) (\<lambda>magic.
    if \<not> verify_magic_bytes magic then Err (TcpConnectionError WrongMagicBytes)
    else bind_res (slice_chk 4 20 buf) (\<lambda>id_bytes.
    let correlation_id = ul_from_bytes u id_bytes in
    bind_res (index_chk buf 20) (\<lambda>version.
    if version > PROTOCOL_VERSION then Err (TcpParseError (UnsupportedVersion correlation_id))
    else bind_res (index_chk buf 21) (\<lambda>type_byte.
    case parse_request_type type_byte of
      None \<Rightarrow> Err (TcpParseError (InvalidRequestType correlation_id))
    | Some request_type \<Rightarrow>
        bind_res (read_be 2 22 buf) (\<lambda>flags.
        Ok \<lparr>th_request_type = request_type, th_correlation_id = correlation_id,
          th_protocol_version = version, th_flags = flags\<rparr>)))))"

definition parse_payload ::
    "bytes \<Rightarrow> request_type \<Rightarrow> 'u \<Rightarrow> ('u tcp_error, payload) res" where
  "parse_payload buf request_type correlation_id =
    (let payload_len = length buf in
     bind_res (read_be 4 0 buf) (\<lambda>key_len.
     bind_res (slice_chk 4 (key_len + 4) buf) (\<lambda>key_bytes.
     case from_utf8 key_bytes of
       None \<Rightarrow> Err (TcpParseError (InvalidKey correlation_id))
     | Some key \<Rightarrow>
         if request_type = ReqPut then
           bind_res (sub_chk payload_len 4) (\<lambda>rest_len.
           if key_len \<ge> rest_len then Err (TcpParseError (MissingValue correlation_id))
           else
             bind_res (read_be 4 (key_len + 4) buf) (\<lambda>value_len.
             bind_res (slice_chk (key_len + 8) (key_len + 8 + value_len) buf) (\<lambda>value_bytes.
             case from_utf8 value_bytes of
               None \<Rightarrow> Err (TcpParseError (InvalidValue correlation_id))
             | Some v \<Rightarrow> Ok \<lparr>pay_key = key, pay_value = Some v\<rparr>)))
         else
           bind_res (sub_chk payload_len 4) (\<lambda>rest_len.
           if key_len < rest_len then Err (TcpParseError (MalformedPayload correlation_id))
           else Ok \<lparr>pay_key = key, pay_value = None\<rparr>))))"

section \<open>Serialising\<close>

definition payload_to_bytes :: "payload \<Rightarrow> bytes" where
  "payload_to_bytes p = be_bytes 4 (str_len (pay_key p)) @ as_bytes (pay_key p) @
    (case pay_value p of None \<Rightarrow> [] | Some v \<Rightarrow> be_bytes 4 (str_len v) @ as_bytes v)"

definition payload_len :: "payload \<Rightarrow> nat" where
  "payload_len p = (case pay_value p of
     Some v \<Rightarrow> 8 + str_len (pay_key p) + str_len v | None \<Rightarrow> 4 + str_len (pay_key p))"

fun request_type_byte :: "request_type \<Rightarrow> u8" where
  "request_type_byte ReqDelete = 0"
| "request_type_byte ReqGet = 1"
| "request_type_byte ReqPut = 2"

definition headers_len :: nat where "headers_len = 20"

definition headers_to_bytes :: "'u uuid_lib \<Rightarrow> 'u tcp_headers \<Rightarrow> bytes" where
  "headers_to_bytes u h = ul_to_bytes_le u (th_correlation_id h) @
    [th_protocol_version h, request_type_byte (th_request_type h)] @ be_bytes 2 (th_flags h)"

definition request_to_bytes :: "'u uuid_lib \<Rightarrow> 'u tcp_request \<Rightarrow> bytes" where
  "request_to_bytes u r = be_bytes 4 (headers_len + 4) @ MAGIC_BYTES @ headers_to_bytes u (tr_headers r) @
    be_bytes 4 (payload_len (tr_payload r)) @ payload_to_bytes (tr_payload r)"

definition response_len :: "'u tcp_response \<Rightarrow> nat" where
  "response_len r = (case tp_payload r of Some s \<Rightarrow> str_len s + 17 | None \<Rightarrow> 17)"

definition response_to_bytes :: "'u uuid_lib \<Rightarrow> 'u tcp_response \<Rightarrow> bytes" where
  "response_to_bytes u r = ul_as_bytes u (tp_correlation_id r) @ [tp_response_code r] @
    (case tp_payload r of None \<Rightarrow> [] | Some s \<Rightarrow> as_bytes s)"

section \<open>Errors and responses\<close>

fun tcp_to_rc :: "'u tcp_error \<Rightarrow> u8" where
  "tcp_to_rc (TcpParseError (InvalidKey _)) = 4"
| "tcp_to_rc (TcpParseError (InvalidValue _)) = 5"
| "tcp_to_rc (TcpParseError (MissingValue _)) = 6"
| "tcp_to_rc (TcpParseError (MalformedPayload _)) = 7"
| "tcp_to_rc (TcpParseError (InvalidRequestType _)) = 8"
| "tcp_to_rc (TcpParseError (UnknownFlags _)) = 9"
| "tcp_to_rc (TcpParseError (UnsupportedVersion _)) = 10"
| "tcp_to_rc (TcpConnectionError (ConnIo _)) = 255"
| "tcp_to_rc (TcpConnectionError TimedOut) = 11"
| "tcp_to_rc (TcpConnectionError WrongMagicBytes) = 255"

fun extract_correlation_id :: "'u parse_error \<Rightarrow> 'u" where
  "extract_correlation_id (InvalidKey c) = c"
| "extract_correlation_id (InvalidRequestType c) = c"
| "extract_correlation_id (InvalidValue c) = c"
| "extract_correlation_id (MalformedPayload c) = c"
| "extract_correlation_id (MissingValue c) = c"
| "extract_correlation_id (UnknownFlags c) = c"
| "extract_correlation_id (UnsupportedVersion c) = c"

definition response_from_internal_error :: "'u \<Rightarrow> engine_error \<Rightarrow> 'u tcp_response" where
  "response_from_internal_error correlation_id e =
    \<lparr>tp_correlation_id = correlation_id, tp_response_code = to_rc e, tp_payload = None\<rparr>"

definition response_from_tcp_parse_error :: "'u parse_error \<Rightarrow> 'u tcp_response" where
  "response_from_tcp_parse_error e =
    \<lparr>tp_correlation_id = extract_correlation_id e, tp_response_code = tcp_to_rc (TcpParseError e),
      tp_payload = None\<rparr>"

definition response_from :: "'u \<Rightarrow> rstring option \<Rightarrow> 'u tcp_response" where
  "response_from correlation_id v =
    \<lparr>tp_correlation_id = correlation_id, tp_response_code = 0, tp_payload = v\<rparr>"

definition create_close_notification :: "'u uuid_lib \<Rightarrow> 'u tcp_response" where
  "create_close_notification u =
    \<lparr>tp_correlation_id = ul_nil u,
      tp_response_code = tcp_to_rc (TcpConnectionError TimedOut :: 'u tcp_error), tp_payload = None\<rparr>"

section \<open>Receiving\<close>

datatype stream_end = EndEof | EndStall

record net_in =
  ni_bytes :: bytes
  ni_end :: stream_end

text \<open>\<open>None\<close>: the bytes never arrive.\<close>

type_synonym ('u, 'a) recv = "net_in \<Rightarrow> (('u tcp_error, 'a) res \<times> net_in) option"

definition read_exact :: "nat \<Rightarrow> ('u, bytes) recv" where
  "read_exact n net =
    (if n \<le> length (ni_bytes net)
     then Some (Ok (take n (ni_bytes net)), net\<lparr>ni_bytes := drop n (ni_bytes net)\<rparr>)
     else case ni_end net of
       EndEof \<Rightarrow> Some (Err (TcpConnectionError (ConnIo UnexpectedEof)), net\<lparr>ni_bytes := []\<rparr>)
     | EndStall \<Rightarrow> None)"

definition bind_recv :: "('u, 'a) recv \<Rightarrow> ('a \<Rightarrow> ('u, 'b) recv) \<Rightarrow> ('u, 'b) recv" where
  "bind_recv m f net = Option.bind (m net) (\<lambda>(r, net'). case r of
     Ok x \<Rightarrow> f x net' | Err e \<Rightarrow> Some (Err e, net') | Panic \<Rightarrow> Some (Panic, net'))"

definition lift_recv :: "('u tcp_error, 'a) res \<Rightarrow> ('u, 'a) recv" where
  "lift_recv r net = Some (r, net)"

definition read_u32 :: "('u, nat) recv" where
  "read_u32 = bind_recv (read_exact 4) (\<lambda>bs. lift_recv (Ok (be_nat bs)))"

definition recv_headers :: "nat \<Rightarrow> ('u, bytes) recv" where
  "recv_headers header_len = read_exact header_len"

definition recv_payload :: "nat \<Rightarrow> ('u, bytes) recv" where
  "recv_payload len = read_exact len"

definition recv_tcp_request :: "'u uuid_lib \<Rightarrow> nat \<Rightarrow> ('u, 'u tcp_request) recv" where
  "recv_tcp_request u header_len =
    bind_recv (bind_recv (recv_headers header_len) (\<lambda>buf. lift_recv (parse_headers u buf))) (\<lambda>headers.
    bind_recv read_u32 (\<lambda>len.
    bind_recv (bind_recv (recv_payload len) (\<lambda>buf.
      lift_recv (parse_payload buf (th_request_type headers) (th_correlation_id headers)))) (\<lambda>payload.
    lift_recv (Ok \<lparr>tr_headers = headers, tr_payload = payload\<rparr>))))"

section \<open>What the encodings guarantee\<close>

lemma length_payload_to_bytes: "length (payload_to_bytes p) = payload_len p"
  by (simp add: payload_to_bytes_def payload_len_def str_len_def split: option.split)

lemma length_response_to_bytes:
  "uuid_ok u \<Longrightarrow> length (response_to_bytes u r) = response_len r"
  by (simp add: response_to_bytes_def response_len_def uuid_ok_def str_len_def split: option.split)

lemma length_headers_to_bytes: "uuid_ok u \<Longrightarrow> length (headers_to_bytes u h) = headers_len"
  by (simp add: headers_to_bytes_def headers_len_def uuid_ok_def)

text \<open>A payload that fits its request type and the 32-bit lengths.\<close>

definition payload_ok :: "request_type \<Rightarrow> payload \<Rightarrow> bool" where
  "payload_ok request_type p \<longleftrightarrow> (request_type = ReqPut \<longleftrightarrow> pay_value p \<noteq> None) \<and> payload_len p < 2 ^ 32"

lemma parse_payload_to_bytes:
  assumes "payload_ok request_type p"
  shows "parse_payload (payload_to_bytes p) request_type correlation_id = Ok p"
proof -
  define k where "k = as_bytes (pay_key p)"
  have kn: "str_len (pay_key p) = length k" by (simp add: k_def str_len_def)
  have fk: "from_utf8 k = Some (pay_key p)" by (simp add: k_def)
  have small: "length k < 2 ^ 32"
    using assms by (auto simp: payload_ok_def payload_len_def kn split: option.splits)
  show ?thesis
  proof (cases "pay_value p")
    case None
    then have b: "payload_to_bytes p = be_bytes 4 (length k) @ k" and r: "request_type \<noteq> ReqPut"
      using assms by (simp_all add: payload_to_bytes_def kn k_def payload_ok_def)
    show ?thesis
      using small None r
      by (simp add: parse_payload_def b read_be_def slice_chk_def be_nat_be_bytes fk sub_chk_def)
  next
    case (Some v)
    define w where "w = as_bytes v"
    have wn: "str_len v = length w" and fw: "from_utf8 w = Some v" by (simp_all add: w_def str_len_def)
    have vs: "length w < 2 ^ 32"
      using assms Some by (simp add: payload_ok_def payload_len_def kn wn)
    have b: "payload_to_bytes p = be_bytes 4 (length k) @ k @ be_bytes 4 (length w) @ w" and r: "request_type = ReqPut"
      using assms Some by (simp_all add: payload_to_bytes_def kn wn k_def w_def payload_ok_def)
    have vl: "read_be 4 (length k + 4) (payload_to_bytes p) = (Ok (length w) :: ('u tcp_error, nat) res)" for k' :: 'u
      using vs by (simp add: b read_be_def slice_chk_def be_nat_be_bytes)
    show ?thesis
      using small Some r vs
      by (simp add: parse_payload_def b read_be_def slice_chk_def be_nat_be_bytes fk fw sub_chk_def)
  qed
qed

lemma parse_headers_to_bytes:
  assumes u: "uuid_ok u" and h: "th_protocol_version h = 0" "th_flags h < 2 ^ 16"
  shows "parse_headers u (MAGIC_BYTES @ headers_to_bytes u h) =
    Ok (h\<lparr>th_correlation_id := ul_from_bytes u (ul_to_bytes_le u (th_correlation_id h))\<rparr>)"
proof -
  define c where "c = ul_to_bytes_le u (th_correlation_id h)"
  have c: "length c = 16" using u by (simp add: c_def uuid_ok_def)
  have rt: "parse_request_type (request_type_byte t) = Some t" for t
    by (cases t) (simp_all add: parse_request_type_def)
  have b: "MAGIC_BYTES @ headers_to_bytes u h =
      MAGIC_BYTES @ c @ [0, request_type_byte (th_request_type h)] @ be_bytes 2 (th_flags h)"
    by (simp add: headers_to_bytes_def c_def h(1))
  have m: "length MAGIC_BYTES = 4" by (simp add: MAGIC_BYTES_def)
  have i: "index_chk (MAGIC_BYTES @ c @ [0, request_type_byte (th_request_type h)] @ be_bytes 2 (th_flags h)) 20 =
      (Ok 0 :: ('u tcp_error, u8) res)"
    "index_chk (MAGIC_BYTES @ c @ [0, request_type_byte (th_request_type h)] @ be_bytes 2 (th_flags h)) 21 =
      (Ok (request_type_byte (th_request_type h)) :: ('u tcp_error, u8) res)"
    by (simp_all add: index_chk_def nth_append m c)
  show ?thesis
    using h
    by (simp add: parse_headers_def b slice_chk_def m c index_chk_def nth_append verify_magic_bytes_def
        PROTOCOL_VERSION_def rt read_be_def be_nat_be_bytes c_def [symmetric])
qed

text \<open>What a peer that sends a request is understood to say.\<close>

lemma recv_request_to_bytes:
  assumes u: "uuid_ok u" and h: "th_protocol_version (tr_headers r) = 0" "th_flags (tr_headers r) < 2 ^ 16"
    and p: "payload_ok (th_request_type (tr_headers r)) (tr_payload r)"
    and net: "ni_bytes net = drop 4 (request_to_bytes u r) @ rest"
  shows "recv_tcp_request u 24 net =
    Some (Ok (r\<lparr>tr_headers := (tr_headers r)\<lparr>th_correlation_id :=
        ul_from_bytes u (ul_to_bytes_le u (th_correlation_id (tr_headers r)))\<rparr>\<rparr>), net\<lparr>ni_bytes := rest\<rparr>)"
proof -
  let ?hb = "MAGIC_BYTES @ headers_to_bytes u (tr_headers r)"
  let ?n = "be_bytes 4 (payload_len (tr_payload r))" and ?pb = "payload_to_bytes (tr_payload r)"
  have bytes: "ni_bytes net = ?hb @ ?n @ ?pb @ rest"
    by (simp add: net request_to_bytes_def)
  have hl: "length ?hb = 24"
    using u by (simp add: length_headers_to_bytes headers_len_def MAGIC_BYTES_def)
  have small: "payload_len (tr_payload r) < 2 ^ 32" using p by (simp add: payload_ok_def)
  have h1: "recv_headers 24 net = Some (Ok ?hb, net\<lparr>ni_bytes := ?n @ ?pb @ rest\<rparr>)"
    unfolding recv_headers_def read_exact_def bytes using hl by simp
  have h2: "read_u32 (net\<lparr>ni_bytes := ?n @ ?pb @ rest\<rparr>) =
      Some (Ok (payload_len (tr_payload r)), net\<lparr>ni_bytes := ?pb @ rest\<rparr>)"
    using small by (simp add: read_u32_def read_exact_def bind_recv_def lift_recv_def be_nat_be_bytes)
  have h3: "recv_payload (payload_len (tr_payload r)) (net\<lparr>ni_bytes := ?pb @ rest\<rparr>) =
      Some (Ok ?pb, net\<lparr>ni_bytes := rest\<rparr>)"
    by (simp add: recv_payload_def read_exact_def length_payload_to_bytes)
  show ?thesis
    unfolding recv_tcp_request_def
    by (simp add: bind_recv_def lift_recv_def h1 h2 h3 parse_headers_to_bytes [OF u h]
        parse_payload_to_bytes [OF p])
qed

text \<open>Which requests are refused, and how.\<close>

lemma parse_payload_empty:
  "length buf < 4 \<Longrightarrow> parse_payload buf request_type correlation_id = Panic"
  by (simp add: parse_payload_def read_be_def slice_chk_def)

lemma parse_headers_short: "length buf < 4 \<Longrightarrow> parse_headers u buf = Panic"
  by (simp add: parse_headers_def slice_chk_def)

lemma parse_headers_classified:
  assumes "24 \<le> length buf"
  shows "parse_headers u buf =
    (let correlation_id = ul_from_bytes u (take 16 (drop 4 buf)) in
     if take 4 buf \<noteq> MAGIC_BYTES then Err (TcpConnectionError WrongMagicBytes)
     else if buf ! 20 \<noteq> 0 then Err (TcpParseError (UnsupportedVersion correlation_id))
     else case parse_request_type (buf ! 21) of
       None \<Rightarrow> Err (TcpParseError (InvalidRequestType correlation_id))
     | Some request_type \<Rightarrow> Ok \<lparr>th_request_type = request_type, th_correlation_id = correlation_id,
         th_protocol_version = 0, th_flags = be_nat (take 2 (drop 22 buf))\<rparr>)"
  using assms
  by (cases "buf ! 20 = 0")
    (simp_all add: parse_headers_def slice_chk_def index_chk_def read_be_def verify_magic_bytes_def
      PROTOCOL_VERSION_def word_neq_0_conv [symmetric] Let_def split: option.split)

text \<open>A parsed put carries a value; no other request does.\<close>

lemma case_Err_Ok_iff:
  "(case x of None \<Rightarrow> Err e | Some v \<Rightarrow> f v) = Ok y \<longleftrightarrow> (\<exists>v. x = Some v \<and> f v = Ok y)"
  "(if b then Err e else m) = Ok y \<longleftrightarrow> \<not> b \<and> m = Ok y"
  by (simp_all split: option.split)

lemma parse_payload_value:
  assumes "parse_payload buf request_type correlation_id = Ok p"
  shows "request_type = ReqPut \<longleftrightarrow> pay_value p \<noteq> None"
  using assms
  by (cases "request_type = ReqPut")
    (auto simp: parse_payload_def Let_def bind_res_Ok_iff case_Err_Ok_iff simp del: not_le not_less)

lemma bind_recv_Ok_iff:
  "bind_recv m f net = Some (Ok y, net'') \<longleftrightarrow>
    (\<exists>x net'. m net = Some (Ok x, net') \<and> f x net' = Some (Ok y, net''))"
proof (cases "m net")
  case (Some a)
  then show ?thesis by (cases a; cases "fst a") (simp_all add: bind_recv_def)
qed (simp add: bind_recv_def)

lemma recv_tcp_request_value:
  assumes "recv_tcp_request u n net = Some (Ok r, net')"
  shows "th_request_type (tr_headers r) = ReqPut \<longleftrightarrow> pay_value (tr_payload r) \<noteq> None"
proof -
  obtain buf where "parse_payload buf (th_request_type (tr_headers r)) (th_correlation_id (tr_headers r)) =
      Ok (tr_payload r)"
    using assms unfolding recv_tcp_request_def bind_recv_Ok_iff lift_recv_def by fastforce
  then show ?thesis by (rule parse_payload_value)
qed

lemma bind_recv_length:
  assumes run: "bind_recv m f net = Some (r, net')"
    and m: "\<And>r net1. m net = Some (r, net1) \<Longrightarrow> length (ni_bytes net1) \<le> length (ni_bytes net)"
    and f: "\<And>x net1 r net2. f x net1 = Some (r, net2) \<Longrightarrow> length (ni_bytes net2) \<le> length (ni_bytes net1)"
  shows "length (ni_bytes net') \<le> length (ni_bytes net)"
proof -
  obtain r1 net1 where m1: "m net = Some (r1, net1)"
    using run by (cases "m net") (auto simp: bind_recv_def)
  show ?thesis
  proof (cases r1)
    case (Ok x)
    then have "f x net1 = Some (r, net')" using run m1 by (simp add: bind_recv_def)
    then show ?thesis using f m [OF m1] order_trans by blast
  qed (use run m1 m in \<open>simp_all add: bind_recv_def\<close>)
qed

lemma read_exact_length:
  "read_exact n net = Some (r, net') \<Longrightarrow> length (ni_bytes net') \<le> length (ni_bytes net)"
  by (auto simp: read_exact_def split: if_splits stream_end.splits)

lemma read_u32_Ok_length:
  "read_u32 net = Some (Ok n, net') \<Longrightarrow> length (ni_bytes net') + 4 = length (ni_bytes net)"
  by (auto simp: read_u32_def bind_recv_Ok_iff lift_recv_def read_exact_def split: if_splits stream_end.splits)

lemma lift_recv_length: "lift_recv q net = Some (r, net') \<Longrightarrow> length (ni_bytes net') \<le> length (ni_bytes net)"
  by (simp add: lift_recv_def)

lemma recv_tcp_request_length:
  assumes "recv_tcp_request u n net = Some (r, net')"
  shows "length (ni_bytes net') \<le> length (ni_bytes net)"
  using assms unfolding recv_tcp_request_def recv_headers_def recv_payload_def read_u32_def
  by (elim bind_recv_length read_exact_length lift_recv_length)

section \<open>A closed stream\<close>

text \<open>On a stream that ends, every receive returns.\<close>

definition returns_at_eof :: "('u, 'a) recv \<Rightarrow> bool" where
  "returns_at_eof m \<longleftrightarrow>
    (\<forall>net. ni_end net = EndEof \<longrightarrow> (\<exists>r net'. m net = Some (r, net') \<and> ni_end net' = EndEof))"

lemma returns_read_exact [intro!]: "returns_at_eof (read_exact n)"
  by (simp add: returns_at_eof_def read_exact_def)

lemma returns_lift [intro!]: "returns_at_eof (lift_recv r)"
  by (simp add: returns_at_eof_def lift_recv_def)

lemma returns_bind [intro!]:
  assumes m: "returns_at_eof m" and f: "\<And>x. returns_at_eof (f x)"
  shows "returns_at_eof (bind_recv m f)"
  unfolding returns_at_eof_def
proof (intro allI impI)
  fix net :: net_in
  assume "ni_end net = EndEof"
  then obtain r net1 where r: "m net = Some (r, net1)" "ni_end net1 = EndEof"
    using m by (auto simp: returns_at_eof_def)
  then show "\<exists>r net'. bind_recv m f net = Some (r, net') \<and> ni_end net' = EndEof"
    using f by (cases r) (auto simp: bind_recv_def returns_at_eof_def)
qed

lemma returns_recv: "returns_at_eof read_u32" "returns_at_eof (recv_tcp_request u n)"
  by (auto simp: read_u32_def recv_tcp_request_def recv_headers_def recv_payload_def)

end
