(* ===== verification/Tcp_Connection.thy ===== *)
theory Tcp_Connection
  imports Tcp_Protocol
begin

text \<open>
  One connection (\<open>src/tcp/connection.rs\<close>): the loop that receives a request, calls the
  storage engine and answers, with its three ways to go on.  The store is a parameter: an
  action per command, whose contract is the locale \<open>store\<close>; the storage engine is an
  instance.  Whether \<open>select!\<close> takes the cancellation in a turn is the argument \<open>cancelled\<close>.
\<close>

section \<open>The state\<close>

record 's conn =
  cn_net :: net_in
  cn_out :: bytes
  cn_write_faults :: "bool list"
  cn_store :: 's

type_synonym 's store_exec = "command \<Rightarrow> ('s, engine_error, rstring option) act"

datatype keep_alive = KeepAlive | CloseNotify | CloseSilent

datatype close_mode = ModeNotify | ModeSilent

text \<open>\<open>write_all\<close> on the socket; a true head of the fault list makes it fail.\<close>

definition write_all :: "bytes \<Rightarrow> 's conn \<Rightarrow> bool \<times> 's conn" where
  "write_all bs c = (case cn_write_faults c of
     [] \<Rightarrow> (True, c\<lparr>cn_out := cn_out c @ bs\<rparr>)
   | fault # faults \<Rightarrow>
       if fault then (False, c\<lparr>cn_write_faults := faults\<rparr>)
       else (True, c\<lparr>cn_write_faults := faults, cn_out := cn_out c @ bs\<rparr>))"

section \<open>Handling a request\<close>

definition operation_from :: "'u tcp_request \<Rightarrow> ('e, command) res" where
  "operation_from request = (case th_request_type (tr_headers request) of
     ReqDelete \<Rightarrow> Ok (CmdDelete (pay_key (tr_payload request)))
   | ReqGet \<Rightarrow> Ok (CmdGet (pay_key (tr_payload request)))
   | ReqPut \<Rightarrow> bind_res (unwrap (pay_value (tr_payload request))) (\<lambda>v.
       Ok (CmdPut (pay_key (tr_payload request)) v)))"

definition call_storage_engine :: "'s store_exec \<Rightarrow> command \<Rightarrow> ('s, engine_error, rstring option) act" where
  "call_storage_engine exec op = (case op of
     CmdGet key \<Rightarrow> bind_act (exec op) (\<lambda>r. case r of Some v \<Rightarrow> ret (Some v) | None \<Rightarrow> raise EngNotFound)
   | _ \<Rightarrow> exec op)"

definition handle_tcp_request ::
    "'s store_exec \<Rightarrow> 'u tcp_request \<Rightarrow> ('s, engine_error, rstring option) act" where
  "handle_tcp_request exec request =
    bind_act (lift_res (operation_from request)) (call_storage_engine exec)"

definition send_response :: "'u uuid_lib \<Rightarrow> rstring option \<Rightarrow> 'u \<Rightarrow> 's conn \<Rightarrow> 's conn" where
  "send_response u v correlation_id c = snd (write_all (response_to_bytes u (response_from correlation_id v)) c)"

definition send_internal_error_response :: "'u uuid_lib \<Rightarrow> engine_error \<Rightarrow> 'u \<Rightarrow> 's conn \<Rightarrow> bool \<times> 's conn" where
  "send_internal_error_response u e correlation_id =
    write_all (response_to_bytes u (response_from_internal_error correlation_id e))"

definition send_tcp_error_response :: "'u uuid_lib \<Rightarrow> 'u parse_error \<Rightarrow> 's conn \<Rightarrow> bool \<times> 's conn" where
  "send_tcp_error_response u e = write_all (response_to_bytes u (response_from_tcp_parse_error e))"

definition send_close_notification :: "'u uuid_lib \<Rightarrow> 's conn \<Rightarrow> 's conn" where
  "send_close_notification u c = snd (write_all (response_to_bytes u (create_close_notification u)) c)"

definition handle_tcp_error :: "'u uuid_lib \<Rightarrow> 'u tcp_error \<Rightarrow> 's conn \<Rightarrow> keep_alive \<times> 's conn" where
  "handle_tcp_error u e c = (case e of
     TcpConnectionError TimedOut \<Rightarrow> (CloseNotify, c)
   | TcpConnectionError (ConnIo _) \<Rightarrow> (CloseSilent, c)
   | TcpConnectionError WrongMagicBytes \<Rightarrow> (CloseSilent, c)
   | TcpParseError pe \<Rightarrow> (case send_tcp_error_response u pe c of
       (sent, c') \<Rightarrow> (if sent then KeepAlive else CloseSilent, c')))"

text \<open>A panic ends the task of the connection; \<open>None\<close> is a connection that waits for ever.\<close>

type_synonym 's turn = "'s conn \<Rightarrow> ((unit, keep_alive) res \<times> 's conn) option"

definition recv_and_handle_tcp_request :: "'u uuid_lib \<Rightarrow> 's store_exec \<Rightarrow> nat \<Rightarrow> 's turn" where
  "recv_and_handle_tcp_request u exec header_len c =
    map_option (\<lambda>(r, net). let c1 = c\<lparr>cn_net := net\<rparr> in case r of
        Ok request \<Rightarrow>
          (let correlation_id = th_correlation_id (tr_headers request) in
           case handle_tcp_request exec request (cn_store c1) of
             (Ok v, s) \<Rightarrow> (Ok KeepAlive, send_response u v correlation_id (c1\<lparr>cn_store := s\<rparr>))
           | (Err e, s) \<Rightarrow>
               (case send_internal_error_response u e correlation_id (c1\<lparr>cn_store := s\<rparr>) of
                  (sent, c2) \<Rightarrow> (Ok (if sent then KeepAlive else CloseSilent), c2))
           | (Panic, s) \<Rightarrow> (Panic, c1\<lparr>cn_store := s\<rparr>))
      | Err e \<Rightarrow> (case handle_tcp_error u e c1 of (status, c2) \<Rightarrow> (Ok status, c2))
      | Panic \<Rightarrow> (Panic, c1))
      (recv_tcp_request u header_len (cn_net c))"

section \<open>The loop\<close>

text \<open>Silence while the header length is due ends in the timeout.\<close>

definition recv_header_len :: "net_in \<Rightarrow> (close_mode, nat) res \<times> net_in" where
  "recv_header_len net = (case read_u32 net of
     None \<Rightarrow> (Err ModeNotify, net)
   | Some (r, net') \<Rightarrow>
       (case (r :: (unit tcp_error, nat) res) of
          Ok n \<Rightarrow> (Ok n, net') | _ \<Rightarrow> (Err ModeSilent, net')))"

definition conn_turn :: "'u uuid_lib \<Rightarrow> 's store_exec \<Rightarrow> bool \<Rightarrow> 's turn" where
  "conn_turn u exec cancelled c =
    (if cancelled then Some (Ok CloseNotify, c)
     else case recv_header_len (cn_net c) of
       (Ok header_len, net) \<Rightarrow> recv_and_handle_tcp_request u exec header_len (c\<lparr>cn_net := net\<rparr>)
     | (Err ModeNotify, net) \<Rightarrow> Some (Ok CloseNotify, c\<lparr>cn_net := net\<rparr>)
     | (_, net) \<Rightarrow> Some (Ok CloseSilent, c\<lparr>cn_net := net\<rparr>))"

lemma write_all_net [simp]: "cn_net (snd (write_all bs c)) = cn_net c"
  by (simp add: write_all_def split: list.split)

lemma handle_tcp_error_net [simp]: "cn_net (snd (handle_tcp_error u e c)) = cn_net c"
  using write_all_net [of _ c]
  by (auto simp: handle_tcp_error_def send_tcp_error_response_def split: tcp_error.split
      connection_error.split prod.split dest!: arg_cong [where f = snd])

lemma recv_and_handle_length:
  assumes "recv_and_handle_tcp_request u exec n c = Some (r, c')"
  shows "length (ni_bytes (cn_net c')) \<le> length (ni_bytes (cn_net c))"
proof -
  obtain r1 net where rv: "recv_tcp_request u n (cn_net c) = Some (r1, net)"
    using assms by (auto simp: recv_and_handle_tcp_request_def)
  have "cn_net c' = net"
  proof (cases r1)
    case (Ok request)
    obtain r2 s where h: "handle_tcp_request exec request (cn_store c) = (r2, s)"
      by (cases "handle_tcp_request exec request (cn_store c)")
    show ?thesis
      using assms rv Ok h write_all_net [of _ "c\<lparr>cn_net := net, cn_store := s\<rparr>"]
      by (cases r2) (auto simp: recv_and_handle_tcp_request_def send_response_def
          send_internal_error_response_def Let_def split: prod.splits dest!: arg_cong [where f = snd])
  next
    case (Err e)
    obtain status c2 where h: "handle_tcp_error u e (c\<lparr>cn_net := net\<rparr>) = (status, c2)"
      by (cases "handle_tcp_error u e (c\<lparr>cn_net := net\<rparr>)")
    moreover from this have "cn_net c2 = net"
      using handle_tcp_error_net [of u e "c\<lparr>cn_net := net\<rparr>"] by simp
    ultimately show ?thesis
      using assms rv Err by (auto simp: recv_and_handle_tcp_request_def split: prod.splits)
  qed (use assms rv in \<open>auto simp: recv_and_handle_tcp_request_def\<close>)
  then show ?thesis using recv_tcp_request_length [OF rv] by simp
qed

lemma recv_header_len_Ok:
  assumes "recv_header_len net = (Ok n, net')"
  shows "length (ni_bytes net') + 4 = length (ni_bytes net)"
proof -
  have "(read_u32 net :: ((unit tcp_error, nat) res \<times> net_in) option) = Some (Ok n, net')"
    using assms by (auto simp: recv_header_len_def split: option.splits prod.splits res.splits)
  then show ?thesis by (rule read_u32_Ok_length)
qed

lemma conn_turn_KeepAlive:
  assumes "conn_turn u exec cancelled c = Some (Ok KeepAlive, c')"
  shows "length (ni_bytes (cn_net c')) < length (ni_bytes (cn_net c))"
proof -
  obtain n net where h: "recv_header_len (cn_net c) = (Ok n, net)"
    "recv_and_handle_tcp_request u exec n (c\<lparr>cn_net := net\<rparr>) = Some (Ok KeepAlive, c')"
    using assms by (auto simp: conn_turn_def split: if_splits prod.splits res.splits close_mode.splits)
  show ?thesis using recv_header_len_Ok [OF h(1)] recv_and_handle_length [OF h(2)] by simp
qed

function conn_start ::
    "'u uuid_lib \<Rightarrow> 's store_exec \<Rightarrow> (nat \<Rightarrow> bool) \<Rightarrow> nat \<Rightarrow> 's conn \<Rightarrow> ((unit, unit) res \<times> 's conn) option" where
  "conn_start u exec cancelled i c =
    (case conn_turn u exec (cancelled i) c of
       None \<Rightarrow> None
     | Some (Ok KeepAlive, c') \<Rightarrow> conn_start u exec cancelled (i + 1) c'
     | Some (Ok CloseNotify, c') \<Rightarrow> Some (Ok (), send_close_notification u c')
     | Some (Ok CloseSilent, c') \<Rightarrow> Some (Ok (), c')
     | Some (_, c') \<Rightarrow> Some (Panic, c'))"
  by pat_completeness auto
termination
  by (relation "measure (\<lambda>(u, exec, cancelled, i, c). length (ni_bytes (cn_net c)))")
    (auto dest: conn_turn_KeepAlive)

declare conn_start.simps [simp del]

section \<open>A conversation\<close>

text \<open>What the connection answers to a request that arrives whole.\<close>

definition answer :: "'s store_exec \<Rightarrow> 'u tcp_request \<Rightarrow> 's \<Rightarrow> 'u tcp_response \<times> 's" where
  "answer exec request s =
    (let correlation_id = th_correlation_id (tr_headers request) in
     case handle_tcp_request exec request s of
       (Ok v, s') \<Rightarrow> (response_from correlation_id v, s')
     | (Err e, s') \<Rightarrow> (response_from_internal_error correlation_id e, s')
     | (Panic, s') \<Rightarrow> (response_from_internal_error correlation_id EngShutdown, s'))"

fun serve :: "'s store_exec \<Rightarrow> 'u tcp_request list \<Rightarrow> 's \<Rightarrow> 'u tcp_response list \<times> 's" where
  "serve exec [] s = ([], s)"
| "serve exec (request # requests) s =
    (case answer exec request s of (response, s') \<Rightarrow>
       (case serve exec requests s' of (responses, s'') \<Rightarrow> (response # responses, s'')))"

text \<open>The request as the receiver sees it: the bytes of the id in the order of the parser.\<close>

definition received :: "'u uuid_lib \<Rightarrow> 'u tcp_request \<Rightarrow> 'u tcp_request" where
  "received u r = r\<lparr>tr_headers := (tr_headers r)\<lparr>th_correlation_id :=
     ul_from_bytes u (ul_to_bytes_le u (th_correlation_id (tr_headers r)))\<rparr>\<rparr>"

definition request_ok :: "'u tcp_request \<Rightarrow> bool" where
  "request_ok r \<longleftrightarrow> th_protocol_version (tr_headers r) = 0 \<and> th_flags (tr_headers r) < 2 ^ 16 \<and>
     payload_ok (th_request_type (tr_headers r)) (tr_payload r)"

lemma request_ok_operation: "request_ok r \<Longrightarrow> \<exists>op. operation_from r = Ok op"
  by (cases "th_request_type (tr_headers r)"; cases "pay_value (tr_payload r)")
    (simp_all add: request_ok_def payload_ok_def operation_from_def)

lemma handle_no_panic:
  assumes ok: "request_ok r" and np: "\<forall>cmd s. fst (exec cmd s) \<noteq> Panic"
  shows "fst (handle_tcp_request exec r s) \<noteq> Panic"
proof -
  obtain op where op: "(operation_from r :: (engine_error, command) res) = Ok op"
    using request_ok_operation [OF ok] by blast
  obtain x s' where e: "exec op s = (x, s')" by (cases "exec op s")
  have "x \<noteq> Panic" using np e by (metis fst_conv)
  then show ?thesis
    using e by (cases op; cases x)
      (auto simp: handle_tcp_request_def op call_storage_engine_def bind_act_def split: option.split)
qed

lemma recv_header_len_request:
  assumes "ni_bytes net = request_to_bytes u r @ rest"
  shows "recv_header_len net = (Ok 24, net\<lparr>ni_bytes := drop 4 (request_to_bytes u r) @ rest\<rparr>)"
  by (simp add: recv_header_len_def read_u32_def bind_recv_def read_exact_def lift_recv_def assms
      request_to_bytes_def be_nat_be_bytes headers_len_def)

lemma conn_turn_request:
  assumes u: "uuid_ok u" and ok: "request_ok r" and np: "\<forall>cmd s. fst (exec cmd s) \<noteq> Panic"
    and net: "ni_bytes (cn_net c) = request_to_bytes u r @ rest" and nf: "cn_write_faults c = []"
    and ans: "answer exec (received u r) (cn_store c) = (response, s')"
  shows "conn_turn u exec False c = Some (Ok KeepAlive,
    c\<lparr>cn_net := (cn_net c)\<lparr>ni_bytes := rest\<rparr>, cn_store := s', cn_out := cn_out c @ response_to_bytes u response\<rparr>)"
proof -
  let ?net = "(cn_net c)\<lparr>ni_bytes := drop 4 (request_to_bytes u r) @ rest\<rparr>"
  have rv: "recv_tcp_request u 24 ?net = Some (Ok (received u r), (cn_net c)\<lparr>ni_bytes := rest\<rparr>)"
    using recv_request_to_bytes [OF u, of r ?net rest] ok by (simp add: request_ok_def received_def)
  have ok': "request_ok (received u r)" using ok by (simp add: request_ok_def received_def)
  obtain x s1 where h: "handle_tcp_request exec (received u r) (cn_store c) = (x, s1)"
    by (cases "handle_tcp_request exec (received u r) (cn_store c)")
  have "x \<noteq> Panic" using handle_no_panic [OF ok' np, of "cn_store c"] h by simp
  then show ?thesis
    using ans nf
    by (cases x) (auto simp: conn_turn_def recv_header_len_request [OF net] recv_and_handle_tcp_request_def
        rv h answer_def send_response_def send_internal_error_response_def write_all_def Let_def)
qed

lemma conn_start_eof:
  assumes "ni_bytes (cn_net c) = []" "ni_end (cn_net c) = EndEof" "\<not> cancelled i"
  shows "conn_start u exec cancelled i c = Some (Ok (), c)"
proof -
  have "(cn_net c)\<lparr>ni_bytes := []\<rparr> = cn_net c" using assms(1) by simp
  then show ?thesis
    using assms
    by (subst conn_start.simps)
      (simp add: conn_turn_def recv_header_len_def read_u32_def bind_recv_def read_exact_def)
qed

lemma conn_start_serves:
  assumes u: "uuid_ok u" and np: "\<forall>cmd s. fst (exec cmd s) \<noteq> Panic"
    and ok: "\<forall>r \<in> set requests. request_ok r" and live: "\<forall>i. \<not> cancelled i"
    and net: "ni_bytes (cn_net c) = concat (map (request_to_bytes u) requests)" "ni_end (cn_net c) = EndEof"
    and nf: "cn_write_faults c = []"
    and sv: "serve exec (map (received u) requests) (cn_store c) = (responses, s')"
  shows "conn_start u exec cancelled i c = Some (Ok (), c\<lparr>cn_net := \<lparr>ni_bytes = [], ni_end = EndEof\<rparr>,
    cn_store := s', cn_out := cn_out c @ concat (map (response_to_bytes u) responses)\<rparr>)"
  using ok net nf sv
proof (induction requests arbitrary: c i responses)
  case Nil
  have "cn_net c = \<lparr>ni_bytes = [], ni_end = EndEof\<rparr>" using Nil(2,3) by simp
  then have "c\<lparr>cn_net := \<lparr>ni_bytes = [], ni_end = EndEof\<rparr>\<rparr> = c" by (metis conn.surjective conn.update_convs(1))
  then show ?case using Nil live by (simp add: conn_start_eof)
next
  case (Cons r requests)
  obtain response s1 where a: "answer exec (received u r) (cn_store c) = (response, s1)"
    by (cases "answer exec (received u r) (cn_store c)")
  obtain responses1 where sv: "serve exec (map (received u) requests) s1 = (responses1, s')"
    "responses = response # responses1"
    using Cons.prems(5) a by (auto split: prod.splits)
  let ?c1 = "c\<lparr>cn_net := (cn_net c)\<lparr>ni_bytes := concat (map (request_to_bytes u) requests)\<rparr>,
    cn_store := s1, cn_out := cn_out c @ response_to_bytes u response\<rparr>"
  have t: "conn_turn u exec (cancelled i) c = Some (Ok KeepAlive, ?c1)"
    using conn_turn_request [OF u _ np _ _ a, of "concat (map (request_to_bytes u) requests)"] Cons.prems live
    by simp
  have "conn_start u exec cancelled (i + 1) ?c1 = Some (Ok (), ?c1\<lparr>cn_net := \<lparr>ni_bytes = [], ni_end = EndEof\<rparr>,
      cn_store := s', cn_out := cn_out ?c1 @ concat (map (response_to_bytes u) responses1)\<rparr>)"
    by (rule Cons.IH) (use Cons.prems sv in simp_all)
  then show ?case
    by (subst conn_start.simps) (simp add: t sv(2))
qed

section \<open>Ends\<close>

text \<open>A turn on a stream that ends returns, and the stream goes on to end.\<close>

lemma recv_and_handle_net:
  assumes "recv_tcp_request u n (cn_net c) = Some (r, net)"
  shows "\<exists>status c'. recv_and_handle_tcp_request u exec n c = Some (status, c') \<and> cn_net c' = net"
proof (cases r)
  case (Ok request)
  show ?thesis
    using assms Ok
    by (cases "fst (handle_tcp_request exec request (cn_store c))";
        cases "handle_tcp_request exec request (cn_store c)")
      (auto simp: recv_and_handle_tcp_request_def Let_def send_response_def send_internal_error_response_def
        split: prod.split dest!: arg_cong [where f = "\<lambda>q. cn_net (snd q)"])
next
  case (Err e)
  obtain status c' where "handle_tcp_error u e (c\<lparr>cn_net := net\<rparr>) = (status, c')"
    by (cases "handle_tcp_error u e (c\<lparr>cn_net := net\<rparr>)")
  moreover from this have "cn_net c' = net"
    using handle_tcp_error_net [of u e "c\<lparr>cn_net := net\<rparr>"] by simp
  ultimately show ?thesis
    using assms Err by (simp add: recv_and_handle_tcp_request_def)
qed (use assms in \<open>simp add: recv_and_handle_tcp_request_def\<close>)

lemma conn_turn_returns:
  assumes "ni_end (cn_net c) = EndEof"
  shows "\<exists>status c'. conn_turn u exec cancelled c = Some (status, c') \<and> ni_end (cn_net c') = EndEof"
proof -
  obtain r :: "(unit tcp_error, nat) res" and net where h: "read_u32 (cn_net c) = Some (r, net)" "ni_end net = EndEof"
    using returns_recv(1) assms unfolding returns_at_eof_def by blast
  show ?thesis
  proof (cases "cancelled \<or> \<not> is_Ok r")
    case True
    then show ?thesis using h assms by (cases r) (auto simp: conn_turn_def recv_header_len_def is_Ok_def)
  next
    case False
    then obtain n where r: "r = Ok n" by (auto simp: is_Ok_iff)
    obtain r1 net1 where v: "recv_tcp_request u n net = Some (r1, net1)" "ni_end net1 = EndEof"
      using returns_recv(2) h(2) unfolding returns_at_eof_def by blast
    obtain status c' where "recv_and_handle_tcp_request u exec n (c\<lparr>cn_net := net\<rparr>) = Some (status, c')" "cn_net c' = net1"
      using recv_and_handle_net [of u n "c\<lparr>cn_net := net\<rparr>" r1 net1 exec] v(1) by auto
    then show ?thesis using h r v(2) False by (simp add: conn_turn_def recv_header_len_def)
  qed
qed

lemma conn_start_returns:
  "ni_end (cn_net c) = EndEof \<Longrightarrow> conn_start u exec cancelled i c \<noteq> None"
proof (induction u exec cancelled i c rule: conn_start.induct)
  case (1 u exec cancelled i c)
  obtain status c' where t: "conn_turn u exec (cancelled i) c = Some (status, c')" "ni_end (cn_net c') = EndEof"
    using conn_turn_returns [OF "1.prems"] by blast
  show ?case
  proof (cases "status = Ok KeepAlive")
    case True
    then have "conn_start u exec cancelled (i + 1) c' \<noteq> None"
      using t "1.IH" [OF t(1) refl True refl] by blast
    then show ?thesis using t(1) True by (subst conn_start.simps) simp
  next
    case False
    then show ?thesis
      using t(1) by (subst conn_start.simps) (auto split: res.split keep_alive.split)
  qed
qed

text \<open>A peer that is silent when a request is due.\<close>

lemma conn_start_idle:
  assumes "length (ni_bytes (cn_net c)) < 4" "ni_end (cn_net c) = EndStall"
  shows "conn_start u exec cancelled i c = Some (Ok (), send_close_notification u c)"
  using assms
  by (subst conn_start.simps)
    (simp add: conn_turn_def recv_header_len_def read_u32_def bind_recv_def read_exact_def)

section \<open>Refusals\<close>

text \<open>A header that is refused is answered; what follows it stays in the stream.\<close>

lemma recv_header_len_bytes:
  assumes "ni_bytes net = be_bytes 4 n @ rest" "n < 2 ^ 32"
  shows "recv_header_len net = (Ok n, net\<lparr>ni_bytes := rest\<rparr>)"
  using assms by (simp add: recv_header_len_def read_u32_def bind_recv_def read_exact_def lift_recv_def be_nat_be_bytes)

lemma conn_turn_refused:
  assumes net: "ni_bytes (cn_net c) = be_bytes 4 24 @ buf @ rest" and len: "length buf = 24"
    and e: "parse_headers u buf = Err (TcpParseError e)" and nf: "cn_write_faults c = []"
  shows "conn_turn u exec False c = Some (Ok KeepAlive, c\<lparr>cn_net := (cn_net c)\<lparr>ni_bytes := rest\<rparr>,
    cn_out := cn_out c @ response_to_bytes u (response_from_tcp_parse_error e)\<rparr>)"
proof -
  have h: "recv_header_len (cn_net c) = (Ok 24, (cn_net c)\<lparr>ni_bytes := buf @ rest\<rparr>)"
    using recv_header_len_bytes [OF net] by simp
  have "recv_tcp_request u 24 ((cn_net c)\<lparr>ni_bytes := buf @ rest\<rparr>) =
      Some (Err (TcpParseError e), (cn_net c)\<lparr>ni_bytes := rest\<rparr>)"
    using len by (simp add: recv_tcp_request_def bind_recv_def recv_headers_def read_exact_def lift_recv_def e)
  then show ?thesis
    using h nf by (simp add: conn_turn_def recv_and_handle_tcp_request_def handle_tcp_error_def
        send_tcp_error_response_def write_all_def)
qed

text \<open>A payload that is too short for its key length ends the task in a panic.\<close>

lemma conn_start_short_payload:
  assumes u: "uuid_ok u" and h: "th_protocol_version h = 0" "th_flags h < 2 ^ 16"
    and net: "ni_bytes (cn_net c) = be_bytes 4 24 @ MAGIC_BYTES @ headers_to_bytes u h @ be_bytes 4 (length bs) @ bs @ rest"
    and short: "length bs < 4" and live: "\<not> cancelled i"
  shows "conn_start u exec cancelled i c = Some (Panic, c\<lparr>cn_net := (cn_net c)\<lparr>ni_bytes := rest\<rparr>\<rparr>)"
proof -
  let ?hb = "MAGIC_BYTES @ headers_to_bytes u h" and ?n = "be_bytes 4 (length bs)"
  have hl: "length ?hb = 24"
    using u by (simp add: length_headers_to_bytes headers_len_def MAGIC_BYTES_def)
  have r: "recv_header_len (cn_net c) = (Ok 24, (cn_net c)\<lparr>ni_bytes := ?hb @ ?n @ bs @ rest\<rparr>)"
    using recv_header_len_bytes [of "cn_net c" 24] net by simp
  have h1: "recv_headers 24 ((cn_net c)\<lparr>ni_bytes := ?hb @ ?n @ bs @ rest\<rparr>) =
      Some (Ok ?hb, (cn_net c)\<lparr>ni_bytes := ?n @ bs @ rest\<rparr>)"
    unfolding recv_headers_def read_exact_def using hl by simp
  have "256 ^ 4 > length bs" using short by simp
  then have h2: "read_u32 ((cn_net c)\<lparr>ni_bytes := ?n @ bs @ rest\<rparr>) =
      Some (Ok (length bs), (cn_net c)\<lparr>ni_bytes := bs @ rest\<rparr>)"
    by (simp add: read_u32_def read_exact_def bind_recv_def lift_recv_def be_nat_be_bytes)
  have "recv_tcp_request u 24 ((cn_net c)\<lparr>ni_bytes := ?hb @ ?n @ bs @ rest\<rparr>) =
      Some (Panic, (cn_net c)\<lparr>ni_bytes := rest\<rparr>)"
    unfolding recv_tcp_request_def
    by (simp add: bind_recv_def lift_recv_def h1 h2 parse_headers_to_bytes [OF u h] recv_payload_def
        read_exact_def parse_payload_empty [OF short] del: append_assoc)
  then show ?thesis
    using live by (subst conn_start.simps) (simp add: conn_turn_def r recv_and_handle_tcp_request_def)
qed

section \<open>The contract of the store\<close>

definition request_command :: "'u tcp_request \<Rightarrow> command" where
  "request_command r = (case th_request_type (tr_headers r) of
     ReqDelete \<Rightarrow> CmdDelete (pay_key (tr_payload r))
   | ReqGet \<Rightarrow> CmdGet (pay_key (tr_payload r))
   | ReqPut \<Rightarrow> CmdPut (pay_key (tr_payload r)) (the (pay_value (tr_payload r))))"

lemma received_command [simp]: "request_command (received u r) = request_command r"
  by (cases "th_request_type (tr_headers r)") (simp_all add: received_def request_command_def)

lemma received_ok [simp]: "request_ok (received u r) = request_ok r"
  by (simp add: received_def request_ok_def)

text \<open>A response that belongs to the request and, for a get, tells what the map holds.\<close>

definition response_agrees :: "'u tcp_request \<Rightarrow> 'u tcp_response \<Rightarrow> kv \<Rightarrow> bool" where
  "response_agrees r a m \<longleftrightarrow> tp_correlation_id a = th_correlation_id (tr_headers r) \<and>
     (case request_command r of
        CmdGet key \<Rightarrow> (case m key of
            Some v \<Rightarrow> tp_response_code a = 0 \<and> tp_payload a = Some v
          | None \<Rightarrow> tp_response_code a = 2 \<and> tp_payload a = None)
      | _ \<Rightarrow> tp_response_code a = 0)"

fun conversation_agrees :: "'u tcp_request list \<Rightarrow> 'u tcp_response list \<Rightarrow> kv \<Rightarrow> bool" where
  "conversation_agrees [] responses m \<longleftrightarrow> responses = []"
| "conversation_agrees (r # requests) [] m \<longleftrightarrow> False"
| "conversation_agrees (r # requests) (a # responses) m \<longleftrightarrow>
    response_agrees r a m \<and> conversation_agrees requests responses (spec_command (request_command r) m)"

text \<open>A response that reports no failure of the store.\<close>

definition served :: "'u tcp_response \<Rightarrow> bool" where
  "served a \<longleftrightarrow> tp_response_code a = 0 \<or> tp_response_code a = 2"

lemma operation_from_command: "request_ok r \<Longrightarrow> operation_from r = Ok (request_command r)"
  by (cases "th_request_type (tr_headers r)")
    (auto simp: request_ok_def payload_ok_def operation_from_def request_command_def)

locale store =
  fixes exec :: "'s store_exec"
    and view :: "'s \<Rightarrow> kv"
    and inv :: "'s \<Rightarrow> bool"
    and small :: "command \<Rightarrow> bool"
  assumes exec_view:
    "inv s \<Longrightarrow> small cmd \<Longrightarrow> exec cmd s = (Ok r, s') \<Longrightarrow>
     inv s' \<and> view s' = spec_command cmd (view s) \<and>
     (case cmd of CmdGet key \<Rightarrow> r = view s key | _ \<Rightarrow> True)"
    and exec_errors: "fst (exec cmd s) \<noteq> Panic" "fst (exec cmd s) \<noteq> Err EngNotFound"
begin

lemma answer_agrees:
  assumes run: "answer exec r s = (a, s')" and "inv s" "small (request_command r)" "served a"
    and op: "operation_from r = (Ok (request_command r) :: (engine_error, command) res)"
  shows "inv s' \<and> view s' = spec_command (request_command r) (view s) \<and> response_agrees r a (view s)"
proof -
  obtain x s1 where e: "exec (request_command r) s = (x, s1)" by (cases "exec (request_command r) s")
  show ?thesis
  proof (cases x)
    case (Ok v)
    from exec_view [OF assms(2,3) e [unfolded Ok]] show ?thesis
      using run e Ok
      by (cases "request_command r"; cases v)
        (auto simp: answer_def handle_tcp_request_def op call_storage_engine_def response_agrees_def
          response_from_def response_from_internal_error_def Let_def bind_act_def split: option.splits)
  next
    case (Err er)
    then have "er = EngIoError \<or> er = EngShutdown"
      using exec_errors(2) [of "request_command r" s] e by (cases er) auto
    then have "\<not> served a"
      using run e Err
      by (cases "request_command r")
        (auto simp: answer_def handle_tcp_request_def op call_storage_engine_def served_def
          response_from_internal_error_def Let_def bind_act_def)
    then show ?thesis using assms(4) by simp
  next
    case Panic
    then show ?thesis using exec_errors(1) [of "request_command r" s] e by simp
  qed
qed

lemma serve_agrees:
  assumes "serve exec requests s = (responses, s')" "inv s"
    and "\<forall>r \<in> set requests. request_ok r \<and> small (request_command r)" "\<forall>a \<in> set responses. served a"
  shows "inv s' \<and> view s' = fold spec_command (map request_command requests) (view s) \<and>
    conversation_agrees requests responses (view s)"
  using assms
proof (induction requests arbitrary: s responses)
  case (Cons r requests)
  obtain a s1 where a: "answer exec r s = (a, s1)" by (cases "answer exec r s")
  obtain responses1 where rest: "serve exec requests s1 = (responses1, s')" "responses = a # responses1"
    using Cons.prems(1) a by (auto split: prod.splits)
  have h: "inv s1" "view s1 = spec_command (request_command r) (view s)" "response_agrees r a (view s)"
    using answer_agrees [OF a Cons.prems(2)] Cons.prems(3,4) rest(2) operation_from_command [of r] by auto
  have "inv s' \<and> view s' = fold spec_command (map request_command requests) (view s1) \<and>
      conversation_agrees requests responses1 (view s1)"
    by (rule Cons.IH [OF rest(1) h(1)]) (use Cons.prems(3,4) rest(2) in auto)
  then show ?case using h by (simp add: rest(2))
qed simp

end

definition state_view :: "engine \<times> file_system \<Rightarrow> kv" where
  "state_view s = engine_view (fst s) (snd s)"

definition state_inv :: "crc_fun \<Rightarrow> engine_conf \<Rightarrow> engine \<times> file_system \<Rightarrow> bool" where
  "state_inv crc conf s \<longleftrightarrow> engine_inv crc conf (fst s) (snd s)"

lemma engine_exec_errors:
  "fst (engine_exec crc flush cmd s) \<noteq> Panic" "fst (engine_exec crc flush cmd s) \<noteq> Err EngNotFound"
  by (cases s, simp add: engine_exec_def split: prod.split res.split)+

interpretation engine_store: store "engine_exec crc (conf_flusher conf)" state_view "state_inv crc conf" command_small
  for crc conf
proof
  fix s cmd r s'
  assume "state_inv crc conf s" "command_small cmd"
    and run: "engine_exec crc (conf_flusher conf) cmd s = (Ok r, s')"
  then show "state_inv crc conf s' \<and> state_view s' = spec_command cmd (state_view s) \<and>
      (case cmd of CmdGet key \<Rightarrow> r = state_view s key | _ \<Rightarrow> True)"
    using engine_exec_view [of crc conf "fst s" "snd s" cmd r "fst s'" "snd s'"]
    by (cases cmd) (auto simp: state_inv_def state_view_def)
qed (rule engine_exec_errors)+

end
