(* ===== verification/Server.thy ===== *)
theory Server
  imports Tcp_Connection
begin

text \<open>
  The server (\<open>src/lib.rs\<close>): the accept loop, the tasks of the connections
  (\<open>src/tcp/connection.rs\<close>) and the connection manager (\<open>src/tcp/connection_manager.rs\<close>), which
  run side by side on one store.  The state holds all of them; an event is a step of one of
  them up to its next await, and an event that would have to wait is not possible.  The
  channel to the manager has room for 1000 messages.
\<close>

section \<open>The state\<close>

datatype connection_data = StartSignal nat | CompletionSignal nat

text \<open>A task waits for the length of a header, is inside a request, or has ended.\<close>

datatype task_phase = TkIdle | TkRequest nat | TkDone

record conn_task =
  ct_net :: net_in
  ct_out :: bytes
  ct_write_faults :: "bool list"
  ct_phase :: task_phase

text \<open>The manager receives, awaits the task of a completion, or awaits the tasks that are left.\<close>

datatype manager_phase = MgReceive | MgAwait nat | MgDrain "nat list" | MgDone

record connection_manager =
  cm_handles :: "nat list"
  cm_phase :: manager_phase

text \<open>The accept loop: before the bind, at its head, in \<open>accept\<close>, in the send of the start
  signal, in the await of the manager, returned.\<close>

datatype server_phase =
  SvBind | SvHead | SvAccept | SvSend | SvJoin | SvReturned "(io_error, unit) res"

record 's server =
  sv_store :: 's
  sv_do_cancel :: bool
  sv_token :: bool
  sv_last_conn_id :: nat
  sv_phase :: server_phase
  sv_tasks :: "conn_task list"
  sv_channel :: "connection_data list"
  sv_manager :: connection_manager

definition connection_manager_new :: connection_manager where
  "connection_manager_new = \<lparr>cm_handles = [], cm_phase = MgReceive\<rparr>"

definition server_new :: "'s \<Rightarrow> 's server" where
  "server_new storage_engine = \<lparr>sv_store = storage_engine, sv_do_cancel = False, sv_token = False,
     sv_last_conn_id = 0, sv_phase = SvBind, sv_tasks = [], sv_channel = [], sv_manager = connection_manager_new\<rparr>"

definition channel_capacity :: nat where
  "channel_capacity = 1000"

section \<open>The task of a connection\<close>

definition tcp_connection_new :: "net_in \<Rightarrow> bool list \<Rightarrow> 's \<Rightarrow> 's conn" where
  "tcp_connection_new reader write_faults storage_engine =
    \<lparr>cn_net = reader, cn_out = [], cn_write_faults = write_faults, cn_store = storage_engine\<rparr>"

text \<open>A task and its connection on the shared store.\<close>

definition task_of :: "task_phase \<Rightarrow> 's conn \<Rightarrow> conn_task" where
  "task_of ph c = \<lparr>ct_net = cn_net c, ct_out = cn_out c, ct_write_faults = cn_write_faults c, ct_phase = ph\<rparr>"

definition conn_of :: "conn_task \<Rightarrow> 's \<Rightarrow> 's conn" where
  "conn_of t s = \<lparr>cn_net = ct_net t, cn_out = ct_out t, cn_write_faults = ct_write_faults t, cn_store = s\<rparr>"

text \<open>\<open>start_connection\<close> splits the socket and enters the loop of the connection.\<close>

definition start_connection :: "net_in \<Rightarrow> bool list \<Rightarrow> 's \<Rightarrow> conn_task" where
  "start_connection reader write_faults storage_engine =
    task_of TkIdle (tcp_connection_new reader write_faults storage_engine)"

text \<open>
  The end of a task drops the connection.  \<open>Drop\<close> makes the future that would send the
  completion signal and drops it without polling it: nothing enters the channel.
\<close>

definition connection_drop :: "nat \<Rightarrow> connection_data list \<Rightarrow> connection_data list" where
  "connection_drop n channel = channel"

text \<open>What a turn of the loop does with its status.\<close>

definition after_status :: "'u uuid_lib \<Rightarrow> (unit, keep_alive) res \<Rightarrow> 's conn \<Rightarrow> conn_task \<times> 's" where
  "after_status u status c = (case status of
     Ok KeepAlive \<Rightarrow> (task_of TkIdle c, cn_store c)
   | Ok CloseNotify \<Rightarrow> (let c' = send_close_notification u c in (task_of TkDone c', cn_store c'))
   | _ \<Rightarrow> (task_of TkDone c, cn_store c))"

text \<open>
  One step of the loop: \<open>select!\<close> takes the cancellation, or the length of a header arrives
  (the peer's silence times out); then the rest of the request, for which there is no timeout
  and no cancellation.
\<close>

definition task_step :: "'u uuid_lib \<Rightarrow> 's store_exec \<Rightarrow> bool \<Rightarrow> conn_task \<Rightarrow> 's \<Rightarrow> (conn_task \<times> 's) option" where
  "task_step u exec cancelled t s = (let c = conn_of t s in case ct_phase t of
     TkIdle \<Rightarrow>
       if cancelled then Some (after_status u (Ok CloseNotify) c)
       else (case recv_header_len (cn_net c) of
         (Ok header_len, net) \<Rightarrow> Some (task_of (TkRequest header_len) (c\<lparr>cn_net := net\<rparr>), s)
       | (Err ModeNotify, net) \<Rightarrow> Some (after_status u (Ok CloseNotify) (c\<lparr>cn_net := net\<rparr>))
       | (_, net) \<Rightarrow> Some (after_status u (Ok CloseSilent) (c\<lparr>cn_net := net\<rparr>)))
   | TkRequest header_len \<Rightarrow>
       if cancelled then None
       else map_option (\<lambda>(status, c'). after_status u status c') (recv_and_handle_tcp_request u exec header_len c)
   | TkDone \<Rightarrow> None)"

section \<open>The connection manager\<close>

text \<open>
  \<open>done\<close> tells which tasks have ended, \<open>senders\<close> whether anybody can still send; \<open>cancelled\<close> is
  the state of the token at the receipt of a message.
\<close>

definition manager_step ::
    "bool \<Rightarrow> bool \<Rightarrow> (nat \<Rightarrow> bool) \<Rightarrow> connection_data list \<Rightarrow> connection_manager \<Rightarrow>
     (connection_data list \<times> connection_manager) option" where
  "manager_step cancelled senders finished channel m = (case cm_phase m of
     MgReceive \<Rightarrow> (case channel of
       [] \<Rightarrow> if senders then None else Some ([], m\<lparr>cm_phase := MgDrain (cm_handles m)\<rparr>)
     | msg # msgs \<Rightarrow>
         if cancelled then Some (msgs, m\<lparr>cm_phase := MgDrain (cm_handles m)\<rparr>)
         else Some (msgs, case msg of
           CompletionSignal n \<Rightarrow>
             if n \<in> set (cm_handles m)
             then m\<lparr>cm_handles := removeAll n (cm_handles m), cm_phase := MgAwait n\<rparr> else m
         | StartSignal n \<Rightarrow> m\<lparr>cm_handles := cm_handles m @ [n]\<rparr>))
   | MgAwait n \<Rightarrow> if finished n then Some (channel, m\<lparr>cm_phase := MgReceive\<rparr>) else None
   | MgDrain [] \<Rightarrow> Some (channel, m\<lparr>cm_phase := MgDone\<rparr>)
   | MgDrain (n # ns) \<Rightarrow> if finished n then Some (channel, m\<lparr>cm_phase := MgDrain ns\<rparr>) else None
   | MgDone \<Rightarrow> None)"

section \<open>The server\<close>

datatype server_event =
  SrvBind bool | SrvHead | SrvAccept "(net_in \<times> bool list) option" | SrvSend | SrvCancel
| SrvTask nat bool | SrvManager | SrvJoin

definition task_done :: "'s server \<Rightarrow> nat \<Rightarrow> bool" where
  "task_done s n \<longleftrightarrow> n < length (sv_tasks s) \<and> ct_phase (sv_tasks s ! n) = TkDone"

text \<open>A sender is held by the server until \<open>run\<close> returns and by every connection that runs.\<close>

definition senders_alive :: "'s server \<Rightarrow> bool" where
  "senders_alive s = (case sv_phase s of
     SvReturned _ \<Rightarrow> list_ex (\<lambda>t. ct_phase t \<noteq> TkDone) (sv_tasks s) | _ \<Rightarrow> True)"

fun server_step :: "'u uuid_lib \<Rightarrow> 's store_exec \<Rightarrow> server_event \<Rightarrow> 's server \<Rightarrow> 's server option" where
  "server_step u exec (SrvBind bound) s =
    (if sv_phase s = SvBind
     then Some (s\<lparr>sv_phase := if bound then SvHead else SvReturned (Err OsError)\<rparr>) else None)"
| "server_step u exec SrvHead s =
    (if sv_phase s \<noteq> SvHead then None
     else if sv_do_cancel s then Some (s\<lparr>sv_token := True, sv_phase := SvJoin\<rparr>)
     else Some (s\<lparr>sv_phase := SvAccept\<rparr>))"
| "server_step u exec (SrvAccept accepted) s =
    (if sv_phase s \<noteq> SvAccept then None
     else case accepted of
       None \<Rightarrow> Some (s\<lparr>sv_phase := SvReturned (Err OsError)\<rparr>)
     | Some (reader, write_faults) \<Rightarrow>
         Some (s\<lparr>sv_tasks := sv_tasks s @ [start_connection reader write_faults (sv_store s)], sv_phase := SvSend\<rparr>))"
| "server_step u exec SrvSend s =
    (if sv_phase s \<noteq> SvSend then None
     else let s' = s\<lparr>sv_last_conn_id := sv_last_conn_id s + 1, sv_phase := SvHead\<rparr> in
       if cm_phase (sv_manager s) = MgDone then Some s'
       else if length (sv_channel s) < channel_capacity
       then Some (s'\<lparr>sv_channel := sv_channel s @ [StartSignal (sv_last_conn_id s)]\<rparr>)
       else None)"
| "server_step u exec SrvCancel s = Some (s\<lparr>sv_do_cancel := True\<rparr>)"
| "server_step u exec (SrvTask n cancelled) s =
    (if length (sv_tasks s) \<le> n \<or> cancelled \<and> \<not> sv_token s then None
     else map_option (\<lambda>(t, st). s\<lparr>sv_store := st, sv_tasks := (sv_tasks s)[n := t],
         sv_channel := (if ct_phase t = TkDone then connection_drop n (sv_channel s) else sv_channel s)\<rparr>)
       (task_step u exec cancelled (sv_tasks s ! n) (sv_store s)))"
| "server_step u exec SrvManager s =
    map_option (\<lambda>(channel, m). s\<lparr>sv_channel := channel, sv_manager := m\<rparr>)
      (manager_step (sv_do_cancel s) (senders_alive s) (task_done s) (sv_channel s) (sv_manager s))"
| "server_step u exec SrvJoin s =
    (if sv_phase s = SvJoin \<and> cm_phase (sv_manager s) = MgDone
     then Some (s\<lparr>sv_phase := SvReturned (Ok ())\<rparr>) else None)"

text \<open>A run, event by event, from a state.\<close>

inductive server_reach :: "'u uuid_lib \<Rightarrow> 's store_exec \<Rightarrow> 's server \<Rightarrow> server_event list \<Rightarrow> 's server \<Rightarrow> bool"
  for u exec s0 where
  reach_start: "server_reach u exec s0 [] s0"
| reach_step: "server_reach u exec s0 evs s \<Longrightarrow> server_step u exec ev s = Some s' \<Longrightarrow>
    server_reach u exec s0 (evs @ [ev]) s'"

fun server_run :: "'u uuid_lib \<Rightarrow> 's store_exec \<Rightarrow> server_event list \<Rightarrow> 's server \<Rightarrow> 's server option" where
  "server_run u exec [] s = Some s"
| "server_run u exec (ev # evs) s = Option.bind (server_step u exec ev s) (server_run u exec evs)"

inductive_cases reach_snocE: "server_reach u exec s0 evs s"

lemma server_reach_run:
  "server_reach u exec s0 evs s \<Longrightarrow> server_run u exec evs' s = Some s' \<Longrightarrow> server_reach u exec s0 (evs @ evs') s'"
proof (induction evs' arbitrary: evs s)
  case (Cons ev evs')
  then obtain s1 where s1: "server_step u exec ev s = Some s1" "server_run u exec evs' s1 = Some s'"
    by (auto simp: bind_eq_Some_conv)
  from Cons.IH [OF reach_step [OF Cons.prems(1) s1(1)] s1(2)] show ?case by simp
qed simp

end
