(* ===== verification/Server_Run.thy ===== *)
theory Server_Run
  imports Server
begin

text \<open>
  Runs of the server: what its connections exchange with their peers is one conversation with
  one map, in the order of the steps; and how connections, channel, manager and accept loop
  stand to each other, up to the end of \<open>run\<close>.
\<close>

section \<open>What a step says to the peer\<close>

datatype 'u served_item =
  Exchange "'u tcp_request" "'u tcp_response" | Refusal "'u tcp_response" | Closing "'u tcp_response"

fun item_response :: "'u served_item \<Rightarrow> 'u tcp_response" where
  "item_response (Exchange r a) = a"
| "item_response (Refusal a) = a"
| "item_response (Closing a) = a"

definition step_item :: "'u uuid_lib \<Rightarrow> 's store_exec \<Rightarrow> bool \<Rightarrow> conn_task \<Rightarrow> 's \<Rightarrow> 'u served_item option" where
  "step_item u exec cancelled t s = (case ct_phase t of
     TkIdle \<Rightarrow>
       if cancelled then Some (Closing (create_close_notification u))
       else (case fst (recv_header_len (ct_net t)) of
         Err ModeNotify \<Rightarrow> Some (Closing (create_close_notification u)) | _ \<Rightarrow> None)
   | TkRequest header_len \<Rightarrow> (case recv_tcp_request u header_len (ct_net t) of
       Some (Ok r, _) \<Rightarrow> Some (Exchange r (fst (answer exec r s)))
     | Some (Err (TcpParseError e), _) \<Rightarrow> Some (Refusal (response_from_tcp_parse_error e))
     | Some (Err (TcpConnectionError TimedOut), _) \<Rightarrow> Some (Closing (create_close_notification u))
     | _ \<Rightarrow> None)
   | TkDone \<Rightarrow> None)"

definition item_bytes :: "'u uuid_lib \<Rightarrow> 'u served_item option \<Rightarrow> bytes" where
  "item_bytes u it = (case it of None \<Rightarrow> [] | Some i \<Rightarrow> response_to_bytes u (item_response i))"

text \<open>The store changes in exchanges only.\<close>

definition item_effect :: "'s store_exec \<Rightarrow> 'u served_item option \<Rightarrow> 's \<Rightarrow> 's \<Rightarrow> bool" where
  "item_effect exec it s s' = (case it of
     Some (Exchange r a) \<Rightarrow> answer exec r s = (a, s') \<and>
       operation_from r = (Ok (request_command r) :: (engine_error, command) res)
   | _ \<Rightarrow> s' = s)"

lemma conn_of_select [simp]:
  "cn_net (conn_of t s) = ct_net t" "cn_out (conn_of t s) = ct_out t"
  "cn_write_faults (conn_of t s) = ct_write_faults t" "cn_store (conn_of t s) = s"
  by (simp_all add: conn_of_def)

lemma task_of_select [simp]:
  "ct_net (task_of ph c) = cn_net c" "ct_out (task_of ph c) = cn_out c"
  "ct_write_faults (task_of ph c) = cn_write_faults c" "ct_phase (task_of ph c) = ph"
  by (simp_all add: task_of_def)

lemma received_operation:
  assumes "recv_tcp_request u n net = Some (Ok r, net')"
  shows "operation_from r = (Ok (request_command r) :: (engine_error, command) res)"
  using recv_tcp_request_value [OF assms]
  by (cases "th_request_type (tr_headers r)") (auto simp: operation_from_def request_command_def)

lemma handle_received_no_panic:
  assumes op: "operation_from r = (Ok (request_command r) :: (engine_error, command) res)"
    and np: "\<forall>cmd s. fst (exec cmd s) \<noteq> Panic"
  shows "fst (handle_tcp_request exec r s) \<noteq> Panic"
proof -
  obtain x s' where e: "exec (request_command r) s = (x, s')" by (cases "exec (request_command r) s")
  have "x \<noteq> Panic" using np e by (metis fst_conv)
  then show ?thesis
    using e by (cases "request_command r"; cases x)
      (auto simp: handle_tcp_request_def op call_storage_engine_def bind_act_def split: option.split)
qed

lemma after_status_item:
  assumes "after_status u status c = (t', s')" "cn_write_faults c = []"
  shows "ct_write_faults t' = [] \<and> s' = cn_store c \<and>
    ct_out t' = cn_out c @ (if status = Ok CloseNotify then response_to_bytes u (create_close_notification u) else [])"
  using assms
  by (cases status rule: res.exhaust)
    (auto simp: after_status_def send_close_notification_def write_all_def Let_def split: keep_alive.splits)

text \<open>The step inside a request.\<close>

lemma request_step_item:
  assumes run: "recv_and_handle_tcp_request u exec n (conn_of t s) = Some (status, c')"
    and nf: "ct_write_faults t = []" and np: "\<forall>cmd s. fst (exec cmd s) \<noteq> Panic"
    and ph: "ct_phase t = TkRequest n" and after: "after_status u status c' = (t', s')"
  shows "ct_write_faults t' = [] \<and> ct_out t' = ct_out t @ item_bytes u (step_item u exec False t s) \<and>
    item_effect exec (step_item u exec False t s) s s'"
proof -
  obtain r net where rv: "recv_tcp_request u n (ct_net t) = Some (r, net)"
    using run by (auto simp: recv_and_handle_tcp_request_def)
  show ?thesis
  proof (cases r)
    case (Ok req)
    note op = received_operation [OF rv [unfolded Ok]]
    obtain x s1 where h: "handle_tcp_request exec req s = (x, s1)"
      by (cases "handle_tcp_request exec req s")
    have "x \<noteq> Panic" using handle_received_no_panic [OF op np, of s] h by simp
    then show ?thesis
      using run nf ph after rv Ok h op
      by (cases x) (auto simp: recv_and_handle_tcp_request_def Let_def step_item_def item_bytes_def item_effect_def
          answer_def send_response_def send_internal_error_response_def write_all_def dest!: after_status_item)
  next
    case (Err e)
    show ?thesis
      using run nf ph after rv Err
      by (cases e; cases "\<exists>io. e = TcpConnectionError (ConnIo io)"; cases "e = TcpConnectionError TimedOut")
        (auto simp: recv_and_handle_tcp_request_def step_item_def item_bytes_def item_effect_def handle_tcp_error_def
          send_tcp_error_response_def write_all_def split: connection_error.splits dest!: after_status_item)
  next
    case Panic
    then show ?thesis
      using run nf ph after rv
      by (auto simp: recv_and_handle_tcp_request_def step_item_def item_bytes_def item_effect_def dest!: after_status_item)
  qed
qed

lemma task_step_item:
  assumes run: "task_step u exec cancelled t s = Some (t', s')"
    and nf: "ct_write_faults t = []" and np: "\<forall>cmd s. fst (exec cmd s) \<noteq> Panic"
  shows "ct_write_faults t' = [] \<and> ct_out t' = ct_out t @ item_bytes u (step_item u exec cancelled t s) \<and>
    item_effect exec (step_item u exec cancelled t s) s s'"
proof (cases "ct_phase t")
  case TkIdle
  show ?thesis
  proof (cases cancelled)
    case True
    then show ?thesis
      using run nf TkIdle after_status_item [of u "Ok CloseNotify" "conn_of t s" t' s']
      by (simp add: task_step_def step_item_def item_bytes_def item_effect_def Let_def)
  next
    case False
    obtain h net where h: "recv_header_len (ct_net t) = (h, net)" by (cases "recv_header_len (ct_net t)")
    show ?thesis
      using run nf TkIdle False h
      by (auto simp: task_step_def step_item_def item_bytes_def item_effect_def Let_def
          split: res.splits close_mode.splits dest!: after_status_item)
  qed
next
  case (TkRequest n)
  then obtain status c' where "\<not> cancelled" "recv_and_handle_tcp_request u exec n (conn_of t s) = Some (status, c')"
    "after_status u status c' = (t', s')"
    using run by (auto simp: task_step_def Let_def split: if_splits)
  then show ?thesis using request_step_item [OF _ nf np TkRequest] by simp
qed (use run in \<open>simp add: task_step_def Let_def\<close>)

section \<open>The log of a run\<close>

definition event_items :: "'u uuid_lib \<Rightarrow> 's store_exec \<Rightarrow> server_event \<Rightarrow> 's server \<Rightarrow> (nat \<times> 'u served_item) list" where
  "event_items u exec ev s = (case ev of
     SrvTask n cancelled \<Rightarrow>
       (case step_item u exec cancelled (sv_tasks s ! n) (sv_store s) of None \<Rightarrow> [] | Some it \<Rightarrow> [(n, it)])
   | _ \<Rightarrow> [])"

fun server_log :: "'u uuid_lib \<Rightarrow> 's store_exec \<Rightarrow> server_event list \<Rightarrow> 's server \<Rightarrow> (nat \<times> 'u served_item) list" where
  "server_log u exec [] s = []"
| "server_log u exec (ev # evs) s =
    (case server_step u exec ev s of None \<Rightarrow> []
     | Some s' \<Rightarrow> event_items u exec ev s @ server_log u exec evs s')"

text \<open>The requests that reached the store, with their answers, in the order of the steps.\<close>

fun exchanges :: "(nat \<times> 'u served_item) list \<Rightarrow> ('u tcp_request \<times> 'u tcp_response) list" where
  "exchanges [] = []"
| "exchanges ((n, Exchange r a) # log) = (r, a) # exchanges log"
| "exchanges ((n, it) # log) = exchanges log"

text \<open>What was said on one connection.\<close>

definition items_of :: "nat \<Rightarrow> (nat \<times> 'u served_item) list \<Rightarrow> 'u served_item list" where
  "items_of n log = map snd (filter (\<lambda>(m, it). m = n) log)"

lemma exchanges_append: "exchanges (xs @ ys) = exchanges xs @ exchanges ys"
  by (induction xs rule: exchanges.induct) auto

lemma items_of_append [simp]: "items_of n (xs @ ys) = items_of n xs @ items_of n ys"
  by (simp add: items_of_def)

definition no_write_faults :: "'s server \<Rightarrow> bool" where
  "no_write_faults s \<longleftrightarrow> (\<forall>t \<in> set (sv_tasks s). ct_write_faults t = [])"

definition accepts_clean :: "server_event \<Rightarrow> bool" where
  "accepts_clean ev = (case ev of SrvAccept (Some (net, faults)) \<Rightarrow> faults = [] | _ \<Rightarrow> True)"

lemma server_step_task:
  assumes "server_step u exec (SrvTask n cancelled) s = Some s'"
  obtains t st where "n < length (sv_tasks s)" "cancelled \<longrightarrow> sv_token s"
    "task_step u exec cancelled (sv_tasks s ! n) (sv_store s) = Some (t, st)"
    "s' = s\<lparr>sv_store := st, sv_tasks := (sv_tasks s)[n := t]\<rparr>"
  using assms by (auto simp: connection_drop_def split: if_splits)

text \<open>Every other event leaves the store and the tasks alone, but for an accepted connection.\<close>

lemma server_step_other:
  assumes run: "server_step u exec ev s = Some s'" and ev: "\<forall>n cancelled. ev \<noteq> SrvTask n cancelled"
  shows "sv_store s' = sv_store s \<and>
    (sv_tasks s' = sv_tasks s \<or>
     (\<exists>net faults. ev = SrvAccept (Some (net, faults)) \<and>
        sv_tasks s' = sv_tasks s @ [start_connection net faults (sv_store s)]))"
  using assms by (cases ev) (auto simp: Let_def split: if_splits option.splits)

lemma server_step_outputs:
  assumes run: "server_step u exec ev s = Some s'" and np: "\<forall>cmd s. fst (exec cmd s) \<noteq> Panic"
    and clean: "no_write_faults s" "accepts_clean ev"
  shows "no_write_faults s' \<and> length (sv_tasks s) \<le> length (sv_tasks s') \<and>
    (\<forall>n < length (sv_tasks s'). ct_out (sv_tasks s' ! n) =
      (if n < length (sv_tasks s) then ct_out (sv_tasks s ! n) else []) @
      concat (map (item_bytes u \<circ> Some) (items_of n (event_items u exec ev s))))"
proof (cases "\<exists>n cancelled. ev = SrvTask n cancelled")
  case True
  then obtain n cancelled where ev: "ev = SrvTask n cancelled" by blast
  obtain t st where st: "n < length (sv_tasks s)"
    "task_step u exec cancelled (sv_tasks s ! n) (sv_store s) = Some (t, st)"
    "s' = s\<lparr>sv_store := st, sv_tasks := (sv_tasks s)[n := t]\<rparr>"
    using run unfolding ev by (rule server_step_task)
  have "ct_write_faults (sv_tasks s ! n) = []" using clean(1) st(1) by (simp add: no_write_faults_def)
  note i = task_step_item [OF st(2) this np]
  have "no_write_faults s'"
    using i clean(1) st by (auto simp: no_write_faults_def dest!: set_update_subset_insert [THEN subsetD])
  then show ?thesis
    using i st by (auto simp: ev event_items_def items_of_def nth_list_update item_bytes_def split: option.splits)
next
  case False
  then have none: "event_items u exec ev s = []" by (cases ev) (simp_all add: event_items_def)
  have o: "sv_tasks s' = sv_tasks s \<or> (\<exists>net faults. ev = SrvAccept (Some (net, faults)) \<and>
        sv_tasks s' = sv_tasks s @ [start_connection net faults (sv_store s)])"
    using server_step_other [OF run] False by blast
  then show ?thesis
    using clean none
    by (auto simp: no_write_faults_def accepts_clean_def items_of_def start_connection_def tcp_connection_new_def
        nth_append less_Suc_eq)
qed

text \<open>The output of every connection is exactly what the log says of it.\<close>

lemma server_run_outputs:
  assumes "server_run u exec evs s = Some s'" "\<forall>cmd s. fst (exec cmd s) \<noteq> Panic"
    and "no_write_faults s" "\<forall>ev \<in> set evs. accepts_clean ev"
  shows "length (sv_tasks s) \<le> length (sv_tasks s') \<and>
    (\<forall>n < length (sv_tasks s'). ct_out (sv_tasks s' ! n) =
      (if n < length (sv_tasks s) then ct_out (sv_tasks s ! n) else []) @
      concat (map (item_bytes u \<circ> Some) (items_of n (server_log u exec evs s))))"
  using assms
proof (induction evs arbitrary: s)
  case Nil
  then show ?case by (simp add: items_of_def)
next
  case (Cons ev evs)
  obtain s1 where s1: "server_step u exec ev s = Some s1" "server_run u exec evs s1 = Some s'"
    using Cons.prems(1) by (auto simp: bind_eq_Some_conv)
  note st = server_step_outputs [OF s1(1) Cons.prems(2,3)]
  have c: "accepts_clean ev" "\<forall>ev \<in> set evs. accepts_clean ev" using Cons.prems(4) by simp_all
  have "no_write_faults s1" using st c(1) by blast
  note ih = Cons.IH [OF s1(2) Cons.prems(2) this c(2)]
  show ?case
  proof (intro conjI allI impI)
    show "length (sv_tasks s) \<le> length (sv_tasks s')" using ih st c(1) by linarith
    fix n assume n: "n < length (sv_tasks s')"
    have "ct_out (sv_tasks s' ! n) = (if n < length (sv_tasks s1) then ct_out (sv_tasks s1 ! n) else []) @
        concat (map (item_bytes u \<circ> Some) (items_of n (server_log u exec evs s1)))" using ih n by blast
    moreover have "(if n < length (sv_tasks s1) then ct_out (sv_tasks s1 ! n) else []) =
        (if n < length (sv_tasks s) then ct_out (sv_tasks s ! n) else []) @
        concat (map (item_bytes u \<circ> Some) (items_of n (event_items u exec ev s)))"
    proof (cases "n < length (sv_tasks s1)")
      case False
      then have "items_of n (event_items u exec ev s) = []"
        using s1(1) st c(1)
        by (cases ev) (auto simp: event_items_def items_of_def split: option.splits if_splits)
      then show ?thesis using False st c(1) by auto
    qed (use st c(1) in auto)
    ultimately show "ct_out (sv_tasks s' ! n) = (if n < length (sv_tasks s) then ct_out (sv_tasks s ! n) else []) @
        concat (map (item_bytes u \<circ> Some) (items_of n (server_log u exec (ev # evs) s)))"
      using s1(1) by simp
  qed
qed

section \<open>One map for all connections\<close>

definition exchange_ok :: "(command \<Rightarrow> bool) \<Rightarrow> nat \<times> 'u served_item \<Rightarrow> bool" where
  "exchange_ok small = (\<lambda>(n, it). case it of
     Exchange r a \<Rightarrow> small (request_command r) \<and> served a | _ \<Rightarrow> True)"

context store
begin

lemma step_agrees:
  assumes run: "task_step u exec cancelled t s = Some (t', s')" and nf: "ct_write_faults t = []"
    and i: "inv s" and ok: "\<forall>it. step_item u exec cancelled t s = Some it \<longrightarrow> exchange_ok small (n, it)"
  shows "inv s' \<and> (case step_item u exec cancelled t s of
      Some (Exchange r a) \<Rightarrow> view s' = spec_command (request_command r) (view s) \<and> response_agrees r a (view s)
    | _ \<Rightarrow> view s' = view s)"
proof -
  have eff: "item_effect exec (step_item u exec cancelled t s) s s'"
    using task_step_item [OF run nf] exec_errors(1) by blast
  show ?thesis
  proof (cases "\<exists>r a. step_item u exec cancelled t s = Some (Exchange r a)")
    case True
    then obtain r a where it: "step_item u exec cancelled t s = Some (Exchange r a)" by blast
    then show ?thesis
      using eff ok answer_agrees [of r s a s'] i by (simp add: item_effect_def exchange_ok_def)
  next
    case False
    then show ?thesis using eff i by (auto simp: item_effect_def split: option.splits served_item.splits)
  qed
qed

lemma server_run_agrees:
  assumes "server_run u exec evs s = Some s'" "inv (sv_store s)"
    and "no_write_faults s" "\<forall>ev \<in> set evs. accepts_clean ev"
    and "\<forall>x \<in> set (server_log u exec evs s). exchange_ok small x"
  shows "inv (sv_store s') \<and>
    view (sv_store s') = fold spec_command (map request_command (map fst (exchanges (server_log u exec evs s)))) (view (sv_store s)) \<and>
    conversation_agrees (map fst (exchanges (server_log u exec evs s))) (map snd (exchanges (server_log u exec evs s))) (view (sv_store s))"
  using assms
proof (induction evs arbitrary: s)
  case (Cons ev evs)
  have np: "\<forall>cmd s. fst (exec cmd s) \<noteq> Panic" using exec_errors(1) by blast
  obtain s1 where s1: "server_step u exec ev s = Some s1" "server_run u exec evs s1 = Some s'"
    using Cons.prems(1) by (auto simp: bind_eq_Some_conv)
  have log: "server_log u exec (ev # evs) s = event_items u exec ev s @ server_log u exec evs s1" by (simp add: s1(1))
  have ok: "\<forall>x \<in> set (event_items u exec ev s). exchange_ok small x"
    "\<forall>x \<in> set (server_log u exec evs s1). exchange_ok small x"
    using Cons.prems(5) unfolding log by simp_all
  have c: "accepts_clean ev" "\<forall>ev \<in> set evs. accepts_clean ev" using Cons.prems(4) by simp_all
  have nf: "no_write_faults s1" using server_step_outputs [OF s1(1) np Cons.prems(3) c(1)] by blast
  have head: "inv (sv_store s1) \<and>
     (exchanges (event_items u exec ev s) = [] \<and> view (sv_store s1) = view (sv_store s) \<or>
      (\<exists>r a. exchanges (event_items u exec ev s) = [(r, a)] \<and>
         view (sv_store s1) = spec_command (request_command r) (view (sv_store s)) \<and> response_agrees r a (view (sv_store s))))"
  proof (cases "\<exists>n cancelled. ev = SrvTask n cancelled")
    case True
    then obtain n cancelled where ev: "ev = SrvTask n cancelled" by blast
    obtain t st where st: "n < length (sv_tasks s)"
      "task_step u exec cancelled (sv_tasks s ! n) (sv_store s) = Some (t, st)"
      "s1 = s\<lparr>sv_store := st, sv_tasks := (sv_tasks s)[n := t]\<rparr>"
      using s1(1) unfolding ev by (rule server_step_task)
    have t0: "ct_write_faults (sv_tasks s ! n) = []" using Cons.prems(3) st(1) by (simp add: no_write_faults_def)
    have "\<forall>it. step_item u exec cancelled (sv_tasks s ! n) (sv_store s) = Some it \<longrightarrow> exchange_ok small (n, it)"
      using ok(1) by (auto simp: ev event_items_def)
    from step_agrees [OF st(2) t0 Cons.prems(2) this] show ?thesis
      by (cases "step_item u exec cancelled (sv_tasks s ! n) (sv_store s)")
        (auto simp: ev event_items_def st(3) split: served_item.splits)
  next
    case False
    then show ?thesis
      using server_step_other [OF s1(1)] Cons.prems(2) by (cases ev) (auto simp: event_items_def)
  qed
  have i1: "inv (sv_store s1)" using head by blast
  have ih: "inv (sv_store s') \<and>
    view (sv_store s') = fold spec_command (map request_command (map fst (exchanges (server_log u exec evs s1)))) (view (sv_store s1)) \<and>
    conversation_agrees (map fst (exchanges (server_log u exec evs s1))) (map snd (exchanges (server_log u exec evs s1))) (view (sv_store s1))"
    by (rule Cons.IH [OF s1(2) i1 nf c(2)]) (rule ok(2))
  show ?case
    using ih head unfolding log exchanges_append by (auto simp del: map_map)
qed simp

end

end
