(* ===== verification/Server_Life.thy ===== *)
theory Server_Life
  imports Server_Run
begin

text \<open>
  The life of a server: how the connections, the channel and the manager's handles stand to
  each other in every reachable state, when \<open>run\<close> can still return, and what it has waited
  for when it does.
\<close>

section \<open>The invariant\<close>

text \<open>
  The manager has the handles of the first \<open>k\<close> connections.  While it receives, the start
  signals of all later ones are in the channel; once it has stopped, one start signal was taken
  and dropped after the cancellation, or the server gave up on an error and nobody sends.
\<close>

definition stopped_after :: "'s server \<Rightarrow> nat \<Rightarrow> bool" where
  "stopped_after s k \<longleftrightarrow> sv_do_cancel s \<and> k < sv_last_conn_id s \<or> sv_phase s = SvReturned (Err OsError)"

definition manager_inv :: "'s server \<Rightarrow> nat \<Rightarrow> bool" where
  "manager_inv s k \<longleftrightarrow> cm_handles (sv_manager s) = [0..<k] \<and> k \<le> sv_last_conn_id s \<and>
     (case cm_phase (sv_manager s) of
        MgReceive \<Rightarrow> sv_channel s = map StartSignal [k..<sv_last_conn_id s] \<and> sv_phase s \<noteq> SvReturned (Ok ())
      | MgAwait n \<Rightarrow> False
      | MgDrain ns \<Rightarrow> sv_phase s \<noteq> SvReturned (Ok ()) \<and> stopped_after s k \<and>
          (\<exists>j \<le> k. ns = [j..<k] \<and> (\<forall>i < j. task_done s i))
      | MgDone \<Rightarrow> stopped_after s k \<and> (\<forall>i < k. task_done s i))"

definition server_inv :: "'s server \<Rightarrow> bool" where
  "server_inv s \<longleftrightarrow>
     sv_last_conn_id s \<le> length (sv_tasks s) \<and>
     (sv_phase s \<in> {SvBind, SvHead, SvAccept, SvJoin} \<longrightarrow> length (sv_tasks s) = sv_last_conn_id s) \<and>
     (sv_phase s = SvSend \<longrightarrow> length (sv_tasks s) = sv_last_conn_id s + 1) \<and>
     length (sv_channel s) \<le> channel_capacity \<and> (\<forall>n. CompletionSignal n \<notin> set (sv_channel s)) \<and>
     (\<forall>r. sv_phase s = SvReturned r \<longrightarrow> r = Ok () \<or> r = Err OsError) \<and>
     (sv_phase s \<in> {SvJoin, SvReturned (Ok ())} \<longrightarrow> sv_token s \<and> sv_do_cancel s) \<and>
     (\<exists>k. manager_inv s k)"

lemma server_inv_new: "server_inv (server_new st)"
proof -
  have "manager_inv (server_new st) 0"
    by (simp add: manager_inv_def server_new_def connection_manager_new_def)
  then show ?thesis unfolding server_inv_def by (auto simp: server_new_def)
qed

lemma task_step_running: "task_step u exec cancelled t s = Some x \<Longrightarrow> ct_phase t \<noteq> TkDone"
  by (auto simp: task_step_def Let_def)

lemma task_done_stays:
  assumes run: "server_step u exec ev s = Some s'" and d: "task_done s n"
  shows "task_done s' n"
proof (cases "\<exists>m cancelled. ev = SrvTask m cancelled")
  case True
  then obtain m cancelled where ev: "ev = SrvTask m cancelled" by blast
  obtain t st where st: "task_step u exec cancelled (sv_tasks s ! m) (sv_store s) = Some (t, st)"
    "s' = s\<lparr>sv_store := st, sv_tasks := (sv_tasks s)[m := t]\<rparr>"
    using run unfolding ev by (rule server_step_task)
  have "m \<noteq> n" using task_step_running [OF st(1)] d by (auto simp: task_done_def)
  then show ?thesis using d st(2) by (simp add: task_done_def)
next
  case False
  then show ?thesis
    using server_step_other [OF run] d by (auto simp: task_done_def nth_append)
qed

text \<open>An event that leaves the manager and its channel alone keeps the manager's part.\<close>

lemma manager_inv_frame:
  assumes "manager_inv s k" "sv_manager s' = sv_manager s" "sv_channel s' = sv_channel s"
    and "sv_last_conn_id s' = sv_last_conn_id s" "sv_do_cancel s \<longrightarrow> sv_do_cancel s'"
    and "\<forall>n. task_done s n \<longrightarrow> task_done s' n" "sv_phase s' \<noteq> SvReturned (Ok ())"
    and "sv_phase s = SvReturned (Err OsError) \<longrightarrow> sv_phase s' = SvReturned (Err OsError)"
  shows "manager_inv s' k"
  using assms by (auto simp: manager_inv_def stopped_after_def split: manager_phase.splits)

lemma manager_inv_send:
  assumes inv: "manager_inv s k" and ph: "sv_phase s = SvSend"
    and s': "s' = s\<lparr>sv_last_conn_id := sv_last_conn_id s + 1, sv_phase := SvHead,
      sv_channel := (if cm_phase (sv_manager s) = MgDone then sv_channel s
        else sv_channel s @ [StartSignal (sv_last_conn_id s)])\<rparr>"
  shows "manager_inv s' k"
  using inv ph by (auto simp: manager_inv_def stopped_after_def task_done_def s' split: manager_phase.splits)

lemma manager_step_inv:
  assumes inv: "server_inv s" and run: "server_step u exec SrvManager s = Some s'"
  shows "\<exists>k. manager_inv s' k"
proof -
  obtain k where m: "manager_inv s k" using inv by (auto simp: server_inv_def)
  obtain channel mg where st: "manager_step (sv_do_cancel s) (senders_alive s) (task_done s) (sv_channel s) (sv_manager s) =
      Some (channel, mg)" and s': "s' = s\<lparr>sv_channel := channel, sv_manager := mg\<rparr>"
    using run by auto
  have done_eq: "task_done s' = task_done s" by (simp add: s' task_done_def fun_eq_iff)
  have hd: "cm_handles (sv_manager s) = [0..<k]" "k \<le> sv_last_conn_id s" using m by (simp_all add: manager_inv_def)
  show ?thesis
  proof (cases "cm_phase (sv_manager s)")
    case MgReceive
    then have ch: "sv_channel s = map StartSignal [k..<sv_last_conn_id s]" "sv_phase s \<noteq> SvReturned (Ok ())"
      using m by (simp_all add: manager_inv_def)
    show ?thesis
    proof (cases "k < sv_last_conn_id s")
      case True
      then have c: "sv_channel s = StartSignal k # map StartSignal [Suc k..<sv_last_conn_id s]"
        using ch(1) by (simp add: upt_conv_Cons)
      show ?thesis
      proof (cases "sv_do_cancel s")
        case True
        then have "manager_inv s' k"
          using st c hd ch(2) \<open>k < sv_last_conn_id s\<close>
          by (auto simp: manager_step_def MgReceive s' manager_inv_def stopped_after_def intro!: exI [of _ 0])
        then show ?thesis ..
      next
        case False
        then have "manager_inv s' (Suc k)"
          using st c hd ch(2) \<open>k < sv_last_conn_id s\<close>
          by (simp add: manager_step_def MgReceive manager_inv_def s') (auto simp: MgReceive)
        then show ?thesis ..
      qed
    next
      case False
      then have e: "sv_channel s = []" using ch(1) by simp
      then have "\<not> senders_alive s" using st by (auto simp: manager_step_def MgReceive split: if_splits)
      then obtain r where "sv_phase s = SvReturned r"
        by (cases "sv_phase s") (simp_all add: senders_alive_def)
      then have "sv_phase s = SvReturned (Err OsError)" using inv ch(2) by (auto simp: server_inv_def)
      then have "manager_inv s' k"
        using st e hd
        by (auto simp: manager_step_def MgReceive s' manager_inv_def stopped_after_def split: if_splits intro!: exI [of _ 0])
      then show ?thesis ..
    qed
  next
    case (MgDrain ns)
    then obtain j where j: "j \<le> k" "ns = [j..<k]" "\<forall>i < j. task_done s i" "stopped_after s k" "sv_phase s \<noteq> SvReturned (Ok ())"
      using m by (auto simp: manager_inv_def)
    have stop: "stopped_after s' k" using j(4) by (simp add: stopped_after_def s')
    show ?thesis
    proof (cases "j < k")
      case True
      then have ns: "ns = j # [Suc j..<k]" using j(2) by (simp add: upt_conv_Cons)
      then have d: "task_done s j" "channel = sv_channel s" "mg = (sv_manager s)\<lparr>cm_phase := MgDrain [Suc j..<k]\<rparr>"
        using st by (auto simp: manager_step_def MgDrain split: if_splits)
      have "\<forall>i < Suc j. task_done s' i" using j(3) d(1) by (auto simp: done_eq less_Suc_eq)
      then have "manager_inv s' k"
        using stop hd j(5) True d(2,3) by (auto simp: manager_inv_def s' intro!: exI [of _ "Suc j"])
      then show ?thesis ..
    next
      case False
      then have "ns = []" "j = k" using j(1,2) by simp_all
      then have "mg = (sv_manager s)\<lparr>cm_phase := MgDone\<rparr>" using st by (simp add: manager_step_def MgDrain)
      then have "manager_inv s' k" using stop hd j(3) \<open>j = k\<close> by (simp add: manager_inv_def s' task_done_def)
      then show ?thesis ..
    qed
  qed (use m st in \<open>simp_all add: manager_inv_def manager_step_def\<close>)
qed

lemma server_step_inv:
  assumes inv: "server_inv s" and run: "server_step u exec ev s = Some s'"
  shows "server_inv s'"
proof -
  obtain k where m: "manager_inv s k" using inv by (auto simp: server_inv_def)
  have mono: "\<forall>n. task_done s n \<longrightarrow> task_done s' n" using task_done_stays [OF run] by blast
  show ?thesis
  proof (cases ev)
    case SrvManager
    then obtain k' where "manager_inv s' k'" using manager_step_inv [OF inv, of u exec] run by blast
    moreover have eq: "sv_phase s' = sv_phase s" "sv_tasks s' = sv_tasks s" "sv_last_conn_id s' = sv_last_conn_id s"
      "sv_token s' = sv_token s" "sv_do_cancel s' = sv_do_cancel s" and ch: "set (sv_channel s') \<subseteq> set (sv_channel s)"
      "length (sv_channel s') \<le> length (sv_channel s)"
      using run by (auto simp: SrvManager manager_step_def split: manager_phase.splits list.splits if_splits)
    moreover have "length (sv_channel s') \<le> channel_capacity" "\<forall>n. CompletionSignal n \<notin> set (sv_channel s')"
      using inv ch by (auto simp: server_inv_def)
    ultimately show ?thesis using inv by (auto simp: server_inv_def eq)
  next
    case SrvSend
    then have ph: "sv_phase s = SvSend" using run by (auto split: if_splits)
    let ?s = "s\<lparr>sv_last_conn_id := sv_last_conn_id s + 1, sv_phase := SvHead,
      sv_channel := (if cm_phase (sv_manager s) = MgDone then sv_channel s
        else sv_channel s @ [StartSignal (sv_last_conn_id s)])\<rparr>"
    have s': "s' = ?s" using run by (auto simp: SrvSend Let_def split: if_splits)
    have "cm_phase (sv_manager s) = MgDone \<or> length (sv_channel s) < channel_capacity"
      using run by (auto simp: SrvSend Let_def split: if_splits)
    then show ?thesis
      using inv ph manager_inv_send [OF m ph s'] by (auto simp: server_inv_def s')
  next
    case SrvJoin
    then have j: "sv_phase s = SvJoin" "cm_phase (sv_manager s) = MgDone" "s' = s\<lparr>sv_phase := SvReturned (Ok ())\<rparr>"
      using run by (auto split: if_splits)
    have "manager_inv s' k"
      using m j inv by (auto simp: manager_inv_def stopped_after_def task_done_def)
    then show ?thesis using inv j by (auto simp: server_inv_def)
  next
    case (SrvTask n cancelled)
    obtain t st where st: "n < length (sv_tasks s)" "s' = s\<lparr>sv_store := st, sv_tasks := (sv_tasks s)[n := t]\<rparr>"
      using run unfolding SrvTask by (rule server_step_task)
    have "manager_inv s' k"
    proof (cases "sv_phase s = SvReturned (Ok ())")
      case True
      then show ?thesis using m mono by (auto simp: manager_inv_def stopped_after_def st(2) split: manager_phase.splits)
    next
      case False
      then show ?thesis by (intro manager_inv_frame [OF m _ _ _ _ mono]) (simp_all add: st(2))
    qed
    then show ?thesis using inv by (auto simp: server_inv_def st(2))
  next
    case SrvCancel
    have s': "s' = s\<lparr>sv_do_cancel := True\<rparr>" using run by (simp add: SrvCancel)
    have "manager_inv s' k"
    proof (cases "sv_phase s = SvReturned (Ok ())")
      case True
      then have "cm_phase (sv_manager s) = MgDone" using m by (cases "cm_phase (sv_manager s)") (simp_all add: manager_inv_def)
      then show ?thesis using m True mono by (simp add: manager_inv_def stopped_after_def s')
    next
      case False
      then show ?thesis by (intro manager_inv_frame [OF m _ _ _ _ mono]) (simp_all add: s')
    qed
    then show ?thesis using inv by (auto simp: s' server_inv_def)
  next
    case (SrvBind bound)
    have "manager_inv s' k"
      by (rule manager_inv_frame [OF m _ _ _ _ mono]) (use run in \<open>auto simp: SrvBind split: if_splits\<close>)
    then show ?thesis using run inv by (auto simp: SrvBind server_inv_def split: if_splits)
  next
    case SrvHead
    have "manager_inv s' k"
      by (rule manager_inv_frame [OF m _ _ _ _ mono]) (use run in \<open>auto simp: SrvHead split: if_splits\<close>)
    then show ?thesis using run inv by (auto simp: SrvHead server_inv_def split: if_splits)
  next
    case (SrvAccept accepted)
    have "manager_inv s' k"
      by (rule manager_inv_frame [OF m _ _ _ _ mono]) (use run in \<open>auto simp: SrvAccept split: if_splits option.splits\<close>)
    then show ?thesis using run inv by (auto simp: SrvAccept server_inv_def split: if_splits option.splits)
  qed
qed

lemma server_reach_inv: "server_reach u exec s0 evs s \<Longrightarrow> server_inv s0 \<Longrightarrow> server_inv s"
  by (induction rule: server_reach.induct) (auto intro: server_step_inv)

section \<open>Stopping\<close>

lemma server_run_append:
  "server_run u exec (evs @ evs') s = Option.bind (server_run u exec evs s) (server_run u exec evs')"
proof (induction evs arbitrary: s)
  case (Cons ev evs)
  then show ?case by (cases "server_step u exec ev s") simp_all
qed simp

text \<open>A step that a run cannot leave.\<close>

lemma server_run_keeps:
  assumes "server_run u exec evs s = Some s'" "P s"
    and "\<And>ev s s'. P s \<Longrightarrow> server_step u exec ev s = Some s' \<Longrightarrow> P s'"
  shows "P s'"
  using assms(1,2)
proof (induction evs arbitrary: s)
  case (Cons ev evs)
  then obtain s1 where s1: "server_step u exec ev s = Some s1" "server_run u exec evs s1 = Some s'"
    by (auto simp: bind_eq_Some_conv)
  show ?case by (rule Cons.IH [OF s1(2) assms(3) [OF Cons.prems(2) s1(1)]])
qed simp

definition idle_join :: "'s server \<Rightarrow> bool" where
  "idle_join s \<longleftrightarrow> sv_phase s = SvJoin \<and> cm_phase (sv_manager s) = MgReceive \<and> sv_channel s = []"

lemma idle_join_step:
  assumes "idle_join s" "server_step u exec ev s = Some s'"
  shows "idle_join s'"
  using assms
  by (cases ev) (auto simp: idle_join_def manager_step_def senders_alive_def connection_drop_def split: if_splits)

text \<open>A task inside a request whose bytes do not arrive holds up whoever awaits it.\<close>

definition awaited :: "nat \<Rightarrow> connection_manager \<Rightarrow> bool" where
  "awaited n m = (case cm_phase m of
     MgReceive \<Rightarrow> n \<in> set (cm_handles m)
   | MgAwait n' \<Rightarrow> n' = n \<or> n \<in> set (cm_handles m)
   | MgDrain ns \<Rightarrow> n \<in> set ns
   | MgDone \<Rightarrow> False)"

definition held_up :: "'u uuid_lib \<Rightarrow> nat \<Rightarrow> nat \<Rightarrow> conn_task \<Rightarrow> 's server \<Rightarrow> bool" where
  "held_up u n header_len t s \<longleftrightarrow> n < length (sv_tasks s) \<and> sv_tasks s ! n = t \<and>
     ct_phase t = TkRequest header_len \<and> recv_tcp_request u header_len (ct_net t) = None \<and>
     sv_phase s \<noteq> SvReturned (Ok ()) \<and> awaited n (sv_manager s)"

lemma held_up_manager:
  assumes h: "held_up u n header_len t s" and run: "server_step u exec SrvManager s = Some s'"
  shows "held_up u n header_len t s'"
proof -
  have nd: "\<not> task_done s n" using h by (simp add: held_up_def task_done_def)
  obtain channel mg where st: "manager_step (sv_do_cancel s) (senders_alive s) (task_done s) (sv_channel s) (sv_manager s) =
      Some (channel, mg)" and s': "s' = s\<lparr>sv_channel := channel, sv_manager := mg\<rparr>"
    using run by auto
  have aw: "awaited n (sv_manager s)" using h by (simp add: held_up_def)
  have "awaited n mg"
  proof (cases "cm_phase (sv_manager s)")
    case MgReceive
    then show ?thesis
      using st aw
      by (auto simp: awaited_def manager_step_def split: list.splits if_splits connection_data.splits)
  next
    case (MgAwait m)
    then show ?thesis using st aw nd by (auto simp: awaited_def manager_step_def split: if_splits)
  next
    case (MgDrain ns)
    then show ?thesis using st aw nd by (cases ns) (auto simp: awaited_def manager_step_def split: if_splits)
  qed (use aw in \<open>simp add: awaited_def\<close>)
  then show ?thesis using h by (simp add: held_up_def s')
qed

lemma held_up_step:
  assumes h: "held_up u n header_len t s" and run: "server_step u exec ev s = Some s'"
  shows "held_up u n header_len t s'"
proof (cases ev)
  case SrvManager
  then show ?thesis using held_up_manager [OF h] run by simp
next
  case (SrvTask m cancelled)
  obtain t' st where st: "task_step u exec cancelled (sv_tasks s ! m) (sv_store s) = Some (t', st)"
    "s' = s\<lparr>sv_store := st, sv_tasks := (sv_tasks s)[m := t']\<rparr>"
    using run unfolding SrvTask by (rule server_step_task)
  have "m \<noteq> n"
  proof
    assume "m = n"
    then have "task_step u exec cancelled (sv_tasks s ! m) (sv_store s) = None"
      using h by (simp add: held_up_def task_step_def Let_def recv_and_handle_tcp_request_def)
    then show False using st(1) by simp
  qed
  then show ?thesis using h st(2) by (simp add: held_up_def)
next
  case SrvJoin
  then show ?thesis using h run by (auto simp: held_up_def awaited_def split: if_splits)
next
  case SrvSend
  then show ?thesis using h run by (auto simp: held_up_def Let_def split: if_splits)
next
  case (SrvAccept accepted)
  then show ?thesis using h run by (auto simp: held_up_def nth_append split: if_splits option.splits)
qed (use h run in \<open>auto simp: held_up_def split: if_splits\<close>)

text \<open>With the connections cancelled, tasks between two requests end.\<close>

definition between_requests :: "'s server \<Rightarrow> bool" where
  "between_requests s \<longleftrightarrow> (\<forall>t \<in> set (sv_tasks s). ct_phase t = TkIdle \<or> ct_phase t = TkDone)"

lemma tasks_end:
  assumes "sv_token s" "between_requests s" "n \<le> length (sv_tasks s)"
  shows "\<exists>evs st ts. server_run u exec evs s = Some (s\<lparr>sv_store := st, sv_tasks := ts\<rparr>) \<and>
    length ts = length (sv_tasks s) \<and> (\<forall>i < n. ct_phase (ts ! i) = TkDone) \<and>
    (\<forall>i. n \<le> i \<longrightarrow> ts ! i = sv_tasks s ! i)"
  using assms(3)
proof (induction n)
  case 0
  show ?case by (intro exI [of _ "[]"] exI [of _ "sv_store s"] exI [of _ "sv_tasks s"]) simp
next
  case (Suc n)
  then obtain evs st ts where ih: "server_run u exec evs s = Some (s\<lparr>sv_store := st, sv_tasks := ts\<rparr>)"
    "length ts = length (sv_tasks s)" "\<forall>i < n. ct_phase (ts ! i) = TkDone" "\<forall>i. n \<le> i \<longrightarrow> ts ! i = sv_tasks s ! i"
    by auto
  have t: "ts ! n = sv_tasks s ! n" "n < length ts" using ih(2,4) Suc.prems by auto
  have "sv_tasks s ! n \<in> set (sv_tasks s)" using Suc.prems by simp
  then consider "ct_phase (ts ! n) = TkIdle" | "ct_phase (ts ! n) = TkDone"
    using assms(2) t(1) unfolding between_requests_def by fastforce
  then show ?case
  proof cases
    case 1
    obtain t' st' where a: "after_status u (Ok CloseNotify) (conn_of (ts ! n) st) = (t', st')" "ct_phase t' = TkDone"
      by (simp add: after_status_def Let_def)
    have "task_step u exec True (ts ! n) st = Some (t', st')"
      using 1 a(1) by (simp add: task_step_def Let_def)
    then have "server_step u exec (SrvTask n True) (s\<lparr>sv_store := st, sv_tasks := ts\<rparr>) =
        Some (s\<lparr>sv_store := st', sv_tasks := ts[n := t']\<rparr>)"
      using t(2) assms(1) by (simp add: connection_drop_def)
    then show ?thesis
      using ih t a(2)
      by (intro exI [of _ "evs @ [SrvTask n True]"] exI [of _ st'] exI [of _ "ts[n := t']"])
        (auto simp: server_run_append nth_list_update less_Suc_eq)
  next
    case 2
    then show ?thesis using ih by (intro exI [of _ evs] exI [of _ st] exI [of _ ts]) (auto simp: less_Suc_eq)
  qed
qed

lemma manager_drains:
  assumes "cm_phase (sv_manager s) = MgDrain ns" "\<forall>n \<in> set ns. task_done s n"
  shows "\<exists>evs. server_run u exec evs s = Some (s\<lparr>sv_manager := (sv_manager s)\<lparr>cm_phase := MgDone\<rparr>\<rparr>)"
  using assms
proof (induction ns arbitrary: s)
  case Nil
  then show ?case by (intro exI [of _ "[SrvManager]"]) (simp add: manager_step_def)
next
  case (Cons n ns)
  let ?s = "s\<lparr>sv_manager := (sv_manager s)\<lparr>cm_phase := MgDrain ns\<rparr>\<rparr>"
  have st: "server_step u exec SrvManager s = Some ?s" using Cons.prems by (simp add: manager_step_def)
  have "\<forall>n \<in> set ns. task_done ?s n" using Cons.prems(2) by (simp add: task_done_def)
  then obtain evs where "server_run u exec evs ?s = Some (?s\<lparr>sv_manager := (sv_manager ?s)\<lparr>cm_phase := MgDone\<rparr>\<rparr>)"
    using Cons.IH [of ?s] by auto
  then show ?case using st by (intro exI [of _ "SrvManager # evs"]) (simp del: server_step.simps)
qed

lemma server_can_stop:
  assumes inv: "server_inv s" and ph: "sv_phase s = SvJoin" and btw: "between_requests s" and ne: "\<not> idle_join s"
  shows "\<exists>evs s'. server_run u exec evs s = Some s' \<and> sv_phase s' = SvReturned (Ok ())"
proof -
  have tok: "sv_token s" "sv_do_cancel s" and len: "length (sv_tasks s) = sv_last_conn_id s"
    using inv ph by (simp_all add: server_inv_def)
  obtain k where m: "manager_inv s k" using inv by (auto simp: server_inv_def)
  obtain evs1 st ts where r1: "server_run u exec evs1 s = Some (s\<lparr>sv_store := st, sv_tasks := ts\<rparr>)"
    "length ts = length (sv_tasks s)" "\<forall>i < length (sv_tasks s). ct_phase (ts ! i) = TkDone"
    using tasks_end [OF tok(1) btw order_refl] by blast
  let ?s = "s\<lparr>sv_store := st, sv_tasks := ts\<rparr>"
  have all: "task_done ?s i" if "i < k" for i
    using that r1(2,3) len m by (auto simp: task_done_def manager_inv_def)
  have "\<exists>evs2 s2. server_run u exec evs2 ?s = Some s2 \<and> sv_phase s2 = SvJoin \<and> cm_phase (sv_manager s2) = MgDone"
  proof (cases "cm_phase (sv_manager s)")
    case MgReceive
    then obtain msg msgs where ch: "sv_channel s = msg # msgs"
      using ne ph by (cases "sv_channel s") (auto simp: idle_join_def)
    let ?s2 = "?s\<lparr>sv_channel := msgs, sv_manager := (sv_manager s)\<lparr>cm_phase := MgDrain (cm_handles (sv_manager s))\<rparr>\<rparr>"
    have st: "server_step u exec SrvManager ?s = Some ?s2" using MgReceive ch tok(2) by (simp add: manager_step_def)
    have "\<forall>n \<in> set (cm_handles (sv_manager s)). task_done ?s2 n" using m all by (simp add: manager_inv_def task_done_def)
    then obtain evs2 where "server_run u exec evs2 ?s2 = Some (?s2\<lparr>sv_manager := (sv_manager ?s2)\<lparr>cm_phase := MgDone\<rparr>\<rparr>)"
      using manager_drains [of ?s2 "cm_handles (sv_manager s)" u exec] by auto
    then show ?thesis using st ph by (intro exI [of _ "SrvManager # evs2"]) (simp del: server_step.simps)
  next
    case (MgDrain ns)
    then have "\<forall>n \<in> set ns. task_done ?s n" using m all by (auto simp: manager_inv_def)
    then obtain evs2 where "server_run u exec evs2 ?s = Some (?s\<lparr>sv_manager := (sv_manager ?s)\<lparr>cm_phase := MgDone\<rparr>\<rparr>)"
      using manager_drains [of ?s ns u exec] MgDrain by auto
    then show ?thesis using ph by (intro exI [of _ evs2]) simp
  next
    case MgDone
    then show ?thesis using ph by (intro exI [of _ "[]"]) simp
  qed (use m in \<open>simp add: manager_inv_def\<close>)
  then obtain evs2 s2 where r2: "server_run u exec evs2 ?s = Some s2" "sv_phase s2 = SvJoin" "cm_phase (sv_manager s2) = MgDone"
    by blast
  then show ?thesis
    using r1(1) by (intro exI [of _ "evs1 @ evs2 @ [SrvJoin]"]) (simp add: server_run_append)
qed

end
