(* ===== verification/Mem_Crash.thy ===== *)
theory Mem_Crash
  imports Mem_Worker
begin

text \<open>
  Crash recovery: the process stops in the middle of an append, so that the last file of the
  log ends in a part of an entry.  When at least the header of the entry reached the file,
  the next start cuts the file back to the last whole entry and goes on from there.
\<close>

section \<open>The recovery loop on a torn log\<close>

lemma recover_segment_torn:
  assumes rc: "recovered es pre rc" and fs: "fs_faults fs = []" "fs_content fs (seg_path seg) = Some c"
    and parse: "parse_validate_wal_entries crc (seg_path seg) (pre @ c) = (es', Ok (Some pe))"
    and off: "length pre \<le> pe_offset pe"
  shows "\<exists>rc'. recover_segment crc seg (rc, fs) = (Ok (), rc', fs) \<and>
    (rc_size rc', rc_table rc') = recover_entries (es @ es') (0, []) \<and>
    rc_partial rc' = Some (pe\<lparr>pe_offset := pe_offset pe - length pre\<rparr>)"
  using rc
proof (cases rule: recovered_cases)
  case 1
  have "read_parse_validate_from_offset crc seg (rc_offset rc) fs = ((es', Ok (Some pe)), fs)"
    using parse fs 1 rc
    by (auto simp: read_parse_validate_from_offset_def fs_read_no_faults recovered_def)
  then show ?thesis
    using 1 rc
    by (auto simp: recover_segment_def recovered_def recover_entries_append Let_def split: prod.splits)
next
  case (2 q)
  have "read_parse_validate_from_partial_record crc seg (pe_bytes q) fs =
      ((es', Ok (Some (pe\<lparr>pe_offset := pe_offset pe - length pre\<rparr>))), fs)"
    using parse fs 2 off
    by (auto simp: read_parse_validate_from_partial_record_def fs_read_no_faults sub_chk_def)
  then show ?thesis
    using 2 rc
    by (auto simp: recover_segment_def recovered_def recover_entries_append Let_def split: prod.splits)
qed

lemma recover_torn:
  assumes lay: "wal_layout crc cs c es" and fs: "fs_faults fs = []"
    and e: "wal_entry_ok e" "HEADER_SIZE \<le> n" "n < length (wal_frame crc e)"
    and cs: "map (\<lambda>seg. fs_content fs (seg_path seg)) segs =
      map Some (cs @ [c @ take n (wal_frame crc e)])"
  shows "recover crc segs 0 [] fs = (case recover_entries es (0, []) of
    (sz, table) \<Rightarrow> (Err (sz, Corrupted (seg_path (last segs)) (length c)), table, fs))"
proof -
  let ?rc0 = "\<lparr>rc_size = 0, rc_table = [], rc_offset = 0, rc_partial = None\<rparr>"
  let ?t = "take n (wal_frame crc e)"
  obtain es1 es2 pre where l: "wal_closed crc cs es1 pre"
    "pre @ c = concat (map (wal_frame crc) es2)" "\<forall>e \<in> set es2. wal_entry_ok e"
    "pre = [] \<or> es2 \<noteq> []" "es = es1 @ es2"
    by (rule wal_layoutE [OF lay])
  obtain segs1 seg where segs: "segs = segs1 @ [seg]"
    and 1: "map (\<lambda>seg. fs_content fs (seg_path seg)) segs1 = map Some cs"
    and c: "fs_content fs (seg_path seg) = Some (c @ ?t)"
    using cs by (cases segs rule: rev_cases) auto
  have "recovered [] [] ?rc0" by (simp add: recovered_def)
  then obtain rc1 where rc1: "recover_loop crc segs1 (?rc0, fs) = (Ok (), rc1, fs)" "recovered es1 pre rc1"
    using recover_closed [OF l(1) fs 1] by blast
  let ?off = "length (concat (map (wal_frame crc) es2))"
  have off: "?off = length pre + length c" using l(2) by (metis length_append)
  have "take HEADER_SIZE ?t = take HEADER_SIZE (wal_frame crc e)" "HEADER_SIZE \<le> length ?t"
    "length ?t < length (wal_frame crc e)"
    using e by (simp_all add: min_def)
  from parse_entries_header_tail [OF l(3) e(1) this, of "seg_path seg"] l(2)
  have "parse_validate_wal_entries crc (seg_path seg) (pre @ c @ ?t) = (es2, Ok (Some
      \<lparr>pe_path = seg_path seg, pe_offset = ?off, pe_bytes = take HEADER_SIZE (wal_frame crc e)\<rparr>))"
    by (metis append.assoc)
  from recover_segment_torn [OF rc1(2) fs c this] off
  obtain rc where rc: "recover_segment crc seg (rc1, fs) = (Ok (), rc, fs)"
    "(rc_size rc, rc_table rc) = recover_entries (es1 @ es2) (0, [])"
    "rc_partial rc = Some \<lparr>pe_path = seg_path seg, pe_offset = length c,
       pe_bytes = take HEADER_SIZE (wal_frame crc e)\<rparr>"
    by auto
  then have "seq_act (recover_loop crc segs) recover_end (?rc0, fs) =
      (Err (rc_size rc, Corrupted (seg_path seg) (length c)), rc, fs)"
    by (simp add: segs recover_loop_append rc1 recover_end_def)
  then show ?thesis
    using rc(2) l(5) by (auto simp: recover_def segs split: prod.splits)
qed

section \<open>Which segments hold entries after a sequence number\<close>

text \<open>A segment whose file ends before the sequence number holds nothing after it.\<close>

lemma final_entry_before:
  assumes S: "0 < S" "S dvd 2 ^ 32" and b: "b < 2 ^ 63" "S dvd b" and n: "n \<le> S" "b + n \<le> s"
  shows "final_entry_after (last (wal_path dir S b)) n s = Ok False"
proof -
  let ?l = "b div 2 ^ 32" and ?m = "b mod 2 ^ 32 div S"
  have "?m * S + ?l * 2 ^ 32 = b"
    using mod_of_dvd_pow [OF S(2), of b] b(2) by (simp add: mod_eq_0_iff_dvd)
  moreover have "n * (?m + 1) \<le> ?m * S + n"
    using n(1) by (simp add: mult.commute)
  ultimately have "\<not> s < ?l * 2 ^ 32 + n * (?m + 1)" using n(2) by linarith
  then show ?thesis by (simp only: final_entry_after_wal_path [OF S b(1) n(1)])
qed

lemma list_segment_files_none:
  assumes st: "wal_static w" and files: "wal_files bases w fs" and wf: "fs_wf fs" "fs_faults fs = []"
    and b: "\<forall>x \<in> set bases. x < 2 ^ 63 \<and> wal_segment_max_size w dvd x \<and>
      (\<exists>y. fs_content fs (wal_path (wal_dir w) (wal_segment_max_size w) x) = Some y \<and>
         length y \<le> wal_segment_max_size w \<and> x + length y \<le> s)"
  shows "list_segment_files (wal_dir w) s fs = (Ok [], fs)"
proof -
  let ?p = "wal_path (wal_dir w) (wal_segment_max_size w)"
  obtain ds where ds: "fs_read_dir (wal_dir w) fs = (Ok ds, fs)" "distinct (map fst ds)"
    "fst ` set ds = ?p ` set bases" "\<forall>(p, n) \<in> set ds. map_option length (fs_content fs p) = Some n"
    by (rule read_dir_wal [OF files wf]) (use b in auto)
  have "\<forall>(p, n) \<in> set ds. final_entry_after (last p) n s = (Ok False :: (io_error, bool) res)"
  proof (clarify)
    fix p n assume pn: "(p, n) \<in> set ds"
    then have "p \<in> ?p ` set bases" using ds(3) by (metis fst_conv imageI)
    then obtain x where x: "x \<in> set bases" "p = ?p x" by blast
    then obtain y where y: "fs_content fs p = Some y" "length y \<le> wal_segment_max_size w" "x + length y \<le> s"
      using b by blast
    have "n = length y" using ds(4) pn y(1) by auto
    then show "final_entry_after (last p) n s = (Ok False :: (io_error, bool) res)"
      unfolding x(2) using st b x(1) y by (intro final_entry_before) (auto simp: wal_static_def)
  qed
  then have "list_filter ds s = (Ok [] :: (io_error, path list) res)" by (rule list_filter_none)
  then show ?thesis using ds(1) by (simp add: list_segment_files_def)
qed

section \<open>Restarting on a torn log\<close>

text \<open>The files of a log whose last append was torn after \<open>n\<close> bytes.\<close>

lemma torn_contents:
  assumes at: "wal_at bs b cs c w fs" and lsn: "b < 2 ^ 63"
    and fs': "fs_content fs' = (fs_content fs)
       (wal_path (wal_dir w) (wal_segment_max_size w) b \<mapsto> c @ x)" "fs_dirs fs' = fs_dirs fs"
    and x: "x \<noteq> []" "length c + length x \<le> wal_segment_max_size w"
  shows "wal_contents (bs @ [b]) (cs @ [c @ x]) w fs'"
proof -
  have "wal_files (bs @ [b]) w fs'"
    using at by (intro wal_files_store [OF _ fs']) (auto simp: wal_at_def)
  moreover have "\<forall>y \<in> set (bs @ [b]). y < 2 ^ 63"
    using at lsn by (auto simp: wal_at_def sorted_wrt_append)
  ultimately show ?thesis
    using at store_active [OF at fs'(1)] x
    by (auto simp: wal_contents_def wal_at_def wal_static_def fs'(1))
qed

lemma sort_filter_from:
  assumes "sorted_wrt (<) (xs @ [y])"
  shows "filter (\<lambda>p. y \<le> p) (sort (xs @ [y])) = [y :: 'a :: linorder]"
proof -
  have "sorted (xs @ [y])" using assms by (simp add: strict_sorted_iff)
  then have "sort (xs @ [y]) = xs @ [y]" by (simp add: sorted_sort_id)
  moreover have "filter (\<lambda>p. y \<le> p) xs = []"
    using assms by (auto simp: sorted_wrt_append filter_empty_conv)
  ultimately show ?thesis by simp
qed

lemma wal_paths_sorted:
  assumes "wal_static w" "sorted_wrt (<) bases"
    "\<forall>x \<in> set bases. x < 2 ^ 64 \<and> wal_segment_max_size w dvd x"
  shows "sorted_wrt (<) (map (wal_path (wal_dir w) (wal_segment_max_size w)) bases)"
  unfolding sorted_wrt_map
proof (rule sorted_wrt_mono_rel [OF _ assms(2)])
  fix x y assume "x \<in> set bases" "y \<in> set bases" "x < y"
  then show "wal_path (wal_dir w) (wal_segment_max_size w) x < wal_path (wal_dir w) (wal_segment_max_size w) y"
    using assms(1,3) by (intro wal_path_less) (auto simp: wal_static_def)
qed

text \<open>
  The start: recovery reports the torn entry, its segment is cut back to the end of the last
  whole entry, no later segment is found, and the log goes on from there.
\<close>

lemma truncate_torn:
  assumes at: "wal_at bs b cs c w fs" and lsn: "b + length c < 2 ^ 63"
    and fs': "fs_content fs' = (fs_content fs)
       (wal_path (wal_dir w) (wal_segment_max_size w) b \<mapsto> c @ x)" "fs_dirs fs' = fs_dirs fs"
    and wf: "fs_wf fs'" "fs_faults fs' = []"
    and x: "x \<noteq> []" "length c + length x \<le> wal_segment_max_size w"
  shows "\<exists>fs2. truncate_and_open_segment_file (wal_path (wal_dir w) (wal_segment_max_size w) b)
      (length c) (wal_segment_max_size w) fs' = (Ok (wal_active w), fs2) \<and>
    fs_content fs2 = fs_content fs \<and> fs_dirs fs2 = fs_dirs fs \<and> fs_wf fs2 \<and> fs_faults fs2 = []"
proof -
  let ?S = "wal_segment_max_size w" and ?d = "wal_dir w"
  let ?p = "wal_path ?d ?S"
  have b63: "b < 2 ^ 63" using lsn by simp
  note tc = torn_contents [OF at b63 fs' x]
  have st: "?S dvd 2 ^ 32" "0 < ?S" "?S < 2 ^ 32" and bS: "b < 2 ^ 64" "?S dvd b"
    and c: "fs_content fs (?p b) = Some c" and act: "wal_active_at b (length c) w"
    using at by (auto simp: wal_at_def wal_static_def)
  have sorted: "sorted_wrt (<) (map ?p bs @ [?p b])"
    using wal_paths_sorted [of w "bs @ [b]"] at by (auto simp: wal_at_def)
  have list: "list_segment_files ?d 0 fs' = (Ok (map ?p bs @ [?p b]), fs')"
    using list_segment_files_wal [OF tc wf] by simp
  have filt: "filter (\<lambda>q. ?p b \<le> q) (sort (map ?p bs @ [?p b])) = [?p b]"
    by (rule sort_filter_from [OF sorted])
  have len: "fs_set_len (?p b) (length c) fs' = (Ok (), fs_store (?p b) c fs')"
    using wf(2) by (simp add: fs_set_len_def fs'(1))
  have small: "length c mod 2 ^ 32 = length c" using x(2) st(3) by simp
  have seg: "segment_from (?p b) (length c mod 2 ^ 32) ?S = (Ok (wal_active w) :: (io_error, wal_segment) res)"
    unfolding small using segment_from_wal_path [OF st(1,2) bS] act by (simp add: wal_active_at_def)
  have undone: "fs_content (fs_store (?p b) c fs') = fs_content fs"
    by (rule ext) (simp add: fs'(1) c)
  have wf2: "fs_wf (fs_store (?p b) c fs')"
    by (rule wf_fs.I_store [OF wf(1) TrueI])
  show ?thesis
    using wf(2) undone fs'(2) wf2
    by (simp add: truncate_and_open_segment_file_def list filt len seg [simplified])
qed

lemma memtable_start_torn:
  assumes at: "wal_at bs b cs c w fs" and lay: "wal_layout crc cs c es" and lsn: "b + length c < 2 ^ 63"
    and e: "wal_entry_ok e" "HEADER_SIZE \<le> n" "n < length (wal_frame crc e)"
      "length c + length (wal_frame crc e) \<le> wal_segment_max_size w"
    and fs': "fs_content fs' = (fs_content fs)
       (wal_path (wal_dir w) (wal_segment_max_size w) b \<mapsto> c @ take n (wal_frame crc e))"
       "fs_dirs fs' = fs_dirs fs"
    and wf: "fs_wf fs'" "fs_faults fs' = []"
  shows "\<exists>fs2. memtable_start crc (wal_dir w) (wal_segment_max_size w) 0 max_size fs' =
      (case recover_entries es (0, []) of (sz, table) \<Rightarrow> (Ok (worker_from table w sz max_size), fs2)) \<and>
    fs_content fs2 = fs_content fs \<and> fs_faults fs2 = []"
proof -
  let ?S = "wal_segment_max_size w" and ?d = "wal_dir w" and ?x = "take n (wal_frame crc e)"
  let ?p = "wal_path ?d ?S" and ?fs = "fs'\<lparr>fs_dirs := ?d # fs_dirs fs'\<rparr>"
  let ?gs = "fs\<lparr>fs_dirs := ?d # fs_dirs fs\<rparr>"
  have content: "fs_content ?fs = fs_content fs'" "fs_content ?gs = fs_content fs"
    by (simp_all add: fs_content_def fun_eq_iff)
  have at': "wal_at bs b cs c w ?gs"
    using at by (auto simp: wal_at_def wal_files_def content)
  have fs'': "fs_content ?fs = (fs_content ?gs)(?p b \<mapsto> c @ ?x)" "fs_dirs ?fs = fs_dirs ?gs"
    unfolding content by (rule fs'(1)) (simp add: fs'(2))
  have wf': "fs_wf ?fs" "fs_faults ?fs = []" using wf by (simp_all add: fs_wf_def)
  have lx: "length ?x = n" "0 < n" using e by (simp_all add: HEADER_SIZE_def)
  then have x: "?x \<noteq> []" "length c + length ?x \<le> ?S" using e(3,4) by auto
  have b63: "b < 2 ^ 63" using lsn by simp
  note tc = torn_contents [OF at' b63 fs'' x]
  have dir: "fs_create_dir_all ?d fs' = (Ok (), ?fs)" using wf(2) by (simp add: fs_create_dir_all_def)
  obtain segs where segs: "open_segments ?S (map ?p (bs @ [b])) ?fs = (Ok segs, ?fs)"
    "map seg_path segs = map ?p (bs @ [b])"
    using open_segments_wal [OF tc wf'(2), of "bs @ [b]"] by blast
  have find: "find_and_open_segments ?d ?S 0 ?fs = (Ok segs, ?fs)"
    using list_segment_files_wal [OF tc wf'] segs(1) by (simp add: find_and_open_segments_def)
  have ne: "segs \<noteq> []" using segs(2) by auto
  have "last (map seg_path segs) = ?p b" by (simp add: segs(2))
  then have lastp: "seg_path (last segs) = ?p b" using ne by (simp add: last_map)
  have "map (\<lambda>seg. fs_content ?fs (seg_path seg)) segs = map (fs_content ?fs) (map seg_path segs)"
    by (simp add: comp_def)
  also have "\<dots> = map Some (cs @ [c @ ?x])"
    using tc by (simp add: segs(2) comp_def wal_contents_def)
  finally have "map (\<lambda>seg. fs_content ?fs (seg_path seg)) segs = map Some (cs @ [c @ ?x])" .
  note rec = recover_torn [OF lay wf'(2) e(1-3) this, unfolded lastp]
  obtain fs2 where fs2: "truncate_and_open_segment_file (?p b) (length c) ?S ?fs = (Ok (wal_active w), fs2)"
    "fs_content fs2 = fs_content ?gs" "fs_dirs fs2 = fs_dirs ?gs" "fs_wf fs2" "fs_faults fs2 = []"
    using truncate_torn [OF at' lsn fs'' wf' x] by blast
  have act: "wal_active_at b (length c) w" and st: "wal_static w"
    using at by (auto simp: wal_at_def)
  have nl: "next_lsn (wal_active w) = Ok (b + length c)"
    using lsn act by (simp add: next_lsn_def add_chk_def wal_active_at_def)
  have at2: "wal_at bs b cs c w fs2"
    using at' by (auto simp: wal_at_def wal_files_def fs2(2,3))
  have none: "list_segment_files ?d (b + length c) fs2 = (Ok [], fs2)"
  proof (rule list_segment_files_none [OF st _ fs2(4,5)])
    show "wal_files (bs @ [b]) w fs2" using at2 by (simp add: wal_at_def)
    show "\<forall>y \<in> set (bs @ [b]). y < 2 ^ 63 \<and> ?S dvd y \<and>
      (\<exists>z. fs_content fs2 (?p y) = Some z \<and> length z \<le> ?S \<and> y + length z \<le> b + length c)"
    proof
      fix y assume y: "y \<in> set (bs @ [b])"
      show "y < 2 ^ 63 \<and> ?S dvd y \<and>
        (\<exists>z. fs_content fs2 (?p y) = Some z \<and> length z \<le> ?S \<and> y + length z \<le> b + length c)"
      proof (cases "y \<in> set bs")
        case True
        have lt: "y < b" using at2 True by (auto simp: wal_at_def sorted_wrt_append)
        have dv: "?S dvd y" "?S dvd b" using at2 True by (auto simp: wal_at_def)
        have "y + ?S \<le> b"
          using lt dv by (metis dvd_diff_nat dvd_imp_le le_diff_conv2 less_imp_le_nat add.commute zero_less_diff)
        moreover have "\<exists>z. fs_content fs2 (?p y) = Some z \<and> length z = ?S"
        proof -
          have "fs_content fs2 (?p y) \<in> Some ` set cs"
            using at2 True unfolding wal_at_def by (metis (no_types, lifting) image_eqI list.set_map)
          then show ?thesis using at2 by (auto simp: wal_at_def)
        qed
        ultimately show ?thesis using lt dv lsn by force
      next
        case False
        with y have "y = b" by simp
        then show ?thesis using at2 lsn by (auto simp: wal_at_def)
      qed
    qed
  qed
  have wseg: "wal_from_segment ?d (wal_active w) ?S = w" by (simp add: wal_from_segment_def)
  have S0: "?S \<noteq> 0" using st by (simp add: wal_static_def)
  show ?thesis
    using fs2(2,5)
    by (auto simp: memtable_start_def dir find ne S0 rec fs2(1) nl none wseg content split: prod.split)
qed

section \<open>The torn append\<close>

lemma wal_append_torn:
  assumes at: "wal_at bs b cs c w fs" and e: "wal_entry_ok e"
    and fits: "length c + length (wal_frame crc e) \<le> wal_segment_max_size w"
    and fault: "fs_faults fs = Some n # fl"
  shows "wal_append crc e (w, fs) = (Err OsError, w,
    fs_store (wal_path (wal_dir w) (wal_segment_max_size w) b) (c @ take n (wal_frame crc e))
      (fs\<lparr>fs_faults := fl\<rparr>))"
proof -
  let ?p = "wal_path (wal_dir w) (wal_segment_max_size w) b"
  have st: "wal_active_at b (length c) w" "length c \<le> wal_segment_max_size w" "wal_segment_max_size w < 2 ^ 32"
    and c: "fs_content fs ?p = Some c"
    using at by (auto simp: wal_at_def wal_static_def)
  have c': "fs_content (fs\<lparr>fs_faults := fl\<rparr>) ?p = Some c"
    using c by (simp add: fs_content_def)
  have small: "length (wal_frame crc e) < 2 ^ 32" "length c + length (wal_frame crc e) < 2 ^ 32"
    using fits st(3) by simp_all
  have ap: "fs_append ?p (wal_frame crc e) fs =
      (Err OsError, fs_store ?p (c @ take n (wal_frame crc e)) (fs\<lparr>fs_faults := fl\<rparr>))"
    using c' by (simp add: fs_append_def fs_tick_def fault)
  have "length (wal_frame crc e) \<le> wal_segment_max_size w - length c" using fits by linarith
  then have "wal_append crc e (w, fs) = on_active (seg_append (wal_frame crc e)) (w, fs)"
    by (simp only: wal_append_ok_unfold [OF e st(1,2)] Let_def if_True)
  also have "\<dots> = (Err OsError, w, fs_store ?p (c @ take n (wal_frame crc e)) (fs\<lparr>fs_faults := fl\<rparr>))"
  proof -
    have "seg_append (wal_frame crc e) (wal_active w, fs) =
        (Err OsError, wal_active w, snd (fs_append ?p (wal_frame crc e) fs))"
      using st(1) fits small by (simp add: seg_append_def wal_active_at_def add_chk_def ap)
    then show ?thesis by (simp add: on_active_def ap)
  qed
  finally show ?thesis .
qed

lemma worker_log_torn_start:
  assumes inv: "worker_inv crc bases es0 es ww fs" and lsn: "wal_lsn (ww_wal ww) < 2 ^ 63"
    and e: "wal_entry_ok e" "HEADER_SIZE \<le> n" "n < length (wal_frame crc e)"
    and fits: "seg_file_size (wal_active (ww_wal ww)) + length (wal_frame crc e)
      \<le> wal_segment_max_size (ww_wal ww)"
    and fault: "fs_faults fs = Some n # fl"
    and run: "worker_log crc e (ww, fs) = (r, ww', fs')"
  shows "r = Err OsError \<and> ww' = ww \<and> fs_dirs fs' = fs_dirs fs \<and>
    (\<forall>p. butlast p \<noteq> wal_dir (ww_wal ww) \<longrightarrow> fs_content fs' p = fs_content fs p) \<and>
    (\<exists>fs2. memtable_start crc (wal_dir (ww_wal ww)) (wal_segment_max_size (ww_wal ww)) 0 (ww_max_size ww)
      (fs'\<lparr>fs_faults := []\<rparr>) = (case recover_entries (es0 @ es) (0, []) of (sz, table) \<Rightarrow>
        (Ok (worker_from table (ww_wal ww) sz (ww_max_size ww)), fs2)) \<and>
      fs_content fs2 = fs_content fs \<and> fs_faults fs2 = [])"
proof -
  let ?w = "ww_wal ww"
  obtain bs b cs c where at: "wal_at bs b cs c ?w fs" and lay: "wal_layout crc cs c (es0 @ es)"
    using inv by (auto simp: worker_inv_def wal_inv_def)
  let ?p = "wal_path (wal_dir ?w) (wal_segment_max_size ?w) b"
  have act: "wal_active_at b (length c) ?w" using at by (simp add: wal_at_def)
  have fit: "length c + length (wal_frame crc e) \<le> wal_segment_max_size ?w"
    using fits act by (simp add: wal_active_at_def)
  have lsn': "b + length c < 2 ^ 63" using lsn act by (simp add: wal_lsn_def wal_active_at_def)
  note ap = wal_append_torn [OF at e(1) fit fault]
  then have r: "r = Err OsError" and ww': "ww' = ww"
    and fs': "fs' = fs_store ?p (c @ take n (wal_frame crc e)) (fs\<lparr>fs_faults := fl\<rparr>)"
    using run by (auto simp: worker_log_def on_wal_def)
  let ?fs = "fs'\<lparr>fs_faults := []\<rparr>"
  have c1: "fs_content ?fs = (fs_content fs)(?p \<mapsto> c @ take n (wal_frame crc e))"
    by (rule ext) (simp add: fs' fs_content_def fs_store_def)
  have d1: "fs_dirs ?fs = fs_dirs fs" "fs_faults ?fs = []" by (simp_all add: fs')
  have "fs_wf (fs\<lparr>fs_faults := fl\<rparr>)" using inv by (simp add: worker_inv_def fs_wf_def)
  then have "fs_wf fs'" unfolding fs' by (rule wf_fs.I_store) simp
  then have wf: "fs_wf ?fs" by (simp add: fs_wf_def)
  have fr: "fs_dirs fs' = fs_dirs fs" "\<forall>p. butlast p \<noteq> wal_dir ?w \<longrightarrow> fs_content fs' p = fs_content fs p"
    by (auto simp: fs' fs_content_def fs_store_def)
  show ?thesis
    using memtable_start_torn [OF at lay lsn' e fit c1 d1(1) wf d1(2), of "ww_max_size ww"] fr
    by (simp add: r ww')
qed

lemma worker_log_torn:
  assumes inv: "worker_inv crc bases [] es ww fs" and lsn: "wal_lsn (ww_wal ww) < 2 ^ 63"
    and e: "wal_entry_ok e" "HEADER_SIZE \<le> n" "n < length (wal_frame crc e)"
    and fits: "seg_file_size (wal_active (ww_wal ww)) + length (wal_frame crc e)
      \<le> wal_segment_max_size (ww_wal ww)"
    and fault: "fs_faults fs = Some n # fl"
    and run: "worker_log crc e (ww, fs) = (r, ww', fs')"
  shows "r = Err OsError \<and> ww' = ww \<and>
    fst (memtable_start crc (wal_dir (ww_wal ww)) (wal_segment_max_size (ww_wal ww)) 0 (ww_max_size ww)
      (fs'\<lparr>fs_faults := []\<rparr>)) = Ok ww"
proof -
  have "recover_entries es (0, []) = (ww_current_size ww, ww_table ww)"
    using inv by (simp add: worker_inv_def)
  moreover have "worker_from (ww_table ww) (ww_wal ww) (ww_current_size ww) (ww_max_size ww) = ww"
    by (simp add: worker_from_def)
  ultimately show ?thesis using worker_log_torn_start [OF inv lsn e fits fault run] by auto
qed

end
