(* ===== verification/Log_Properties.thy ===== *)
theory Log_Properties
  imports Mem_Crash
begin

text \<open>
  The properties of the write-ahead log and of the memtable, each with a witness on a
  concrete run, and the small programs the witnesses run.
\<close>

section \<open>A concrete run\<close>

definition ex_crc :: crc_fun where
  "ex_crc bs = word_of_nat (length bs)"

definition ex_str :: "nat \<Rightarrow> u8 \<Rightarrow> rstring" where
  "ex_str n c = rs (replicate n c)"

definition ex_fs :: file_system where
  "ex_fs = \<lparr>fs_files = [], fs_dirs = [], fs_faults = []\<rparr>"

definition ex_dir :: path where
  "ex_dir = [''WAL'']"

definition no_flush :: "unit flusher" where
  "no_flush table s = (Panic, s)"

definition ex_jobs :: "write_job list" where
  "ex_jobs = [JobPut (ex_str 1 97) (ex_str 3 98), JobPut (ex_str 2 97) (ex_str 20 99),
     JobDelete (ex_str 1 97)]"

definition ex_start :: "(io_error, write_worker) res \<times> file_system" where
  "ex_start = memtable_start ex_crc ex_dir 64 0 1000 ex_fs"

lemma ex_run_ok:
  "case ex_start of (Ok ww0, fs0) \<Rightarrow>
     (case run_loop ex_crc no_flush ex_jobs ((), ww0, fs0) of
       (Ok replies, f1, ww1, fs1) \<Rightarrow> list_all is_Ok replies \<and> length replies = 3 \<and>
         wal_lsn (ww_wal ww1) < 2 ^ 63
     | _ \<Rightarrow> False) | _ \<Rightarrow> False"
  by code_simp

lemma ex_run_obtain:
  obtains ww0 fs0 replies f1 ww1 fs1 where
    "memtable_start ex_crc ex_dir 64 0 1000 ex_fs = (Ok ww0, fs0)"
    "run_loop ex_crc no_flush ex_jobs ((), ww0, fs0) = (Ok replies, f1, ww1, fs1)"
    "\<forall>r \<in> set replies. is_Ok r" "replies \<noteq> []" "wal_lsn (ww_wal ww1) < 2 ^ 63"
proof -
  obtain r0 fs0 where e0: "ex_start = (r0, fs0)" by (cases ex_start)
  note ok0 = ex_run_ok [unfolded e0 prod.case]
  then obtain ww0 where r0: "r0 = Ok ww0" by (cases r0) simp_all
  obtain r f1 ww1 fs1 where e1: "run_loop ex_crc no_flush ex_jobs ((), ww0, fs0) = (r, f1, ww1, fs1)"
    by (cases "run_loop ex_crc no_flush ex_jobs ((), ww0, fs0)") auto
  note ok1 = ok0 [unfolded r0 res.case e1 prod.case]
  then obtain replies where r: "r = Ok replies" by (cases r) simp_all
  have "replies \<noteq> []" using ok1 by (auto simp: r)
  then show thesis
    using that [of ww0 fs0 replies f1 ww1 fs1] ok1 e0 e1
    by (simp add: r0 r ex_start_def list_all_iff)
qed

section \<open>Durability\<close>

text \<open>C7: A memtable is started on an empty directory and the writer thread serves a list of
  jobs that fit into the table (no flush), every one of which is acknowledged.  Then, when the
  process stops at that point and the memtable is started again on the files left behind, the
  new write worker is exactly the old one: table, sizes, active segment and next sequence
  number; and what it shows of every key is what the jobs say.\<close>

theorem restart_restores_table:
  assumes start: "memtable_start crc dir segment_size 0 max_size fs = (Ok ww0, fs0)"
    and fresh: "fresh_dir dir fs" "fs_faults fs = []" "fs_wf fs"
    and sz: "0 < segment_size" "segment_size < 2 ^ 32" "segment_size dvd 2 ^ 32"
    and run: "run_loop crc flush jobs (f, ww0, fs0) = (Ok replies, f1, ww1, fs1)"
    and acked: "\<forall>r \<in> set replies. is_Ok r" "replies \<noteq> []"
    and fit: "sum_list (map job_size jobs) < max_size" "\<forall>job \<in> set jobs. job_small job"
    and lsn: "wal_lsn (ww_wal ww1) < 2 ^ 63"
  shows "fst (memtable_start crc dir segment_size 0 max_size (fs1\<lparr>fs_faults := []\<rparr>)) = Ok ww1 \<and>
    visible (map_of (ww_table ww1)) = spec_run jobs replies Map.empty"
proof -
  have w0: "worker_inv crc [0] [] [] ww0 fs0" "wal_dir (ww_wal ww0) = dir"
    "wal_segment_max_size (ww_wal ww0) = segment_size" "ww_table ww0 = []" "ww_current_size ww0 = 0"
    "ww_max_size ww0 = max_size"
    using memtable_start_fresh [OF start fresh sz] by auto
  have fit': "ww_current_size ww0 + sum_list (map job_size jobs) < ww_max_size ww0"
    using fit(1) w0 by simp
  have ok: "\<forall>r \<in> set replies. \<exists>v. r = Ok v" using acked(1) by (simp add: is_Ok_iff)
  obtain bases es where w1: "worker_inv crc bases [] es ww1 fs1" "ww_max_size ww1 = max_size"
    "wal_dir (ww_wal ww1) = dir" "wal_segment_max_size (ww_wal ww1) = segment_size" "es \<noteq> []"
    using run_loop_logged [OF run fit' ok fit(2) w0(1)] w0 acked(2) by force
  moreover have "visible (map_of (ww_table ww0)) = Map.empty"
    by (simp add: w0 visible_def)
  ultimately show ?thesis
    using worker_inv_restart [OF w1(1,5) lsn] run_loop_no_flush [OF run fit'] by simp
qed

theorem restart_restores_table_witness:
  "\<exists>ww0 fs0 replies f1 ww1 fs1. memtable_start ex_crc ex_dir 64 0 1000 ex_fs = (Ok ww0, fs0) \<and>
     run_loop ex_crc no_flush ex_jobs ((), ww0, fs0) = (Ok replies, f1, ww1, fs1) \<and>
     fst (memtable_start ex_crc ex_dir 64 0 1000 (fs1\<lparr>fs_faults := []\<rparr>)) = Ok ww1 \<and>
     visible (map_of (ww_table ww1)) = spec_run ex_jobs replies Map.empty"
proof -
  obtain ww0 fs0 replies f1 ww1 fs1 where e:
    "memtable_start ex_crc ex_dir 64 0 1000 ex_fs = (Ok ww0, fs0)"
    "run_loop ex_crc no_flush ex_jobs ((), ww0, fs0) = (Ok replies, f1, ww1, fs1)"
    "\<forall>r \<in> set replies. is_Ok r" "replies \<noteq> []" "wal_lsn (ww_wal ww1) < 2 ^ 63"
    by (rule ex_run_obtain)
  have h: "fresh_dir ex_dir ex_fs" "fs_faults ex_fs = []" "fs_wf ex_fs"
    by (simp_all add: ex_fs_def fresh_dir_def fs_content_def fs_wf_def)
  have s: "sum_list (map job_size ex_jobs) < 1000" "\<forall>job \<in> set ex_jobs. job_small job"
    by code_simp+
  have d: "(0::nat) < 64" "(64::nat) < 2 ^ 32" "(64::nat) dvd 2 ^ 32" by simp_all
  from restart_restores_table [OF e(1) h d e(2-4) s e(5)] e(1,2) show ?thesis by blast
qed

text \<open>The process stops in the middle of a write: the append to the active segment fails
  after \<open>n\<close> bytes, at least the 13 of the entry's header and not all of it.  The write is
  reported as an I/O error and changes nothing in memory, and the next start, on the torn
  file, rolls it back: it returns the worker as it was before the write, with the file cut
  at the end of the last whole entry.\<close>

theorem torn_write_rolled_back:
  assumes inv: "worker_inv crc bases [] es ww fs" and lsn: "wal_lsn (ww_wal ww) < 2 ^ 63"
    and entry: "job_entry (wal_lsn (ww_wal ww)) (JobPut key v) = Some e" "wal_entry_ok e"
    and torn: "fs_faults fs = Some n # fl" "HEADER_SIZE \<le> n" "n < length (wal_frame crc e)"
    and fits: "seg_file_size (wal_active (ww_wal ww)) + length (wal_frame crc e)
      \<le> wal_segment_max_size (ww_wal ww)"
    and run: "worker_put crc key v (ww, fs) = (r, ww', fs')"
  shows "r = Err OsError \<and> ww' = ww \<and>
    fst (memtable_start crc (wal_dir (ww_wal ww)) (wal_segment_max_size (ww_wal ww)) 0 (ww_max_size ww)
      (fs'\<lparr>fs_faults := []\<rparr>)) = Ok ww"
proof -
  have "worker_put crc key v (ww, fs) = worker_log crc e (ww, fs)"
    using entry(1) next_sequence_number_cases [of "ww_wal ww"] lsn
    by (auto simp: worker_put_log wal_next_sequence_number_def next_lsn_def add_chk_def wal_lsn_def)
  with worker_log_torn [OF inv lsn entry(2) torn(2,3) fits torn(1)] run show ?thesis by simp
qed

definition ex_torn_fs :: "file_system \<Rightarrow> file_system" where
  "ex_torn_fs fs = fs\<lparr>fs_faults := [Some 15]\<rparr>"

theorem torn_write_rolled_back_witness:
  "\<exists>ww fs fs'. ex_start = (Ok ww, fs) \<and>
     worker_put ex_crc (ex_str 1 97) (ex_str 3 98) (ww, ex_torn_fs fs) = (Err OsError, ww, fs') \<and>
     fst (memtable_start ex_crc ex_dir 64 0 1000 (fs'\<lparr>fs_faults := []\<rparr>)) = Ok ww"
proof -
  obtain ww fs where s: "memtable_start ex_crc ex_dir 64 0 1000 ex_fs = (Ok ww, fs)"
    by (rule ex_run_obtain)
  have h: "fresh_dir ex_dir ex_fs" "fs_faults ex_fs = []" "fs_wf ex_fs"
    by (simp_all add: ex_fs_def fresh_dir_def fs_content_def fs_wf_def)
  have d: "(0::nat) < 64" "(64::nat) < 2 ^ 32" "(64::nat) dvd 2 ^ 32" by simp_all
  have w: "worker_inv ex_crc [0] [] [] ww fs" "wal_dir (ww_wal ww) = ex_dir"
    "wal_segment_max_size (ww_wal ww) = 64" "ww_max_size ww = 1000"
    using memtable_start_fresh [OF s h d] by auto
  have "case ex_start of (Ok ww0, fs0) \<Rightarrow> wal_lsn (ww_wal ww0) = 0 \<and>
      seg_file_size (wal_active (ww_wal ww0)) = 0 | _ \<Rightarrow> False"
    by code_simp
  then have l: "wal_lsn (ww_wal ww) = 0" "seg_file_size (wal_active (ww_wal ww)) = 0"
    using s by (simp_all add: ex_start_def)
  define e where "e = \<lparr>we_op = OpPut, we_key = ex_str 1 97, we_value = Some (ex_str 3 98), we_seq = 0\<rparr>"
  have e: "job_entry (wal_lsn (ww_wal ww)) (JobPut (ex_str 1 97) (ex_str 3 98)) = Some e"
    by (simp add: e_def l)
  have ok: "wal_entry_ok e" "HEADER_SIZE \<le> 15" "15 < length (wal_frame ex_crc e)"
    "length (wal_frame ex_crc e) \<le> 64"
    unfolding e_def by code_simp+
  obtain r ww' fs' where run: "worker_put ex_crc (ex_str 1 97) (ex_str 3 98) (ww, ex_torn_fs fs) = (r, ww', fs')"
    by (cases "worker_put ex_crc (ex_str 1 97) (ex_str 3 98) (ww, ex_torn_fs fs)") auto
  have "r = Err OsError \<and> ww' = ww \<and>
    fst (memtable_start ex_crc (wal_dir (ww_wal ww)) (wal_segment_max_size (ww_wal ww)) 0 (ww_max_size ww)
      (fs'\<lparr>fs_faults := []\<rparr>)) = Ok ww"
    by (rule torn_write_rolled_back [OF _ _ e ok(1) _ ok(2,3) _ run])
      (use w(1,3) l ok(4) worker_inv_faults in \<open>simp_all add: ex_torn_fs_def\<close>)
  then show ?thesis using s run w by (auto simp: ex_start_def)
qed

section \<open>The log\<close>

text \<open>C14: Every successful append of an entry that carries the log's next sequence number
  extends the log by exactly that entry: the files keep the shape of a log (closed segments
  of full size, an active one that ends with a whole entry), every base number stays
  distinct and increasing, and the next sequence number grows.\<close>

theorem append_extends_log:
  assumes "wal_inv crc bases es w fs" and "entry_small e" and "we_seq e = wal_lsn w" "wal_lsn w < 2 ^ 64"
    and run: "wal_append crc e (w, fs) = (Ok u, w', fs')"
  shows "\<exists>bases'. wal_inv crc (bases @ bases') (es @ [e]) w' fs' \<and> wal_lsn w < wal_lsn w'"
proof -
  have "wal_entry_ok e"
    using wal_append_Ok_valid [OF run] assms(2-4) by (simp add: wal_entry_ok_def entry_small_def)
  from wal_append_inv [OF assms(1) this assms(3) run] show ?thesis by blast
qed

definition ex_wal_fs :: file_system where
  "ex_wal_fs = ex_fs\<lparr>fs_dirs := [ex_dir]\<rparr>"

definition ex_entry :: wal_entry where
  "ex_entry = \<lparr>we_op = OpDelete, we_key = ex_str 1 97, we_value = None, we_seq = 0\<rparr>"

lemma ex_append_obtain:
  obtains w fs u w' fs' where "wal_create_new ex_dir 64 ex_wal_fs = (Ok w, fs)"
    "wal_inv ex_crc [0] [] w fs" "wal_lsn w = 0" "wal_append ex_crc ex_entry (w, fs) = (Ok u, w', fs')"
proof -
  have run: "case wal_create_new ex_dir 64 ex_wal_fs of (Ok w, fs) \<Rightarrow>
      is_Ok (fst (wal_append ex_crc ex_entry (w, fs))) | _ \<Rightarrow> False"
    by code_simp
  obtain r fs where c: "wal_create_new ex_dir 64 ex_wal_fs = (r, fs)"
    by (cases "wal_create_new ex_dir 64 ex_wal_fs")
  note run1 = run [unfolded c prod.case]
  then obtain w where r: "r = Ok w" by (cases r) simp_all
  obtain u w' fs' where a: "wal_append ex_crc ex_entry (w, fs) = (Ok u, w', fs')"
    using run1 by (cases "wal_append ex_crc ex_entry (w, fs)") (auto simp: r is_Ok_iff)
  have "wal_inv ex_crc [0] [] w fs" "wal_lsn w = 0"
    using wal_create_new_inv [OF c [unfolded r], of ex_crc]
    by (auto simp: ex_wal_fs_def ex_fs_def fs_content_def)
  with c a r show thesis using that by blast
qed

lemma ex_entry_small: "entry_small ex_entry" "we_seq ex_entry = 0"
  by code_simp+

theorem append_extends_log_witness:
  "\<exists>w fs w' fs' bases'. wal_create_new ex_dir 64 ex_wal_fs = (Ok w, fs) \<and>
     wal_inv ex_crc ([0] @ bases') ([] @ [ex_entry]) w' fs' \<and> wal_lsn w < wal_lsn w'"
proof -
  obtain w fs u w' fs' where e: "wal_create_new ex_dir 64 ex_wal_fs = (Ok w, fs)"
    "wal_inv ex_crc [0] [] w fs" "wal_lsn w = 0" "wal_append ex_crc ex_entry (w, fs) = (Ok u, w', fs')"
    by (rule ex_append_obtain)
  from append_extends_log [OF e(2) ex_entry_small(1) _ _ e(4)] e(1,3) ex_entry_small(2)
  show ?thesis by auto
qed

text \<open>Whatever the schedule of I/O errors and whatever the outcome, an append touches no
  file outside the directory of the log.\<close>

theorem append_only_in_directory:
  assumes "wal_append crc e (w, fs) = (r, w', fs')" and "butlast (seg_path (wal_active w)) = wal_dir w"
    and "butlast p \<noteq> wal_dir w"
  shows "fs_content fs' p = fs_content fs p \<and> wal_dir w' = wal_dir w"
proof -
  let ?wr = "\<lambda>p. butlast p = wal_dir w" and ?J = "fs_frame (fs_content fs)"
  have k: "keeps (wal_keeps (?J ?wr) ?wr (wal_dir w)) (wal_append crc e)"
    by (rule frame_fs.wal_append_keeps) simp
  have "wal_keeps (?J ?wr) ?wr (wal_dir w) (w', fs')"
    by (rule keepsD [OF k _ assms(1)]) (simp add: wal_keeps_def fs_frame_def assms(2))
  then show ?thesis using assms(3) by (simp add: wal_keeps_def fs_frame_def)
qed

theorem append_only_in_directory_witness:
  "\<exists>r w' fs'. wal_append ex_crc \<lparr>we_op = OpDelete, we_key = ex_str 1 97, we_value = None, we_seq = 0\<rparr>
      (\<lparr>wal_active = \<lparr>seg_path = ex_dir @ [''x''], seg_file_size = 0, seg_max_size = 64, seg_base_lsn = 0\<rparr>,
        wal_segment_max_size = 64, wal_dir = ex_dir\<rparr>, ex_fs) = (r, w', fs') \<and>
    fs_content fs' [''data''] = fs_content ex_fs [''data''] \<and> wal_dir w' = ex_dir"
proof -
  let ?w = "\<lparr>wal_active = \<lparr>seg_path = ex_dir @ [''x''], seg_file_size = 0, seg_max_size = 64, seg_base_lsn = 0\<rparr>,
        wal_segment_max_size = 64, wal_dir = ex_dir\<rparr>"
  let ?e = "\<lparr>we_op = OpDelete, we_key = ex_str 1 97, we_value = None, we_seq = 0\<rparr>"
  obtain r w' fs' where a: "wal_append ex_crc ?e (?w, ex_fs) = (r, w', fs')"
    by (cases "wal_append ex_crc ?e (?w, ex_fs)") auto
  from append_only_in_directory [OF a, of "[''data'']"] a show ?thesis by (simp add: ex_dir_def)
qed

text \<open>C28: An entry that fits its length fields is read back unchanged: what \<open>to_bytes\<close> writes,
  put anywhere behind whole entries of a segment and followed by padding shorter than a
  header, is found by the parser with nothing left over.\<close>

theorem entry_round_trip:
  assumes "\<forall>e \<in> set es. wal_entry_ok e" "wal_entry_ok e" "wal_to_bytes crc e = (Ok bs :: ('x, bytes) res)"
    and "length pad < HEADER_SIZE"
  shows "parse_validate_wal_entries crc p (concat (map (wal_frame crc) es) @ bs @ pad) = (es @ [e], Ok None)"
  using parse_entries_short_tail [of "es @ [e]" pad crc p] assms by simp

theorem entry_round_trip_witness:
  "parse_validate_wal_entries ex_crc [] (concat (map (wal_frame ex_crc) []) @
     wal_frame ex_crc \<lparr>we_op = OpPut, we_key = ex_str 1 97, we_value = Some (ex_str 2 98), we_seq = 7\<rparr> @ [0]) =
   ([] @ [\<lparr>we_op = OpPut, we_key = ex_str 1 97, we_value = Some (ex_str 2 98), we_seq = 7\<rparr>], Ok None)"
proof -
  let ?e = "\<lparr>we_op = OpPut, we_key = ex_str 1 97, we_value = Some (ex_str 2 98), we_seq = 7\<rparr>"
  have ok: "wal_entry_ok ?e" by code_simp
  then have "wal_to_bytes ex_crc ?e = (Ok (wal_frame ex_crc ?e) :: (unit, bytes) res)" by simp
  from entry_round_trip [OF _ ok this, of "[]" "[0]" "[]"] show ?thesis by (simp add: HEADER_SIZE_def)
qed

text \<open>C29: The parser stops at the first record whose checksum does not match, reports its
  offset, and returns every whole entry before it.\<close>

theorem parse_stops_at_corruption:
  assumes "\<forall>e \<in> set es. wal_entry_ok e" and len: "5 \<le> length body" "length body + 4 < 2 ^ 32"
    and ck: "ck < 2 ^ 32" "ck \<noteq> calculate_checksum crc body"
  shows "parse_validate_wal_entries crc p
      (concat (map (wal_frame crc) es) @ le_bytes 4 (length body + 4) @ le_bytes 4 ck @ body @ rest) =
    (es, Err (Corrupted p (length (concat (map (wal_frame crc) es)))))"
proof -
  let ?pre = "concat (map (wal_frame crc) es)"
  let ?bs = "?pre @ le_bytes 4 (length body + 4) @ le_bytes 4 ck @ body @ rest"
  have "parse_loop crc p ?bs (length ?pre) 0 es = (es, Err (Corrupted p (length ?pre)))"
    using len ck
    by (subst parse_loop.simps) (simp add: le_nat_le_bytes HEADER_SIZE_def Let_def)
  then show ?thesis
    using wal_stream.reader_all [OF assms(1), of crc p "le_bytes 4 (length body + 4) @ le_bytes 4 ck @ body @ rest"]
    by (simp add: parse_validate_wal_entries_def)
qed

theorem parse_stops_at_corruption_witness:
  "parse_validate_wal_entries ex_crc []
     (concat (map (wal_frame ex_crc) []) @ le_bytes 4 (length [1, 2, 3, 4, 5 :: u8] + 4) @ le_bytes 4 9 @
      [1, 2, 3, 4, 5] @ []) = ([], Err (Corrupted [] (length (concat (map (wal_frame ex_crc) [])))))"
proof -
  have "calculate_checksum ex_crc [1, 2, 3, 4, 5 :: u8] = 5" by code_simp
  then show ?thesis
    using parse_stops_at_corruption [of "[]" "[1, 2, 3, 4, 5 :: u8]" 9 ex_crc "[]" "[]"] by simp
qed

text \<open>A segment's name gives back where the segment starts: the name determined for a
  sequence number parses to the largest multiple of the segment size below it.\<close>

theorem segment_filename_round_trip:
  assumes "timeline < 2 ^ 32" "s < 2 ^ 64" "segment_size dvd 2 ^ 32" "0 < segment_size"
  shows "\<exists>name. determine_segment_filename timeline s segment_size = (Ok name :: ('e, string) res) \<and>
    base_lsn_of (file_stem name) segment_size = (Ok (s - s mod segment_size) :: ('e, nat) res)"
proof -
  have "wal_name timeline (s div 2 ^ 32) (s mod 2 ^ 32 div segment_size) \<noteq> []"
    by (metis length_wal_name list.size(3) zero_neq_numeral)
  then show ?thesis
    using determine_segment_filename_eq [OF assms(1,2,4)] base_lsn_of_filename [OF assms(3,4,2)]
    by (intro exI conjI) (auto simp: file_stem_wal)
qed

theorem segment_filename_round_trip_witness:
  "\<exists>name. determine_segment_filename 0 100 64 = (Ok name :: (unit, string) res) \<and>
    base_lsn_of (file_stem name) 64 = (Ok (100 - 100 mod 64) :: (unit, nat) res)"
  by (rule segment_filename_round_trip) simp_all

text \<open>An append that succeeds wrote an entry no longer than a segment and the header of the
  entry before it: everything larger ends in the assertion of \<open>Segment::append\<close> or in an
  error, never in a silently truncated record.\<close>

theorem append_fits:
  assumes "wal_at bs b cs c w fs" and "entry_small e" "we_seq e < 2 ^ 64"
    and run: "wal_append crc e (w, fs) = (Ok u, w', fs')"
  shows "length (wal_frame crc e) \<le> wal_segment_max_size w + HEADER_SIZE"
  by (rule wal_append_Ok_fits [OF assms(1) _ run])
    (use wal_append_Ok_valid [OF run] assms(2,3) in \<open>simp add: wal_entry_ok_def entry_small_def\<close>)

theorem append_fits_witness:
  "length (wal_frame ex_crc ex_entry) \<le> 64 + HEADER_SIZE"
proof -
  obtain w fs u w' fs' where e: "wal_create_new ex_dir 64 ex_wal_fs = (Ok w, fs)"
    "wal_inv ex_crc [0] [] w fs" "wal_append ex_crc ex_entry (w, fs) = (Ok u, w', fs')"
    by (rule ex_append_obtain)
  then obtain bs b cs c where at: "wal_at bs b cs c w fs" by (auto simp: wal_inv_def)
  have "wal_segment_max_size w = 64"
    using e(1) by (auto simp: wal_create_new_def outcome)
  with append_fits [OF at ex_entry_small(1) _ e(3)] ex_entry_small(2) show ?thesis by simp
qed

section \<open>The write worker\<close>

text \<open>C15: Run over any list of jobs that fits into the table, under any schedule of I/O errors,
  the worker behaves as the jobs on a map: a put or delete that is acknowledged takes effect
  in order, one that is answered with an error has no effect, and the flusher is not
  called.\<close>

theorem run_refines_map:
  assumes "run_loop crc flush jobs (f, ww, fs) = (Ok replies, f', ww', fs')"
    and "ww_current_size ww + sum_list (map job_size jobs) < ww_max_size ww"
  shows "visible (map_of (ww_table ww')) = spec_run jobs replies (visible (map_of (ww_table ww))) \<and> f' = f"
  using run_loop_no_flush [OF assms] by simp

theorem run_refines_map_witness:
  "\<exists>ww0 fs0 replies f1 ww1 fs1. memtable_start ex_crc ex_dir 64 0 1000 ex_fs = (Ok ww0, fs0) \<and>
     run_loop ex_crc no_flush ex_jobs ((), ww0, fs0) = (Ok replies, f1, ww1, fs1) \<and>
     visible (map_of (ww_table ww1)) = spec_run ex_jobs replies (visible (map_of (ww_table ww0))) \<and> f1 = ()"
proof -
  obtain ww0 fs0 replies f1 ww1 fs1 where e:
    "memtable_start ex_crc ex_dir 64 0 1000 ex_fs = (Ok ww0, fs0)"
    "run_loop ex_crc no_flush ex_jobs ((), ww0, fs0) = (Ok replies, f1, ww1, fs1)"
    by (rule ex_run_obtain)
  have h: "fresh_dir ex_dir ex_fs" "fs_faults ex_fs = []" "fs_wf ex_fs"
    by (simp_all add: ex_fs_def fresh_dir_def fs_content_def fs_wf_def)
  have d: "(0::nat) < 64" "(64::nat) < 2 ^ 32" "(64::nat) dvd 2 ^ 32" by simp_all
  have s: "sum_list (map job_size ex_jobs) < 1000" by code_simp
  have "ww_current_size ww0 = 0" "ww_max_size ww0 = 1000"
    using memtable_start_fresh [OF e(1) h d] by auto
  with run_refines_map [OF e(2)] s e show ?thesis by simp
qed

text \<open>A successful write answers with the entry it replaces, logs exactly one entry that
  carries the next sequence number, and leaves the table equal to the replay of the log.\<close>

theorem put_logs_and_replies:
  assumes inv: "worker_inv crc bases es0 es ww fs" and small: "job_small (JobPut key v)"
    and run: "worker_put crc key v (ww, fs) = (Ok old, ww', fs')"
  shows "old = memtable_get (ww_table ww) key \<and>
    memtable_get (ww_table ww') key = Some \<lparr>mv_value = Some v, mv_seq = wal_lsn (ww_wal ww)\<rparr> \<and>
    (\<exists>bases'. worker_inv crc (bases @ bases') es0 (es @ [\<lparr>we_op = OpPut, we_key = key,
       we_value = Some v, we_seq = wal_lsn (ww_wal ww)\<rparr>]) ww' fs') \<and>
    wal_lsn (ww_wal ww) < wal_lsn (ww_wal ww')"
proof -
  let ?e = "\<lparr>we_op = OpPut, we_key = key, we_value = Some v, we_seq = wal_lsn (ww_wal ww)\<rparr>"
  from next_sequence_number_cases [of "ww_wal ww"] show ?thesis
  proof cases
    case 1
    then have log: "worker_log crc ?e (ww, fs) = (Ok old, ww', fs')"
      using run by (simp add: worker_put_log)
    have "entry_small ?e" using small by (rule job_small_entry) simp
    from worker_log_inv [OF inv this _ _ log] 1(2) have
      "\<exists>bases'. worker_inv crc (bases @ bases') es0 (es @ [?e]) ww' fs'"
      "wal_lsn (ww_wal ww) < wal_lsn (ww_wal ww')" "old = map_of (ww_table ww) key"
      by auto
    moreover have "map_of (ww_table ww') key = Some \<lparr>mv_value = Some v, mv_seq = wal_lsn (ww_wal ww)\<rparr>"
      using log by (auto simp: worker_log_def outcome worker_insert_def on_wal_Ok)
    ultimately show ?thesis by (simp add: memtable_get_def)
  next
    case 2
    with run show ?thesis by (simp add: worker_put_log)
  qed
qed

theorem put_logs_and_replies_witness:
  "\<exists>ww fs old ww' fs'. ex_start = (Ok ww, fs) \<and>
     worker_put ex_crc (ex_str 1 97) (ex_str 3 98) (ww, fs) = (Ok old, ww', fs') \<and>
     memtable_get (ww_table ww') (ex_str 1 97) =
       Some \<lparr>mv_value = Some (ex_str 3 98), mv_seq = wal_lsn (ww_wal ww)\<rparr>"
proof -
  obtain ww fs where s: "memtable_start ex_crc ex_dir 64 0 1000 ex_fs = (Ok ww, fs)"
    by (rule ex_run_obtain)
  have h: "fresh_dir ex_dir ex_fs" "fs_faults ex_fs = []" "fs_wf ex_fs"
    by (simp_all add: ex_fs_def fresh_dir_def fs_content_def fs_wf_def)
  have d: "(0::nat) < 64" "(64::nat) < 2 ^ 32" "(64::nat) dvd 2 ^ 32" by simp_all
  have w: "worker_inv ex_crc [0] [] [] ww fs"
    using memtable_start_fresh [OF s h d] by auto
  have "case ex_start of (Ok ww0, fs0) \<Rightarrow> is_Ok (fst (worker_put ex_crc (ex_str 1 97) (ex_str 3 98) (ww0, fs0)))
      | _ \<Rightarrow> False"
    by code_simp
  then have "is_Ok (fst (worker_put ex_crc (ex_str 1 97) (ex_str 3 98) (ww, fs)))"
    using s by (simp add: ex_start_def)
  then obtain old ww' fs' where run: "worker_put ex_crc (ex_str 1 97) (ex_str 3 98) (ww, fs) = (Ok old, ww', fs')"
    by (cases "worker_put ex_crc (ex_str 1 97) (ex_str 3 98) (ww, fs)") (auto simp: is_Ok_iff)
  have "job_small (JobPut (ex_str 1 97) (ex_str 3 98))" by code_simp
  from put_logs_and_replies [OF w this run] s run show ?thesis by (auto simp: ex_start_def)
qed

end
