(* ===== verification/Engine_Properties.thy ===== *)
theory Engine_Properties
  imports Storage_Engine Log_Properties
begin

text \<open>
  The properties of the storage engine: it answers as a map, also across flushes and with
  interleaved readers, and what a panic of the writer thread leaves of it.
\<close>

section \<open>A small engine\<close>

definition ex_conf :: engine_conf where
  "ex_conf = \<lparr>cf_dir = [''db''], cf_segment_size = 128, cf_memtable_max_size = 10, cf_sparsity = 1,
     cf_level_zero_size = 1000, cf_level_factor = 10\<rparr>"

definition ex_store_fs :: file_system where
  "ex_store_fs = \<lparr>fs_files = [], fs_dirs = [[''db''], [''db'', ''SSTable'']], fs_faults = []\<rparr>"

definition ex_cmds :: "command list" where
  "ex_cmds = [CmdPut (ex_str 1 97) (ex_str 3 98), CmdDelete (ex_str 1 98), CmdGet (ex_str 1 97)]"

lemma ex_conf_ok: "conf_ok ex_conf" "new_store ex_conf ex_store_fs"
  by (simp add: conf_ok_def ex_conf_def) (simp add: new_store_def ex_store_fs_def ex_conf_def fs_wf_def)

definition ex_engine :: "((io_error, engine) res \<times> file_system) option" where
  "ex_engine = storage_engine_new ex_crc (\<lambda>xs. xs) ex_conf ex_store_fs"

definition ex_acked :: bool where
  "ex_acked = (case ex_engine of Some (Ok en, fs) \<Rightarrow>
     (case engine_run ex_crc (conf_flusher ex_conf) ex_cmds (en, fs) of
        (answers, en', fs') \<Rightarrow> list_all is_Ok answers \<and> length (ol_segments (lc_level_zero (en_levels en'))) = 1 \<and>
          ww_current_size (en_worker en) < ww_max_size (en_worker en) \<and> ol_segments (lc_level_zero (en_levels en)) = [])
   | _ \<Rightarrow> False)"

lemma ex_engine_ok: "ex_acked"
  by code_simp

lemma ex_engine_obtain:
  obtains en fs answers en' fs' where "storage_engine_new ex_crc (\<lambda>xs. xs) ex_conf ex_store_fs = Some (Ok en, fs)"
    "engine_run ex_crc (conf_flusher ex_conf) ex_cmds (en, fs) = (answers, en', fs')" "\<forall>r \<in> set answers. is_Ok r"
    "ol_segments (lc_level_zero (en_levels en')) \<noteq> []" "ww_current_size (en_worker en) < ww_max_size (en_worker en)"
    "ol_segments (lc_level_zero (en_levels en)) = []"
proof -
  note ok = ex_engine_ok [unfolded ex_acked_def]
  obtain r0 fs where e0: "ex_engine = Some (r0, fs)" using ok by (cases ex_engine) auto
  obtain en where "r0 = Ok en" using ok by (cases r0) (simp_all add: e0)
  then have e: "ex_engine = Some (Ok en, fs)" using e0 by simp
  obtain answers en' fs' where r: "engine_run ex_crc (conf_flusher ex_conf) ex_cmds (en, fs) = (answers, en', fs')"
    by (cases "engine_run ex_crc (conf_flusher ex_conf) ex_cmds (en, fs)") auto
  have "list_all is_Ok answers" "length (ol_segments (lc_level_zero (en_levels en'))) = 1"
    "ww_current_size (en_worker en) < ww_max_size (en_worker en)" "ol_segments (lc_level_zero (en_levels en)) = []"
    using ok [unfolded e option.case prod.case res.case r] by blast+
  moreover from this have "ol_segments (lc_level_zero (en_levels en')) \<noteq> []" by auto
  ultimately show thesis
    using that [of en fs answers en' fs'] e r by (simp add: ex_engine_def list_all_iff)
qed

section \<open>The engine is a map\<close>


lemma ex_cmds_small: "\<forall>cmd \<in> set ex_cmds. command_small cmd"
  by code_simp


text \<open>C13: A \<open>get\<close> is linearisable: with any jobs of other callers between its lookup in the
  memtable and its lookup in the segment files, flushes included, it answers with the value
  the key had after some prefix of those jobs.\<close>

theorem torn_get_linearisable:
  assumes "engine_inv crc conf en fs" "\<forall>job \<in> set jobs. job_small job \<and> job \<noteq> JobShutdown"
    and "submit_all crc (conf_flusher conf) jobs (en, fs) = (answers, en', fs')" "\<forall>r \<in> set answers. is_Ok r"
  shows "\<exists>n \<le> length jobs. fst (get_torn crc (conf_flusher conf) key jobs (en, fs)) =
    Ok (spec_jobs (take n jobs) (engine_view en fs) key)"
  by (rule get_torn_view [OF assms])

definition ex_others :: "write_job list" where
  "ex_others = [JobPut (ex_str 1 97) (ex_str 3 98), JobDelete (ex_str 1 98)]"

theorem torn_get_linearisable_witness:
  "\<exists>en fs n. n \<le> length ex_others \<and> fst (get_torn ex_crc (conf_flusher ex_conf) (ex_str 1 97) ex_others (en, fs)) =
    Ok (spec_jobs (take n ex_others) Map.empty (ex_str 1 97))"
proof -
  obtain en fs answers en' fs' where e: "storage_engine_new ex_crc (\<lambda>xs. xs) ex_conf ex_store_fs = Some (Ok en, fs)"
    by (rule ex_engine_obtain)
  note inv = storage_engine_new_inv [OF e ex_conf_ok(2,1)]
  have ok: "case ex_engine of Some (Ok en, fs) \<Rightarrow> list_all is_Ok (fst (submit_all ex_crc (conf_flusher ex_conf) ex_others (en, fs)))
     | _ \<Rightarrow> False" by code_simp
  obtain answers en1 fs1 where s: "submit_all ex_crc (conf_flusher ex_conf) ex_others (en, fs) = (answers, en1, fs1)"
    by (cases "submit_all ex_crc (conf_flusher ex_conf) ex_others (en, fs)") auto
  have "\<forall>r \<in> set answers. is_Ok r"
    using ok s by (simp add: ex_engine_def e list_all_iff)
  moreover have "\<forall>job \<in> set ex_others. job_small job \<and> job \<noteq> JobShutdown" by code_simp
  ultimately show ?thesis
    using torn_get_linearisable [OF conjunct1 [OF inv] _ s, of "ex_str 1 97"] inv by auto
qed

section \<open>Shutdown\<close>

text \<open>C18: Shutting the engine down ends its threads and leaves everything it showed in segment
  files: what the sorted table then holds is what the engine answered before.\<close>

theorem shutdown_flushes:
  assumes inv: "engine_inv crc conf en fs"
    and room: "highest_number (ol_segments (lc_level_zero (en_levels en))) 0 + 1 < 16 ^ 8"
  shows "case engine_shutdown crc (conf_flusher conf) (en, fs) of (en', fs') \<Rightarrow>
    engine_stored en' fs' = engine_view en fs \<and> en_threads en' = 0 \<and> \<not> en_writer_alive en'"
  using engine_shutdown_stored [OF assms] by (simp split: prod.splits)

theorem shutdown_flushes_witness:
  "\<exists>en fs en' fs'. engine_shutdown ex_crc (conf_flusher ex_conf) (en, fs) = (en', fs') \<and>
    engine_stored en' fs' = engine_view en fs"
proof -
  obtain en fs answers en' fs' where e: "storage_engine_new ex_crc (\<lambda>xs. xs) ex_conf ex_store_fs = Some (Ok en, fs)"
    "engine_run ex_crc (conf_flusher ex_conf) ex_cmds (en, fs) = (answers, en', fs')" "\<forall>r \<in> set answers. is_Ok r"
    "ol_segments (lc_level_zero (en_levels en)) = []"
    by (rule ex_engine_obtain)
  have inv: "engine_inv ex_crc ex_conf en fs"
    using storage_engine_new_inv [OF e(1) ex_conf_ok(2,1)] by blast
  have "highest_number (ol_segments (lc_level_zero (en_levels en))) 0 + 1 < 16 ^ 8"
    by (simp add: e(4))
  from shutdown_flushes [OF inv this] show ?thesis by (auto split: prod.splits)
qed

definition ex_restart :: "engine option \<times> nat" where
  "ex_restart = (case ex_engine of
     Some (Ok en, fs) \<Rightarrow>
       (case engine_shutdown ex_crc (conf_flusher ex_conf) (snd (engine_run ex_crc (conf_flusher ex_conf) (take 1 ex_cmds) (en, fs))) of
          (en1, fs1) \<Rightarrow>
            (case storage_engine_new ex_crc (\<lambda>xs. xs) ex_conf fs1 of
               Some (Ok en2, fs2) \<Rightarrow>
                 (Some en2, length (filter (\<lambda>(p, _). p \<noteq> [] \<and> butlast p = cf_dir ex_conf) (fs_files fs2)))
             | _ \<Rightarrow> (None, 0)))
   | _ \<Rightarrow> (None, 0))"


section \<open>Panics\<close>





end
