(* ===== verification/Net_Properties.thy ===== *)
theory Net_Properties
  imports Server_Life Engine_Properties
begin

text \<open>
  The properties of the network side: a whole conversation with a storage engine, the wire
  format, the refusals, and how connections and the server end.
\<close>

section \<open>Ids and requests for the witnesses\<close>

text \<open>Ids of which only the first byte is in use; the little-endian form swaps the first field
  of four bytes.\<close>

definition ex_uuid :: "u8 uuid_lib" where
  "ex_uuid = \<lparr>ul_from_bytes = hd, ul_as_bytes = (\<lambda>x. x # replicate 15 0),
     ul_to_bytes_le = (\<lambda>x. [0, 0, 0, x] @ replicate 12 0), ul_nil = 0\<rparr>"

lemma ex_uuid_ok: "uuid_ok ex_uuid"
  by (simp add: uuid_ok_def ex_uuid_def)

definition ex_request :: "u8 \<Rightarrow> request_type \<Rightarrow> rstring \<Rightarrow> rstring option \<Rightarrow> u8 tcp_request" where
  "ex_request correlation_id t key v =
    \<lparr>tr_headers = \<lparr>th_request_type = t, th_correlation_id = correlation_id, th_protocol_version = 0, th_flags = 0\<rparr>,
      tr_payload = \<lparr>pay_key = key, pay_value = v\<rparr>\<rparr>"

definition ex_requests :: "u8 tcp_request list" where
  "ex_requests = [ex_request 1 ReqPut (ex_str 1 97) (Some (ex_str 3 98)), ex_request 2 ReqGet (ex_str 1 97) None,
     ex_request 3 ReqDelete (ex_str 1 97) None, ex_request 4 ReqGet (ex_str 1 97) None]"

definition ex_conn :: "'s \<Rightarrow> bytes \<Rightarrow> stream_end \<Rightarrow> 's conn" where
  "ex_conn s bs e = \<lparr>cn_net = \<lparr>ni_bytes = bs, ni_end = e\<rparr>, cn_out = [], cn_write_faults = [], cn_store = s\<rparr>"

section \<open>A conversation\<close>


definition ex_served :: bool where
  "ex_served = (case ex_engine of Some (Ok en, fs) \<Rightarrow>
     list_all served (fst (serve (engine_exec ex_crc (conf_flusher ex_conf)) (map (received ex_uuid) ex_requests) (en, fs)))
   | _ \<Rightarrow> False)"

lemma str_len_ex: "str_len (ex_str 1 97) = 1" "str_len (ex_str 3 98) = 3"
  by code_simp+

lemma ex_request_ok:
  "request_ok (ex_request i ReqGet (ex_str 1 97) None)" "request_ok (ex_request i ReqDelete (ex_str 1 97) None)"
  "request_ok (ex_request i ReqPut (ex_str 1 97) (Some (ex_str 3 98)))"
  by (simp_all add: request_ok_def ex_request_def payload_ok_def payload_len_def str_len_ex del: One_nat_def)

lemma ex_served_ok: "ex_served" "list_all (\<lambda>r. command_small (request_command r)) ex_requests"
  by code_simp+


section \<open>The wire\<close>

text \<open>C23: What a request is serialised to is received as that request, and nothing after it is
  consumed; only the correlation id comes back with its bytes in the other order.\<close>

theorem request_round_trip:
  assumes "uuid_ok u" "request_ok r" "ni_bytes net = request_to_bytes u r @ rest"
  shows "recv_header_len net = (Ok 24, net\<lparr>ni_bytes := drop 4 (request_to_bytes u r) @ rest\<rparr>) \<and>
    recv_tcp_request u 24 (net\<lparr>ni_bytes := drop 4 (request_to_bytes u r) @ rest\<rparr>) =
      Some (Ok (received u r), net\<lparr>ni_bytes := rest\<rparr>)"
  using recv_header_len_request [OF assms(3)]
    recv_request_to_bytes [OF assms(1), of r "net\<lparr>ni_bytes := drop 4 (request_to_bytes u r) @ rest\<rparr>" rest] assms(2)
  by (simp add: request_ok_def received_def)

theorem request_round_trip_witness:
  "\<exists>r received_r. recv_tcp_request ex_uuid 24 \<lparr>ni_bytes = drop 4 (request_to_bytes ex_uuid r) @ [7], ni_end = EndEof\<rparr> =
      Some (Ok received_r, \<lparr>ni_bytes = [7], ni_end = EndEof\<rparr>) \<and>
    tr_payload received_r = tr_payload r \<and>
    th_correlation_id (tr_headers r) = 5 \<and> th_correlation_id (tr_headers received_r) = 0"
proof -
  let ?r = "ex_request 5 ReqGet (ex_str 1 97) None"
  have ids: "th_correlation_id (tr_headers ?r) = 5" "tr_payload (received ex_uuid ?r) = tr_payload ?r"
    by (simp_all add: ex_request_def received_def)
  have id0: "th_correlation_id (tr_headers (received ex_uuid ?r)) = 0" by code_simp
  show ?thesis
    using request_round_trip [OF ex_uuid_ok ex_request_ok(1), where rest = "[7]" and net = "\<lparr>ni_bytes = request_to_bytes ex_uuid ?r @ [7], ni_end = EndEof\<rparr>"]
      ids id0 by (intro exI [of _ ?r] exI [of _ "received ex_uuid ?r"]) simp
qed



text \<open>C30: A request that was received carries a value exactly when it is a put, so that turning
  it into an operation of the store never panics.\<close>

theorem received_request_runs:
  assumes "recv_tcp_request u n net = Some (Ok r, net')"
  shows "(pay_value (tr_payload r) \<noteq> None \<longleftrightarrow> th_request_type (tr_headers r) = ReqPut) \<and>
    operation_from r = (Ok (request_command r) :: (engine_error, command) res)"
  using recv_tcp_request_value [OF assms]
  by (cases "th_request_type (tr_headers r)") (auto simp: operation_from_def request_command_def)

theorem received_request_runs_witness:
  "operation_from (received ex_uuid (ex_request 5 ReqPut (ex_str 1 97) (Some (ex_str 3 98)))) =
    (Ok (CmdPut (ex_str 1 97) (ex_str 3 98)) :: (engine_error, command) res)"
proof -
  let ?r = "ex_request 5 ReqPut (ex_str 1 97) (Some (ex_str 3 98))"
  let ?net = "\<lparr>ni_bytes = drop 4 (request_to_bytes ex_uuid ?r), ni_end = EndEof\<rparr>"
  have "recv_tcp_request ex_uuid 24 ?net = Some (Ok (received ex_uuid ?r), ?net\<lparr>ni_bytes := []\<rparr>)"
    using recv_request_to_bytes [OF ex_uuid_ok, of ?r ?net "[]"] ex_request_ok(3)
    by (simp add: request_ok_def received_def)
  from received_request_runs [OF this] show ?thesis
    by (simp add: ex_request_def received_def request_command_def)
qed

section \<open>Refusals\<close>



text \<open>C32: A request whose header is accepted and whose payload is announced with fewer than
  four bytes ends the task of the connection in a panic: nothing is answered and the store is
  not called.\<close>

theorem short_payload_panics:
  assumes "uuid_ok u" "th_protocol_version h = 0" "th_flags h < 2 ^ 16"
    and "ni_bytes (cn_net c) = be_bytes 4 24 @ Tcp_Protocol.MAGIC_BYTES @ headers_to_bytes u h @ be_bytes 4 (length bs) @ bs @ rest"
    and "length bs < 4" "\<not> cancelled i"
  shows "conn_start u exec cancelled i c = Some (Panic, c\<lparr>cn_net := (cn_net c)\<lparr>ni_bytes := rest\<rparr>\<rparr>)"
  by (rule conn_start_short_payload [where h = h and bs = bs]) (rule assms)+

theorem short_payload_panics_witness:
  "\<exists>bytes c'. conn_start ex_uuid (\<lambda>cmd s. (Ok None, s + 1)) (\<lambda>_. False) 0 (ex_conn (0 :: nat) bytes EndEof) = Some (Panic, c') \<and>
    cn_out c' = [] \<and> cn_store c' = 0"
proof -
  let ?h = "tr_headers (ex_request 5 ReqGet (ex_str 1 97) None)"
  let ?bytes = "be_bytes 4 24 @ Tcp_Protocol.MAGIC_BYTES @ headers_to_bytes ex_uuid ?h @ be_bytes 4 (length [0 :: u8, 0]) @ [0, 0] @ []"
  let ?c = "ex_conn (0 :: nat) ?bytes EndEof"
  have "conn_start ex_uuid (\<lambda>cmd s. (Ok None, s + 1)) (\<lambda>_. False) 0 ?c = Some (Panic, ?c\<lparr>cn_net := (cn_net ?c)\<lparr>ni_bytes := []\<rparr>\<rparr>)"
    by (rule short_payload_panics [OF ex_uuid_ok, where h = ?h and bs = "[0, 0]"])
      (simp_all add: ex_request_def ex_conn_def del: append_Nil2)
  then show ?thesis
    by (intro exI [of _ ?bytes] exI [of _ "?c\<lparr>cn_net := (cn_net ?c)\<lparr>ni_bytes := []\<rparr>\<rparr>"])
      (simp add: ex_conn_def)
qed

section \<open>Ends\<close>

text \<open>C24: A connection whose peer closes the stream ends, whatever bytes it sent before and
  whatever the cancellations; and one whose peer falls silent before the length of a request
  is complete ends after the timeout with the close notification and the store untouched.\<close>

theorem connection_ends:
  "(ni_end (cn_net c) = EndEof \<longrightarrow> conn_start u exec cancelled i c \<noteq> None) \<and>
   (ni_end (cn_net c) = EndStall \<and> length (ni_bytes (cn_net c)) < 4 \<and> cn_write_faults c = [] \<longrightarrow>
     conn_start u exec cancelled i c =
       Some (Ok (), c\<lparr>cn_out := cn_out c @ response_to_bytes u (create_close_notification u)\<rparr>))"
  using conn_start_returns [of c u exec cancelled i] conn_start_idle [of c u exec cancelled i]
  by (auto simp: send_close_notification_def write_all_def)

theorem connection_ends_witness:
  "conn_start ex_uuid (\<lambda>cmd s. (Ok None, s)) (\<lambda>_. False) 0 (ex_conn () [1, 2, 3, 4, 5] EndEof) \<noteq> None \<and>
   (\<exists>c'. conn_start ex_uuid (\<lambda>cmd s. (Ok None, s)) (\<lambda>_. False) 0 (ex_conn () [1, 2, 3] EndStall) = Some (Ok (), c') \<and>
     cn_out c' = replicate 16 0 @ [11])"
proof -
  have r: "response_to_bytes ex_uuid (create_close_notification ex_uuid) = replicate 16 0 @ [11]" by code_simp
  show ?thesis
    using connection_ends [of "ex_conn () [1, 2, 3, 4, 5] EndEof" ex_uuid "\<lambda>cmd s. (Ok None, s)" "\<lambda>_. False" 0]
      connection_ends [of "ex_conn () [1, 2, 3] EndStall" ex_uuid "\<lambda>cmd s. (Ok None, s)" "\<lambda>_. False" 0]
    unfolding r by (simp add: ex_conn_def)
qed

section \<open>The server\<close>


text \<open>Two connections: the second asks for what the first puts.\<close>

definition ex_server_events :: "server_event list" where
  "ex_server_events =
    [SrvBind True, SrvHead, SrvAccept (Some (\<lparr>ni_bytes = request_to_bytes ex_uuid (hd ex_requests), ni_end = EndStall\<rparr>, [])),
     SrvSend, SrvHead, SrvAccept (Some (\<lparr>ni_bytes = request_to_bytes ex_uuid (ex_requests ! 1), ni_end = EndEof\<rparr>, [])),
     SrvTask 1 False, SrvTask 0 False, SrvManager, SrvTask 0 False, SrvTask 1 False, SrvSend, SrvTask 1 False]"

definition ex_server_ok :: bool where
  "ex_server_ok = (case ex_engine of Some (Ok en, fs) \<Rightarrow>
     (let exec = engine_exec ex_crc (conf_flusher ex_conf); log = server_log ex_uuid exec ex_server_events (server_new (en, fs)) in
      case server_run ex_uuid exec ex_server_events (server_new (en, fs)) of None \<Rightarrow> False
      | Some s \<Rightarrow> list_all (exchange_ok command_small) log \<and> length (sv_tasks s) = 2 \<and>
          map (\<lambda>it. response_to_bytes ex_uuid (item_response it)) (items_of 1 log) = [replicate 16 0 @ [0, 98, 98, 98]])
   | _ \<Rightarrow> False)"

lemma ex_server_run: "ex_server_ok"
  by code_simp


text \<open>C26: Once the accept loop has ended and no connection is inside a request, the server can
  still return exactly when the manager is past its receive loop or has a start signal left to
  receive: otherwise it waits for ever, for the server holds a sender itself.\<close>

theorem server_stops_iff:
  assumes "server_reach u exec (server_new st) evs s" "sv_phase s = SvJoin" "between_requests s"
  shows "(\<exists>evs' s'. server_run u exec evs' s = Some s' \<and> sv_phase s' = SvReturned (Ok ())) \<longleftrightarrow>
    cm_phase (sv_manager s) \<noteq> MgReceive \<or> sv_channel s \<noteq> []"
proof (cases "idle_join s")
  case True
  have "sv_phase s' \<noteq> SvReturned (Ok ())" if "server_run u exec evs' s = Some s'" for evs' s'
  proof -
    have "idle_join s'"
      by (rule server_run_keeps [where P = idle_join, OF that]) (rule True, erule (1) idle_join_step)
    then show ?thesis by (simp add: idle_join_def)
  qed
  then show ?thesis using True by (auto simp: idle_join_def)
next
  case False
  have "server_inv s" by (rule server_reach_inv [OF assms(1) server_inv_new])
  from server_can_stop [OF this assms(2,3) False] False assms(2) show ?thesis by (auto simp: idle_join_def)
qed

definition ex_stop_events :: "nat \<Rightarrow> server_event list" where
  "ex_stop_events k = [SrvBind True, SrvHead, SrvAccept (Some (\<lparr>ni_bytes = [], ni_end = EndStall\<rparr>, [])), SrvSend, SrvHead,
     SrvAccept (Some (\<lparr>ni_bytes = [], ni_end = EndStall\<rparr>, [])), SrvSend] @ replicate k SrvManager @ [SrvCancel, SrvHead]"

definition ex_stop :: "nat \<Rightarrow> unit server option" where
  "ex_stop k = server_run ex_uuid (\<lambda>cmd s. (Ok None, s)) (ex_stop_events k) (server_new ())"

theorem server_stops_iff_witness:
  "\<exists>s1 s2. ex_stop 1 = Some s1 \<and> ex_stop 2 = Some s2 \<and>
    (\<exists>evs s. server_run ex_uuid (\<lambda>cmd s. (Ok None, s)) evs s1 = Some s \<and> sv_phase s = SvReturned (Ok ())) \<and>
    \<not> (\<exists>evs s. server_run ex_uuid (\<lambda>cmd s. (Ok None, s)) evs s2 = Some s \<and> sv_phase s = SvReturned (Ok ()))"
proof -
  have c: "case ex_stop 1 of None \<Rightarrow> False | Some s \<Rightarrow> sv_phase s = SvJoin \<and>
      list_all (\<lambda>t. ct_phase t = TkIdle) (sv_tasks s) \<and> length (sv_channel s) = 1"
    "case ex_stop 2 of None \<Rightarrow> False | Some s \<Rightarrow> sv_phase s = SvJoin \<and> cm_phase (sv_manager s) = MgReceive \<and>
      list_all (\<lambda>t. ct_phase t = TkIdle) (sv_tasks s) \<and> sv_channel s = []"
    by code_simp+
  obtain s1 where s1: "ex_stop 1 = Some s1" "sv_phase s1 = SvJoin" "between_requests s1" "length (sv_channel s1) = 1"
    using c(1) by (auto simp: between_requests_def list_all_iff split: option.splits)
  obtain s2 where s2: "ex_stop 2 = Some s2" "sv_phase s2 = SvJoin" "between_requests s2" "sv_channel s2 = []"
    "cm_phase (sv_manager s2) = MgReceive"
    using c(2) by (auto simp: between_requests_def list_all_iff split: option.splits)
  have r: "server_reach ex_uuid (\<lambda>cmd s. (Ok None, s)) (server_new ()) (ex_stop_events k) s" if "ex_stop k = Some s" for k s
    using server_reach_run [OF reach_start, of ex_uuid "\<lambda>cmd s. (Ok None, s)" "ex_stop_events k" "server_new ()" s] that
    by (simp add: ex_stop_def)
  show ?thesis
    using server_stops_iff [OF r [OF s1(1)] s1(2,3)] server_stops_iff [OF r [OF s2(1)] s2(2,3)] s1 s2 by auto
qed


definition ex_missed :: "unit server option" where
  "ex_missed = server_run ex_uuid (\<lambda>cmd s. (Ok None, s))
     (ex_stop_events 1 @ [SrvTask 0 True, SrvManager, SrvManager, SrvManager, SrvJoin]) (server_new ())"



definition ex_stalled :: "unit server option" where
  "ex_stalled = server_run ex_uuid (\<lambda>cmd s. (Ok None, s))
     [SrvBind True, SrvHead, SrvAccept (Some (\<lparr>ni_bytes = [0, 0, 0, 24], ni_end = EndStall\<rparr>, [])), SrvSend,
      SrvManager, SrvTask 0 False, SrvCancel] (server_new ())"


end
