(* ===== verification/Compaction.thy ===== *)
theory Compaction
  imports Sst_Table
begin

text \<open>
  The background compaction (\<open>src/storage_engine/sstable/compaction.rs\<close>).  Its state is the
  level container it shares with the table and the segments whose files wait for deletion.
  What the thread waits for is an event: the stop flag, a notification (also a spurious wake
  up), or the end of the timeout.  Which segments are still read (\<open>Arc::strong_count\<close>) is the
  parameter \<open>in_use\<close> of a turn.  A compaction reads the levels at its start and replaces them
  at its end; segments the flusher adds in between are an argument of the turn.
\<close>

section \<open>The merges\<close>

definition mul_chk :: "nat \<Rightarrow> nat \<Rightarrow> nat \<Rightarrow> ('e, nat) res" where
  "mul_chk w a b = (if a * b < 2 ^ w then Ok (a * b) else Panic)"

type_synonym pending = "sst_segment list"

type_synonym 'a bt_act = "pending \<times> file_system \<Rightarrow> ((io_error, 'a) res \<times> pending \<times> file_system) option"

text \<open>The level a round merges into: the first that is left, or a new one on top.\<close>

definition round_level :: "nat \<Rightarrow> nat \<Rightarrow> nat \<Rightarrow> partitioned_level list \<Rightarrow> (io_error, partitioned_level) res" where
  "round_level factor level_number previous_target_size levels = (case levels of
     level # _ \<Rightarrow> Ok level
   | [] \<Rightarrow> bind_res (mul_chk 64 previous_target_size factor) (\<lambda>target. Ok (partitioned_new target level_number)))"

text \<open>
  The loop that both compactions share: a round merges into the next level, and the next
  round starts when the result is over its size.
\<close>

partial_function (option) compact_loop ::
    "(nat list \<Rightarrow> nat list) \<Rightarrow> nat \<Rightarrow> nat \<Rightarrow> nat \<Rightarrow> sst_segment list \<Rightarrow> partitioned_level list \<Rightarrow>
     partitioned_level list \<Rightarrow> partitioned_level list bt_act" where
  "compact_loop order factor level_number previous_target_size to_merge levels new_levels s =
    (case round_level factor level_number previous_target_size levels of
       Ok level \<Rightarrow>
         Option.bind (level_merge order level to_merge (snd s)) (\<lambda>(r, fs). case r of
             Ok (new_level, to_delete) \<Rightarrow>
               (let pending = fst s @ to_delete;
                    previous = (case levels of level # _ \<Rightarrow> pl_target_size level | [] \<Rightarrow> previous_target_size) in
                if \<not> partitioned_exceeds new_level
                then Some (Ok ((new_levels @ [new_level]) @ tl levels), pending, fs)
                else (case partitioned_segments_to_merge new_level of
                    Ok to_merge' \<Rightarrow>
                      compact_loop order factor (level_number + 1) previous to_merge' (tl levels)
                        (new_levels @ [new_level]) (pending, fs)
                  | Err x \<Rightarrow> Some (Err x, pending, fs)
                  | Panic \<Rightarrow> Some (Panic, pending, fs)))
           | Err x \<Rightarrow> Some (Err x, fst s, fs)
           | Panic \<Rightarrow> Some (Panic, fst s, fs))
     | Err x \<Rightarrow> Some (Err x, s)
     | Panic \<Rightarrow> Some (Panic, s))"

definition compact_from_level_zero ::
    "(nat list \<Rightarrow> nat list) \<Rightarrow> nat \<Rightarrow> level_container \<Rightarrow> partitioned_level list bt_act" where
  "compact_from_level_zero order factor lc s =
    (case overlapping_segments_to_merge (lc_level_zero lc) of
       Ok to_merge \<Rightarrow> compact_loop order factor 1 (ol_target_size (lc_level_zero lc)) to_merge
         (lc_partitioned_levels lc) [] s
     | Err x \<Rightarrow> Some (Err x, s)
     | Panic \<Rightarrow> Some (Panic, s))"

definition compact_from_partitioned_level ::
    "(nat list \<Rightarrow> nat list) \<Rightarrow> nat \<Rightarrow> partitioned_level list \<Rightarrow> partitioned_level list bt_act" where
  "compact_from_partitioned_level order factor levels s = (case levels of
     [] \<Rightarrow> Some (Ok [], s)
   | level # levels' \<Rightarrow>
       (case partitioned_segments_to_merge level of
          Ok to_merge \<Rightarrow> compact_loop order factor (pl_level_number level + 1) (pl_target_size level)
            to_merge levels' [] s
        | Err x \<Rightarrow> Some (Err x, s)
        | Panic \<Rightarrow> Some (Panic, s)))"

section \<open>Levels to compact and files to delete\<close>

fun find_over_full :: "partitioned_level list \<Rightarrow> nat \<Rightarrow> nat" where
  "find_over_full [] idx = idx"
| "find_over_full (level # levels) idx =
    (if partitioned_exceeds level then idx else find_over_full levels (idx + 1))"

definition find_partitioned_levels_to_compact ::
    "level_container \<Rightarrow> partitioned_level list \<times> partitioned_level list" where
  "find_partitioned_levels_to_compact lc =
    (let levels = lc_partitioned_levels lc; idx = find_over_full levels 0 in
     if idx = length levels then (levels, []) else (take idx levels, drop idx levels))"

fun remove_unused :: "sst_segment list \<Rightarrow> file_system \<Rightarrow> file_system" where
  "remove_unused [] fs = fs"
| "remove_unused (s # segs) fs = remove_unused segs (snd (fs_remove (sg_path s) fs))"

definition remove_segment_files :: "(sst_segment \<Rightarrow> bool) \<Rightarrow> pending \<times> file_system \<Rightarrow> pending \<times> file_system" where
  "remove_segment_files in_use = (\<lambda>(pending, fs).
     (filter in_use pending, remove_unused (filter (\<lambda>seg. \<not> in_use seg) pending) fs))"

section \<open>The thread\<close>

datatype bt_event = EvStop | EvNotified | EvTimedOut

text \<open>
  One turn of the loop; the flag tells whether it goes on.  \<open>added\<close> are the level zero
  segments that arrive while the turn compacts.
\<close>

definition container_add :: "sst_segment list \<Rightarrow> level_container \<Rightarrow> level_container" where
  "container_add added lc = lc\<lparr>lc_level_zero := (lc_level_zero lc)
     \<lparr>ol_segments := ol_segments (lc_level_zero lc) @ added\<rparr>\<rparr>"

definition bt_turn ::
    "(nat list \<Rightarrow> nat list) \<Rightarrow> nat \<Rightarrow> (sst_segment \<Rightarrow> bool) \<Rightarrow> sst_segment list \<Rightarrow> bt_event \<Rightarrow>
     level_container \<times> pending \<times> file_system \<Rightarrow>
     ((io_error, bool) res \<times> level_container \<times> pending \<times> file_system) option" where
  "bt_turn order factor in_use added ev = (\<lambda>(lc, pending, fs). case ev of
     EvStop \<Rightarrow> Some (Ok False, container_add added lc, pending, fs)
   | EvNotified \<Rightarrow>
       map_option (\<lambda>(r, s). case r of
           Ok new_levels \<Rightarrow>
             (Ok True, swap_all_levels new_levels (container_add added lc), remove_segment_files in_use s)
         | Err x \<Rightarrow> (Ok False, container_add added lc, s)
         | Panic \<Rightarrow> (Panic, container_add added lc, s))
         (compact_from_level_zero order factor lc (pending, fs))
   | EvTimedOut \<Rightarrow>
       (case find_partitioned_levels_to_compact lc of (keep, to_compact) \<Rightarrow>
         map_option (\<lambda>(r, s). case r of
             Ok new_levels \<Rightarrow>
               (Ok True, swap_partitioned_levels (keep @ new_levels) (container_add added lc), s)
           | _ \<Rightarrow> (Panic, container_add added lc, s))
           (compact_from_partitioned_level order factor to_compact
             (remove_segment_files in_use (pending, fs)))))"

fun bt_run ::
    "(nat list \<Rightarrow> nat list) \<Rightarrow> nat \<Rightarrow> ((sst_segment \<Rightarrow> bool) \<times> sst_segment list \<times> bt_event) list \<Rightarrow>
     level_container \<times> pending \<times> file_system \<Rightarrow>
     ((io_error, bool) res \<times> level_container \<times> pending \<times> file_system) option" where
  "bt_run order factor [] s = Some (Ok True, s)"
| "bt_run order factor ((in_use, added, ev) # evs) s =
    Option.bind (bt_turn order factor in_use added ev s) (\<lambda>(r, s'). case r of
        Ok True \<Rightarrow> bt_run order factor evs s'
      | _ \<Rightarrow> Some (r, s'))"

section \<open>What a turn leaves alone\<close>

lemma find_over_full_split:
  "find_over_full levels idx \<le> idx + length levels \<and> idx \<le> find_over_full levels idx \<and>
   (\<forall>level \<in> set (take (find_over_full levels idx - idx) levels). \<not> partitioned_exceeds level) \<and>
   (find_over_full levels idx < idx + length levels \<longrightarrow>
     partitioned_exceeds (levels ! (find_over_full levels idx - idx)))"
proof (induction levels arbitrary: idx)
  case (Cons level levels)
  show ?case
  proof (cases "partitioned_exceeds level")
    case False
    define m where "m = find_over_full levels (Suc idx) - Suc idx"
    have m: "find_over_full levels (Suc idx) = Suc (idx + m)" "Suc (idx + m) - idx = Suc m"
      using Cons.IH [of "Suc idx"] by (auto simp: m_def)
    show ?thesis using Cons.IH [of "Suc idx"] False by (simp add: m)
  qed simp
qed simp

lemma find_partitioned_levels_split:
  assumes "find_partitioned_levels_to_compact lc = (keep, to_compact)"
  shows "lc_partitioned_levels lc = keep @ to_compact \<and> (\<forall>level \<in> set keep. \<not> partitioned_exceeds level) \<and>
    (to_compact \<noteq> [] \<longrightarrow> partitioned_exceeds (hd to_compact))"
proof -
  let ?levels = "lc_partitioned_levels lc" and ?i = "find_over_full (lc_partitioned_levels lc) 0"
  have s: "?i \<le> length ?levels" "\<forall>level \<in> set (take ?i ?levels). \<not> partitioned_exceeds level"
    "?i < length ?levels \<Longrightarrow> partitioned_exceeds (?levels ! ?i)"
    using find_over_full_split [of ?levels 0] by auto
  show ?thesis
  proof (cases "?i = length ?levels")
    case True
    then show ?thesis using assms s by (auto simp: find_partitioned_levels_to_compact_def Let_def)
  next
    case False
    then have "keep = take ?i ?levels" "to_compact = drop ?i ?levels" "?i < length ?levels"
      using assms s(1) by (auto simp: find_partitioned_levels_to_compact_def Let_def)
    then show ?thesis using s by (simp add: hd_drop_conv_nth)
  qed
qed

lemma fs_remove_frame:
  assumes "fs_faults fs = []"
  shows "fs_faults (snd (fs_remove p fs)) = []" "fs_dirs (snd (fs_remove p fs)) = fs_dirs fs"
    "q \<noteq> p \<Longrightarrow> fs_content (snd (fs_remove p fs)) q = fs_content fs q"
  using assms by (auto simp: fs_remove_def fs_content_def delete_conv' split: option.split)

lemma remove_unused_frame:
  assumes "fs_faults fs = []"
  shows "fs_faults (remove_unused segs fs) = [] \<and> fs_dirs (remove_unused segs fs) = fs_dirs fs \<and>
    (\<forall>p. p \<notin> sg_path ` set segs \<longrightarrow> fs_content (remove_unused segs fs) p = fs_content fs p)"
  using assms
  by (induction segs fs rule: remove_unused.induct) (auto simp: fs_remove_frame)

lemma bt_turn_idle:
  assumes "\<forall>level \<in> set (lc_partitioned_levels lc). \<not> partitioned_exceeds level"
  shows "bt_turn order factor in_use added EvTimedOut (lc, pending, fs) =
    Some (Ok True, container_add added lc, remove_segment_files in_use (pending, fs))"
proof -
  obtain keep to_compact where s: "find_partitioned_levels_to_compact lc = (keep, to_compact)"
    by (cases "find_partitioned_levels_to_compact lc")
  note split = find_partitioned_levels_split [OF s]
  have e1: "to_compact = []"
  proof (rule ccontr)
    assume "to_compact \<noteq> []"
    then have "partitioned_exceeds (hd to_compact)" "hd to_compact \<in> set (lc_partitioned_levels lc)"
      using split by auto
    then show False using assms by blast
  qed
  then have e: "to_compact = []" "keep = lc_partitioned_levels lc" using split by auto
  show ?thesis
    by (simp add: bt_turn_def s e compact_from_partitioned_level_def swap_partitioned_levels_def
        container_add_def)
qed

text \<open>Deleting the files of replaced segments does not change what is read.\<close>

lemma bt_turn_idle_reads:
  assumes inv: "sst_inv dir sparsity lc fs" and nf: "fs_faults fs = []"
    and idle: "\<forall>level \<in> set (lc_partitioned_levels lc). \<not> partitioned_exceeds level"
    and apart: "sg_path ` set pending \<inter> sg_path ` all_segments lc = {}"
    and run: "bt_turn order factor in_use [] EvTimedOut (lc, pending, fs) = Some (r, lc', pending', fs')"
  shows "r = Ok True \<and> lc' = lc \<and> set pending' = {seg \<in> set pending. in_use seg} \<and>
    sstable_get lc' key fs' = (fst (sstable_get lc key fs), fs')"
proof -
  have e: "r = Ok True" "lc' = lc" "pending' = filter in_use pending"
    "fs' = remove_unused (filter (\<lambda>seg. \<not> in_use seg) pending) fs"
    using run bt_turn_idle [OF idle, of order factor in_use "[]" pending fs]
    by (auto simp: container_add_def remove_segment_files_def)
  note fr = remove_unused_frame [OF nf, of "filter (\<lambda>seg. \<not> in_use seg) pending"]
  have "\<forall>seg \<in> all_segments lc. fs_content fs' (sg_path seg) = fs_content fs (sg_path seg)"
    using fr apart unfolding e(4) by (metis (no_types, lifting) disjoint_iff filter_is_subset image_eqI image_mono subsetD)
  note same = sst_same [OF inv nf _ this]
  have nf': "fs_faults fs' = []" using fr by (simp add: e(4))
  have "sstable_inv lc fs'"
    using same [OF nf'] by (auto simp: sstable_inv_def overlapping_inv_def partitioned_inv_def all_segments_def)
  then have "sstable_get lc key fs' = (Ok (sstable_contents lc fs' key), fs')"
    using nf' by (rule sstable_get_contents)
  moreover have "sstable_get lc key fs = (Ok (sstable_contents lc fs key), fs)"
    by (intro sstable_get_contents sst_inv_sstable [OF inv] nf)
  moreover have "sstable_contents lc fs' key = sstable_contents lc fs key"
    using same [OF nf'] by (simp add: sstable_contents_def)
  ultimately show ?thesis using e(1-3) by auto
qed

end
