(* ===== verification/Sst_Compact.thy ===== *)
theory Sst_Compact
  imports Compaction
begin

text \<open>
  What the merge machinery does when it has one input: the read buffer delivers the whole run
  of a segment, the segment writer writes a segment of the same run, and a compaction of a
  single flushed segment moves it up a level without changing what is read.  With two
  buffers whose ranges do not meet, the merge emits the lower one.
\<close>

section \<open>Index and image sizes\<close>

lemma index_bytes_le:
  assumes "points_ok es ps"
  shows "sum_list (map (\<lambda>i. str_len (se_key (es ! i)) + 16) ps) \<le> length (data_block es)"
proof -
  let ?f = "\<lambda>i. str_len (se_key (es ! i)) + 16" and ?g = "\<lambda>e. 4 + sst_len e"
  have d: "distinct ps" using assms by (simp add: points_ok_def strict_sorted_iff)
  have "sum_list (map ?f ps) = sum ?f (set ps)" using d by (rule sum_list_distinct_conv_sum_set)
  also have "\<dots> \<le> sum (\<lambda>i. ?g (es ! i)) (set ps)"
    by (rule sum_mono) (simp add: sst_len_def split: option.split)
  also have "\<dots> \<le> sum (\<lambda>i. ?g (es ! i)) {0..<length es}"
    by (rule sum_mono2) (use assms in \<open>auto simp: points_ok_def\<close>)
  also have "\<dots> = sum_list (map ?g es)" by (simp add: sum_list_sum_nth)
  also have "\<dots> = length (data_block es)"
    by (simp add: data_block_def length_concat comp_def length_sst_frame)
  finally show ?thesis .
qed

lemma length_index_points:
  "length (index_to_bytes (index_of (index_points es ps))) = sum_list (map (\<lambda>i. str_len (se_key (es ! i)) + 16) ps)"
  by (simp add: index_to_bytes_def index_points_def length_concat comp_def index_entry_to_bytes_def
      str_len_def add.commute add.left_commute)

lemma index_len_le:
  assumes "points_ok es ps"
  shows "idx_len (index_of (index_points es ps)) \<le> length (data_block es)"
proof -
  have "idx_len (index_of (index_points es ps)) = sum_list (map (\<lambda>i. str_len (se_key (es ! i)) + 12) ps)"
    by (simp add: index_of_def index_points_def comp_def)
  also have "\<dots> \<le> sum_list (map (\<lambda>i. str_len (se_key (es ! i)) + 16) ps)"
    by (rule sum_list_mono) simp
  finally show ?thesis using index_bytes_le [OF assms] by simp
qed

lemma length_segment_image:
  assumes "points_ok es ps"
  shows "length (segment_image es ps) \<le> 2 * length (data_block es) + 12"
  using index_bytes_le [OF assms] by (simp add: segment_image_def length_index_points)

lemma data_block_take_le: "length (data_block (take i es)) \<le> length (data_block es)"
  by (metis append_take_drop_id data_block_append length_append le_add1)

section \<open>The read buffer\<close>

lemma read_most_loop_full:
  assumes "fs_faults fs = []" "fs_content fs p = Some c" "off + n \<le> length c"
  shows "read_most_loop p n (replicate n 0) off 0 fs = (Ok (take n (drop off c), n), fs)"
proof (cases "n = 0")
  case True
  then show ?thesis by (subst read_most_loop.simps) simp
next
  case False
  have len: "length (take n (drop off c)) = n" using assms(3) by simp
  then have "take n (drop off c) \<noteq> []" using False by auto
  then show ?thesis
    using False len assms(3)
    by (subst read_most_loop.simps, subst read_most_loop.simps)
      (simp add: fs_read_at_no_faults [OF assms(1,2)] Let_def)
qed

lemma read_at_most_rest:
  assumes seg: "segment_of seg es ps" and fs: "fs_faults fs = []"
    "fs_content fs (sg_path seg) = Some (data_block es @ rest)" "rest \<noteq> []"
    and i: "i \<le> length es" and max: "length (data_block (drop i es)) < max_bytes"
  shows "read_at_most seg (entry_offset es i) max_bytes fs = (Ok (drop i es), fs)"
proof -
  let ?d = "data_block (drop i es)"
  obtain b bs where rest: "rest = b # bs" using fs(3) by (cases rest) auto
  have ok: "entries_ok es" and e: "sg_data_block_end seg = length (data_block es)"
    using seg by (simp_all add: segment_of_def)
  have split: "data_block es = data_block (take i es) @ ?d"
    by (metis append_take_drop_id data_block_append)
  have off: "entry_offset es i = length (data_block (take i es))" by (simp add: entry_offset_def)
  have n: "min (Suc (length ?d)) max_bytes = Suc (length ?d)" using max by simp
  have "read_most_loop (sg_path seg) (Suc (length ?d)) (replicate (Suc (length ?d)) 0) (entry_offset es i) 0 fs =
      (Ok (take (Suc (length ?d)) (drop (entry_offset es i) (data_block es @ rest)), Suc (length ?d)), fs)"
    by (rule read_most_loop_full [OF fs(1,2)]) (simp add: split off rest)
  moreover have "take (Suc (length ?d)) (drop (entry_offset es i) (data_block es @ rest)) = ?d @ [b]"
    by (simp add: split off rest)
  moreover have "deque_from_bytes (?d @ [b]) = (Ok (drop i es) :: (io_error, sst_entry list) res)"
    unfolding data_block_def
    by (rule deque_from_bytes_frames) (use ok in \<open>auto simp: entries_ok_def dest!: in_set_dropD\<close>)
  ultimately show ?thesis
    by (simp add: read_at_most_def sub_chk_def e split off n Let_def)
qed

lemma push_entries_eq:
  "push_entries es rb = rb\<lparr>rb_size := rb_size rb + length (data_block es),
     rb_curr_offset := rb_curr_offset rb + length (data_block es), rb_buf := rb_buf rb @ es\<rparr>"
  by (induction es rb rule: push_entries.induct)
    (simp_all add: data_block_def length_sst_frame add.assoc add.commute)

lemma read_buf_fill_rest:
  assumes "segment_of (rb_segment rb) es ps" "fs_faults fs = []"
    "fs_content fs (sg_path (rb_segment rb)) = Some (data_block es @ rest)" "rest \<noteq> []"
    "i \<le> length es" "length (data_block es) < rb_max_size rb"
    "rb_buf rb = []" "rb_size rb = 0" "rb_curr_offset rb = entry_offset es i"
  shows "read_buf_fill rb fs = (Ok (rb\<lparr>rb_size := length (data_block (drop i es)),
    rb_curr_offset := length (data_block es), rb_buf := drop i es\<rparr>), fs)"
proof -
  have "length (data_block es) = entry_offset es i + length (data_block (drop i es))"
    unfolding entry_offset_def by (metis append_take_drop_id data_block_append length_append)
  then show ?thesis
    using assms read_at_most_rest [OF assms(1-5), of "rb_max_size rb"]
    by (simp add: read_buf_fill_def sub_chk_def push_entries_eq)
qed

lemma drain_while_prefix:
  assumes "rb_buf rb = xs @ ys" "\<forall>e \<in> set xs. P e" "ys = [] \<or> \<not> P (hd ys)"
    and "length (data_block xs) \<le> rb_size rb"
  shows "drain_while P rb acc = Ok (acc @ xs, rb\<lparr>rb_size := rb_size rb - length (data_block xs), rb_buf := ys\<rparr>)"
  using assms
proof (induction xs arbitrary: rb acc)
  case Nil
  then show ?case by (subst drain_while.simps) (cases ys, auto)
next
  case (Cons x xs)
  have len: "length (data_block (x # xs)) = sst_len x + 4 + length (data_block xs)"
    by (simp add: data_block_def length_sst_frame)
  let ?rb = "rb\<lparr>rb_size := rb_size rb - (sst_len x + 4), rb_buf := xs @ ys\<rparr>"
  have "read_buf_pop_front rb = (Ok (Some x, ?rb) :: (io_error, _) res)"
    using Cons.prems(1,4) len by (simp add: read_buf_pop_front_def sub_chk_def)
  then have "drain_while P rb acc = drain_while P ?rb (acc @ [x])"
    using Cons.prems(1,2) by (subst drain_while.simps) simp
  also have "\<dots> = Ok ((acc @ [x]) @ xs, ?rb\<lparr>rb_size := rb_size ?rb - length (data_block xs), rb_buf := ys\<rparr>)"
    by (rule Cons.IH) (use Cons.prems len in auto)
  finally show ?case using len by simp
qed

text \<open>A buffer whose size field covers its entries.\<close>

definition buf_ok :: "segment_read_buf \<Rightarrow> bool" where
  "buf_ok rb \<longleftrightarrow> length (data_block (rb_buf rb)) \<le> rb_size rb"

lemma merge_sort_single:
  "buf_ok rb \<Longrightarrow> merge_sort order [rb] =
    Some (Ok (rb_buf rb, [rb\<lparr>rb_size := rb_size rb - length (data_block (rb_buf rb)), rb_buf := []\<rparr>]))"
  using drain_while_prefix [of rb "rb_buf rb" "[]" "\<lambda>_. True" "[]"]
  by (simp add: merge_sort_def buf_ok_def)


section \<open>The segment writer\<close>

text \<open>A writer that has been handed the entries \<open>es\<close> and has indexed those at \<open>ps\<close>.\<close>

definition writer_at :: "segment_writer \<Rightarrow> sst_entry list \<Rightarrow> nat list \<Rightarrow> bool" where
  "writer_at w es ps \<longleftrightarrow> points_ok es ps \<and> sw_pending w = data_block es \<and>
     sw_curr_size w = length (data_block es) \<and> sw_index w = index_of (index_points es ps) \<and>
     0 < sw_sparsity w \<and> sw_entries_written w = length es \<and> \<not> sw_finished w"

lemma write_entry_at:
  assumes "writer_at w es ps"
  shows "\<exists>w' ps'. write_entry e w = Ok w' \<and> writer_at w' (es @ [e]) ps' \<and> sw_path w' = sw_path w \<and>
    sw_target_size w' = sw_target_size w"
proof -
  have p: "points_ok es ps" using assms by (simp add: writer_at_def)
  have db: "data_block (es @ [e]) = data_block es @ le_bytes 4 (length (sst_to_bytes e)) @ sst_to_bytes e"
    by (simp add: data_block_single)
  define ps' where "ps' = (if (length es + 1) mod sw_sparsity w = 0 then ps @ [length es] else ps)"
  have ps': "points_ok (es @ [e]) ps'"
    "index_of (index_points (es @ [e]) ps') =
      (if (length es + 1) mod sw_sparsity w = 0
       then add_index (se_key e) (length (data_block es)) (index_of (index_points es ps))
       else index_of (index_points es ps))"
    using points_ok_add [OF p, of e] index_points_add [OF p, of e] points_ok_extend [OF p, of "[e]"]
      index_points_snoc [OF p, of "[e]"]
    by (simp_all add: ps'_def)
  define w' where "w' = w\<lparr>sw_pending := data_block (es @ [e]), sw_entries_written := length es + 1,
    sw_index := index_of (index_points (es @ [e]) ps'), sw_curr_size := length (data_block (es @ [e]))\<rparr>"
  have "write_entry e w = Ok w'"
    using assms unfolding w'_def ps'(2) db
    by (simp add: write_entry_def writer_at_def assert_that_def Let_def)
  moreover have "writer_at w' (es @ [e]) ps'"
    using assms ps'(1) by (simp add: writer_at_def w'_def)
  ultimately show ?thesis by (auto simp: w'_def)
qed

lemma reached_target_size_at:
  assumes "writer_at w es ps" "2 * length (data_block es) + 12 < sw_target_size w"
  shows "\<not> reached_target_size w"
  using assms index_len_le [of es ps] by (simp add: reached_target_size_def writer_at_def SEGMENT_FOOTER_LEN_def)

lemma write_entries_at:
  assumes "writer_at w es0 ps" "2 * length (data_block (es0 @ es)) + 12 < sw_target_size w"
  shows "\<exists>w' ps'. write_entries dir l sparsity es (w, n, segs) fs = (Ok (w', n, segs), fs) \<and>
    writer_at w' (es0 @ es) ps' \<and> sw_path w' = sw_path w"
  using assms
proof (induction es arbitrary: es0 w ps)
  case (Cons e es)
  have "\<not> reached_target_size w"
    by (rule reached_target_size_at [OF Cons.prems(1)]) (use Cons.prems(2) in simp)
  moreover obtain w1 ps1 where w1: "write_entry e w = (Ok w1 :: (io_error, segment_writer) res)"
    "writer_at w1 (es0 @ [e]) ps1" "sw_path w1 = sw_path w" "sw_target_size w1 = sw_target_size w"
    using write_entry_at [OF Cons.prems(1)] by (metis (full_types))
  moreover obtain w' ps' where "write_entries dir l sparsity es (w1, n, segs) fs = (Ok (w', n, segs), fs)"
    "writer_at w' ((es0 @ [e]) @ es) ps'" "sw_path w' = sw_path w1"
    using Cons.IH [OF w1(2)] Cons.prems(2) w1(4) by auto
  ultimately show ?case by auto
qed auto

lemma create_new_segment_at:
  assumes "fs_faults fs = []" "dir \<in> set (fs_dirs fs)" "fs_content fs (sst_path dir l n) = None"
    and "l < 16 ^ 8" "n < 16 ^ 8" "0 < sparsity"
  shows "\<exists>w. create_new_segment dir l n sparsity fs = (Ok w, fs_store (sst_path dir l n) [] fs) \<and>
    writer_at w [] [] \<and> sw_path w = sst_path dir l n \<and> sw_target_size w = SEGMENT_SIZE"
  using assms
  by (simp add: create_new_segment_def sst_filename_eq fs_open_write_def Let_def sst_path_def writer_at_def
      points_ok_def index_points_def index_of_Nil)

lemma write_index_and_footer_at:
  assumes "writer_at w es ps" "fs_faults fs = []" "butlast (sw_path w) \<in> set (fs_dirs fs)"
    and "fs_content fs (sw_path w) = Some []"
  shows "write_index_and_footer w fs =
    (Ok (w\<lparr>sw_pending := [], sw_finished := True\<rparr>), fs_store (sw_path w) (segment_image es ps) fs)"
  using assms
  by (simp add: write_index_and_footer_def writer_at_def assert_that_def Let_def fs_write_front_def
      segment_image_def)

section \<open>Merging one segment\<close>

text \<open>The merge of one segment that no segment of the level overlaps writes a copy of its run.\<close>

lemma merge_and_write_single:
  assumes seg: "segment_of seg es ps" "es \<noteq> []" and fs: "fs_faults fs = []"
    "fs_content fs (sg_path seg) = Some (data_block es @ rest)" "rest \<noteq> []"
    and dir: "butlast (sg_path seg) = dir" "dir \<in> set (fs_dirs fs)"
    and n: "n = highest_number (pl_segments level) 0 + 1" "n < 16 ^ 8" "l = pl_level_number level" "l < 16 ^ 8"
    and new: "fs_content fs (sst_path dir l n) = None" and sp: "0 < pl_sparsity level"
    and size: "length (data_block es) < 2 ^ 23"
  shows "\<exists>new ps'. merge_and_write order level [seg] fs =
      Some (Ok [new], fs_store (sst_path dir l n) (segment_image es ps') (fs_store (sst_path dir l n) [] fs)) \<and>
    segment_of new es ps' \<and> sg_path new = sst_path dir l n \<and> sg_number new = n \<and> sg_level_number new = l \<and>
    sg_first_key new = se_key (hd es) \<and> sg_last_key new = se_key (last es) \<and>
    sg_size new = length (segment_image es ps')"
proof -
  let ?p = "sst_path dir l n" and ?max = "MERGE_BUF_MAX_TOTAL_SIZE + 1"
  let ?fs1 = "fs_store ?p [] fs"
  obtain w where w: "create_new_segment dir l n (pl_sparsity level) fs = (Ok w, ?fs1)"
    "writer_at w [] []" "sw_path w = ?p" "sw_target_size w = SEGMENT_SIZE"
    using create_new_segment_at [OF fs(1) dir(2) new n(4,2) sp] by blast
  have neq: "sg_path seg \<noteq> ?p" using fs(2) new by auto
  have fs1: "fs_faults ?fs1 = []" "fs_content ?fs1 (sg_path seg) = Some (data_block es @ rest)"
    "fs_content ?fs1 ?p = Some []"
    using fs neq by simp_all
  have big: "length (data_block es) < ?max" "2 * length (data_block es) + 12 < SEGMENT_SIZE"
    using size by (simp_all add: MERGE_BUF_MAX_TOTAL_SIZE_def SEGMENT_SIZE_def)
  define rb0 where "rb0 = read_buf_new seg ?max"
  define rb1 where "rb1 = rb0\<lparr>rb_size := length (data_block es), rb_curr_offset := length (data_block es), rb_buf := es\<rparr>"
  define rb2 where "rb2 = rb1\<lparr>rb_size := 0, rb_buf := []\<rparr>"
  have fill1: "read_buf_fill rb0 ?fs1 = (Ok rb1, ?fs1)"
    using read_buf_fill_rest [of rb0 es ps ?fs1 rest 0] seg(1) fs1 fs(3) big(1)
    by (simp add: rb0_def rb1_def read_buf_new_def)
  have ms: "merge_sort order [rb1] = Some (Ok (es, [rb2]))"
    using merge_sort_single [of rb1 order] by (simp add: buf_ok_def rb1_def rb2_def)
  have fill2: "read_buf_fill rb2 ?fs1 = (Ok rb2, ?fs1)"
    using read_buf_fill_rest [of rb2 es ps ?fs1 rest "length es"] seg(1) fs1 fs(3) big(1)
    by (simp add: rb0_def rb1_def rb2_def read_buf_new_def entry_offset_all)
  obtain w' ps' where w': "write_entries dir l (pl_sparsity level) es (w, Suc n, []) ?fs1 = (Ok (w', Suc n, []), ?fs1)"
    "writer_at w' es ps'" "sw_path w' = ?p"
    using write_entries_at [OF w(2), of es] big(2) w(3,4) by (metis append_Nil)
  let ?fs2 = "fs_store ?p (segment_image es ps') ?fs1"
  have empty: "merge_loop order dir l (pl_sparsity level) [] st gs = Some (Ok st, gs)" for st gs
    by (subst merge_loop.simps) simp
  have done_buf: "rb_buf rb2 = []" by (simp add: rb2_def)
  have loop: "merge_loop order dir l (pl_sparsity level) [rb1] (w, Suc n, []) ?fs1 = Some (Ok (w', Suc n, []), ?fs1)"
    by (subst merge_loop.simps) (simp add: ms w'(1) fill2 not_empty_def rb2_def [symmetric] empty done_buf)
  have pd: "butlast (sw_path w') \<in> set (fs_dirs ?fs1)" using dir by (simp add: w'(3) sst_path_def)
  have fin: "write_index_and_footer w' ?fs1 = (Ok (w'\<lparr>sw_pending := [], sw_finished := True\<rparr>), ?fs2)"
    using write_index_and_footer_at [OF w'(2) fs1(1) pd] fs1(3) w'(3) by simp
  have run: "run_ok es ps'"
    using seg w'(2) size by (simp add: run_ok_def segment_of_def writer_at_def)
  have name: "?p \<noteq> []" "level_and_segment_number (last ?p) = (Ok (l, n) :: (segment_open_error, nat \<times> nat) res)"
    using sst_filename_parses [OF n(4,2)] by (simp_all add: sst_path_def)
  obtain new where new: "segment_from_file ?p ?fs2 = (Ok new, ?fs2)" "segment_of new es ps'" "sg_path new = ?p"
    "sg_level_number new = l" "sg_number new = n" "sg_size new = length (segment_image es ps')"
    "sg_first_key new = se_key (hd es)" "sg_last_key new = se_key (last es)"
    using segment_from_file_image [OF run _ _ name, of ?fs2] fs1(1) by auto
  have eqs: "Suc (highest_number (pl_segments level) 0) = n" "pl_level_number level = l"
    "read_buf_new seg (Suc MERGE_BUF_MAX_TOTAL_SIZE) = rb0" "rb_buf rb1 = es" "\<not> sw_finished w'"
    using n w'(2) by (simp_all add: rb0_def rb1_def writer_at_def)
  have "merge_and_write order level [seg] fs = Some (Ok [new], ?fs2)"
    using seg(2)
    by (simp add: merge_and_write_def Let_def dir(1) eqs w(1) fill1 not_empty_def loop fin
        unwrap_open_def new(1) w'(3))
  then show ?thesis using new by blast
qed


section \<open>Compacting one flushed segment\<close>

lemma select_single:
  assumes "target < sg_size seg" "0 < sg_number seg"
  shows "select_loop target [seg] [] (total_size [seg]) (highest_number [seg] 0) = Ok [seg]"
proof -
  have one: "select_pass [seg] [] (sg_size seg) (sg_number seg) =
      (Ok ([seg], 0, sg_number seg - 1) :: (io_error, sst_segment list \<times> nat \<times> nat) res)"
    using assms(2) by (simp add: sub_chk_def)
  have done_: "select_loop target [seg] [seg] 0 (sg_number seg - 1) = Ok [seg]"
    by (simp add: select_loop.simps(2))
  have "select_loop target [seg] [] (sg_size seg) (sg_number seg) = Ok [seg]"
    unfolding select_loop.simps(2) [of target seg "[]" "[]"] one using assms(1) done_ by simp
  then show ?thesis using assms(2) by (simp add: total_size_def)
qed

lemma lookup_outside:
  assumes "entries_ok es" "es \<noteq> []" "\<not> (se_key (hd es) \<le> key \<and> key \<le> se_key (last es))"
  shows "lookup_entry es key = None"
  unfolding lookup_entry_def
proof (rule find_none, rule ballI, rule notI)
  fix e assume "e \<in> set es" "se_key e = key"
  then obtain i where i: "i < length es" "se_key (es ! i) = key" by (auto simp: in_set_conv_nth)
  have "se_key (es ! 0) \<le> key"
    using entries_ok_less [OF assms(1), of 0 i] i by (cases i) auto
  moreover have "key \<le> se_key (es ! (length es - 1))"
  proof (cases "i = length es - 1")
    case False
    then have "se_key (es ! i) < se_key (es ! (length es - 1))"
      by (intro entries_ok_less [OF assms(1)]) (use i in auto)
    then show ?thesis using i by simp
  qed (use i in simp)
  ultimately show False using assms(2,3) by (simp add: hd_conv_nth last_conv_nth)
qed

lemma select_first:
  assumes "target < sg_size seg" "0 < sg_number seg"
  shows "overlapping_segments_to_merge \<lparr>ol_segments = [seg], ol_target_size = target\<rparr> = Ok [seg]"
  using select_single [OF assms] by (simp add: overlapping_segments_to_merge_def)

lemma compact_selected:
  assumes seg: "segment_of seg es ps" "es \<noteq> []" and fs: "fs_faults fs = []"
    "fs_content fs (sg_path seg) = Some (data_block es @ rest)" "rest \<noteq> []"
    and dir: "butlast (sg_path seg) = dir" "dir \<in> set (fs_dirs fs)"
    and new: "fs_content fs (sst_path dir 1 1) = None" and size: "length (data_block es) < 2 ^ 23"
    and lc: "ol_target_size (lc_level_zero lc) = target" "lc_partitioned_levels lc = []"
    and sel: "overlapping_segments_to_merge (lc_level_zero lc) = Ok [seg]"
    and next_size: "2 * length (data_block es) + 12 \<le> target * factor" "target * factor < 2 ^ 64"
  shows "\<exists>new ps'. compact_from_level_zero order factor lc (pending, fs) =
      Some (Ok [\<lparr>pl_segments = [new], pl_target_size = target * factor, pl_sparsity = 1, pl_level_number = 1\<rparr>],
        pending @ [seg], fs_store (sst_path dir 1 1) (segment_image es ps') (fs_store (sst_path dir 1 1) [] fs)) \<and>
    segment_of new es ps' \<and> sg_path new = sst_path dir 1 1 \<and>
    sg_first_key new = se_key (hd es) \<and> sg_last_key new = se_key (last es) \<and> sg_size new \<le> target * factor"
proof -
  let ?level = "partitioned_new (target * factor) 1"
  obtain new ps' where m: "merge_and_write order ?level [seg] fs =
      Some (Ok [new], fs_store (sst_path dir 1 1) (segment_image es ps') (fs_store (sst_path dir 1 1) [] fs))"
    "segment_of new es ps'" "sg_path new = sst_path dir 1 1"
    "sg_first_key new = se_key (hd es)" "sg_last_key new = se_key (last es)"
    "sg_size new = length (segment_image es ps')"
    using merge_and_write_single [OF seg fs dir, of 1 ?level 1 order] new size
    by (auto simp: partitioned_new_def)
  have small: "sg_size new \<le> target * factor"
    using length_segment_image [of es ps'] m(2,6) next_size(1) by (simp add: segment_of_def)
  have lm: "level_merge order ?level [seg] fs = Some (Ok (?level\<lparr>pl_segments := [new]\<rparr>, [seg]),
      fs_store (sst_path dir 1 1) (segment_image es ps') (fs_store (sst_path dir 1 1) [] fs))"
    using m(1) by (simp add: level_merge_def partitioned_new_def)
  have fits: "\<not> partitioned_exceeds (?level\<lparr>pl_segments := [new]\<rparr>)"
    using small by (simp add: partitioned_exceeds_def partitioned_new_def total_size_def)
  have "compact_loop order factor 1 target [seg] [] [] (pending, fs) =
      Some (Ok [?level\<lparr>pl_segments := [new]\<rparr>], pending @ [seg],
        fs_store (sst_path dir 1 1) (segment_image es ps') (fs_store (sst_path dir 1 1) [] fs))"
    using small next_size(2)
    by (subst compact_loop.simps) (simp add: round_level_def mul_chk_def lm fits del: One_nat_def)
  then show ?thesis
    using m small by (intro exI [of _ new] exI [of _ ps']) (simp add: compact_from_level_zero_def lc sel partitioned_new_def)
qed

lemma compact_single:
  assumes seg: "segment_of seg es ps" "es \<noteq> []" and fs: "fs_faults fs = []"
    "fs_content fs (sg_path seg) = Some (data_block es @ rest)" "rest \<noteq> []"
    and dir: "butlast (sg_path seg) = dir" "dir \<in> set (fs_dirs fs)"
    and new: "fs_content fs (sst_path dir 1 1) = None" and size: "length (data_block es) < 2 ^ 23"
    and lc: "lc = \<lparr>lc_level_zero = \<lparr>ol_segments = [seg], ol_target_size = target\<rparr>, lc_partitioned_levels = []\<rparr>"
    and over: "target < sg_size seg" "0 < sg_number seg"
    and next_size: "2 * length (data_block es) + 12 \<le> target * factor" "target * factor < 2 ^ 64"
  shows "\<exists>new ps'. compact_from_level_zero order factor lc (pending, fs) =
      Some (Ok [\<lparr>pl_segments = [new], pl_target_size = target * factor, pl_sparsity = 1, pl_level_number = 1\<rparr>],
        pending @ [seg], fs_store (sst_path dir 1 1) (segment_image es ps') (fs_store (sst_path dir 1 1) [] fs)) \<and>
    segment_of new es ps' \<and> sg_path new = sst_path dir 1 1 \<and>
    sg_first_key new = se_key (hd es) \<and> sg_last_key new = se_key (last es) \<and> sg_size new \<le> target * factor"
  by (rule compact_selected [OF seg fs dir new size _ _ _ next_size])
    (simp_all add: lc select_first [OF over])

lemma bt_turn_selected_first:
  assumes seg: "segment_of seg es ps" "es \<noteq> []" and fs: "fs_faults fs = []"
    "fs_content fs (sg_path seg) = Some (data_block es @ rest)" "rest \<noteq> []"
    and dir: "butlast (sg_path seg) = dir" "dir \<in> set (fs_dirs fs)"
    and new: "fs_content fs (sst_path dir 1 1) = None" and size: "length (data_block es) < 2 ^ 23"
    and lc: "ol_target_size (lc_level_zero lc) = target" "lc_partitioned_levels lc = []"
    and sel: "overlapping_segments_to_merge (lc_level_zero lc) = Ok [seg]"
    and next_size: "2 * length (data_block es) + 12 \<le> target * factor" "target * factor < 2 ^ 64"
  shows "\<exists>new ps' lc' fs'. bt_turn order factor in_use [] EvNotified (lc, [], fs) =
      Some (Ok True, lc', filter in_use [seg], fs') \<and>
    lc' = \<lparr>lc_level_zero = overlapping_new target, lc_partitioned_levels =
      [\<lparr>pl_segments = [new], pl_target_size = target * factor, pl_sparsity = 1, pl_level_number = 1\<rparr>]\<rparr> \<and>
    fs' = remove_unused (filter (\<lambda>s. \<not> in_use s) [seg])
      (fs_store (sst_path dir 1 1) (segment_image es ps') (fs_store (sst_path dir 1 1) [] fs)) \<and>
    segment_of new es ps' \<and> sg_path new = sst_path dir 1 1 \<and>
    sg_first_key new = se_key (hd es) \<and> sg_last_key new = se_key (last es) \<and> sg_size new \<le> target * factor"
proof -
  let ?p = "sst_path dir 1 1"
  obtain new ps' where c: "compact_from_level_zero order factor lc ([], fs) =
      Some (Ok [\<lparr>pl_segments = [new], pl_target_size = target * factor, pl_sparsity = 1, pl_level_number = 1\<rparr>],
        [seg], fs_store ?p (segment_image es ps') (fs_store ?p [] fs))"
    and n: "segment_of new es ps'" "sg_path new = ?p" "sg_first_key new = se_key (hd es)"
    "sg_last_key new = se_key (last es)" "sg_size new \<le> target * factor"
    using compact_selected [OF assms, of order "[]"] by auto
  show ?thesis
    by (rule exI [of _ new], rule exI [of _ ps'], rule exI, rule exI, intro conjI)
      (use c n in \<open>simp_all add: bt_turn_def swap_all_levels_def container_add_def lc remove_segment_files_def\<close>)
qed

lemma bt_turn_first:
  assumes seg: "segment_of seg es ps" "es \<noteq> []" and fs: "fs_faults fs = []"
    "fs_content fs (sg_path seg) = Some (data_block es @ rest)" "rest \<noteq> []"
    and dir: "butlast (sg_path seg) = dir" "dir \<in> set (fs_dirs fs)"
    and new: "fs_content fs (sst_path dir 1 1) = None" and size: "length (data_block es) < 2 ^ 23"
    and lc: "lc = \<lparr>lc_level_zero = \<lparr>ol_segments = [seg], ol_target_size = target\<rparr>, lc_partitioned_levels = []\<rparr>"
    and over: "target < sg_size seg" "0 < sg_number seg"
    and next_size: "2 * length (data_block es) + 12 \<le> target * factor" "target * factor < 2 ^ 64"
  shows "\<exists>new ps' lc' fs'. bt_turn order factor in_use [] EvNotified (lc, [], fs) =
      Some (Ok True, lc', filter in_use [seg], fs') \<and>
    lc' = \<lparr>lc_level_zero = overlapping_new target, lc_partitioned_levels =
      [\<lparr>pl_segments = [new], pl_target_size = target * factor, pl_sparsity = 1, pl_level_number = 1\<rparr>]\<rparr> \<and>
    fs' = remove_unused (filter (\<lambda>s. \<not> in_use s) [seg])
      (fs_store (sst_path dir 1 1) (segment_image es ps') (fs_store (sst_path dir 1 1) [] fs)) \<and>
    segment_of new es ps' \<and> sg_path new = sst_path dir 1 1 \<and>
    sg_first_key new = se_key (hd es) \<and> sg_last_key new = se_key (last es) \<and> sg_size new \<le> target * factor"
  by (rule bt_turn_selected_first [OF seg fs dir new size _ _ _ next_size])
    (simp_all add: lc select_first [OF over])

lemma bt_turn_selected:
  assumes seg: "segment_of seg es ps" "es \<noteq> []" and fs: "fs_faults fs = []"
    "fs_content fs (sg_path seg) = Some (data_block es @ rest)" "rest \<noteq> []"
    and dir: "butlast (sg_path seg) = dir" "dir \<in> set (fs_dirs fs)"
    and new: "fs_content fs (sst_path dir 1 1) = None" and size: "length (data_block es) < 2 ^ 23"
    and lc: "ol_target_size (lc_level_zero lc) = target" "lc_partitioned_levels lc = []"
    and sel: "overlapping_segments_to_merge (lc_level_zero lc) = Ok [seg]"
    and next_size: "2 * length (data_block es) + 12 \<le> target * factor" "target * factor < 2 ^ 64"
  shows "\<exists>lc' pending' fs'. bt_turn order factor in_use [] EvNotified (lc, [], fs) =
      Some (Ok True, lc', pending', fs') \<and> ol_segments (lc_level_zero lc') = [] \<and>
    (\<forall>key. sstable_get lc' key fs' = (Ok (lookup_entry es key), fs')) \<and>
    pending' = filter in_use [seg] \<and> (\<not> in_use seg \<longrightarrow> fs_content fs' (sg_path seg) = None)"
proof -
  let ?p = "sst_path dir 1 1"
  obtain new ps' lc' fs' where turn: "bt_turn order factor in_use [] EvNotified (lc, [], fs) =
      Some (Ok True, lc', filter in_use [seg], fs')"
    and lc': "lc' = \<lparr>lc_level_zero = overlapping_new target, lc_partitioned_levels =
      [\<lparr>pl_segments = [new], pl_target_size = target * factor, pl_sparsity = 1, pl_level_number = 1\<rparr>]\<rparr>"
    and fs': "fs' = remove_unused (filter (\<lambda>s. \<not> in_use s) [seg])
      (fs_store ?p (segment_image es ps') (fs_store ?p [] fs))"
    and n: "segment_of new es ps'" "sg_path new = ?p"
    "sg_first_key new = se_key (hd es)" "sg_last_key new = se_key (last es)"
    using bt_turn_selected_first [OF assms, of order in_use] by auto
  let ?fs1 = "fs_store ?p (segment_image es ps') (fs_store ?p [] fs)"
  have neq: "sg_path seg \<noteq> ?p" using fs(2) new by auto
  have nf: "fs_faults fs' = []" and cont: "fs_content fs' ?p = Some (segment_image es ps')"
    using remove_unused_frame [of ?fs1 "filter (\<lambda>s. \<not> in_use s) [seg]"] fs(1) neq by (auto simp: fs')
  have gone: "\<not> in_use seg \<longrightarrow> fs_content fs' (sg_path seg) = None"
    using fs(1,2) neq by (simp add: fs' fs_remove_def fs_content_def [of "_\<lparr>fs_files := _\<rparr>"] delete_conv')
  have after: "sstable_get lc' key fs' = (Ok (lookup_entry es key), fs')" for key
  proof -
    have "segment_get new key fs' = (Ok (lookup_entry es key), fs')"
      using segment_get_lookup [OF n(1) nf, of _ key] cont n(2) by (simp add: segment_image_def)
    moreover have "entries_ok es" using seg(1) by (simp add: segment_of_def)
    ultimately show ?thesis
      using lookup_outside [OF _ seg(2), of key] n(3,4)
      by (cases "se_key (hd es) \<le> key \<and> key \<le> se_key (last es)")
        (auto simp: sstable_get_def lc' overlapping_get_def overlapping_new_def partitioned_get_def
          find_containing_segment_def split: option.split)
  qed
  show ?thesis
    using turn gone after by (intro exI [of _ lc'] exI [of _ "filter in_use [seg]"] exI [of _ fs'])
      (simp add: lc' overlapping_new_def)
qed

lemma bt_turn_single:
  assumes seg: "segment_of seg es ps" "es \<noteq> []" and fs: "fs_faults fs = []"
    "fs_content fs (sg_path seg) = Some (data_block es @ rest)" "rest \<noteq> []"
    and dir: "butlast (sg_path seg) = dir" "dir \<in> set (fs_dirs fs)"
    and new: "fs_content fs (sst_path dir 1 1) = None" and size: "length (data_block es) < 2 ^ 23"
    and lc: "lc = \<lparr>lc_level_zero = \<lparr>ol_segments = [seg], ol_target_size = target\<rparr>, lc_partitioned_levels = []\<rparr>"
    and over: "target < sg_size seg" "0 < sg_number seg"
    and next_size: "2 * length (data_block es) + 12 \<le> target * factor" "target * factor < 2 ^ 64"
  shows "\<exists>lc' pending' fs'. bt_turn order factor in_use [] EvNotified (lc, [], fs) =
      Some (Ok True, lc', pending', fs') \<and> ol_segments (lc_level_zero lc') = [] \<and>
    (\<forall>key. sstable_get lc key fs = (Ok (lookup_entry es key), fs) \<and>
      sstable_get lc' key fs' = (Ok (lookup_entry es key), fs')) \<and>
    pending' = filter in_use [seg] \<and> (\<not> in_use seg \<longrightarrow> fs_content fs' (sg_path seg) = None)"
proof -
  have before: "sstable_get lc key fs = (Ok (lookup_entry es key), fs)" for key
    using segment_get_lookup [OF seg(1) fs(1,2), of key]
    by (simp add: sstable_get_def lc overlapping_get_def split: option.split)
  have "overlapping_segments_to_merge (lc_level_zero lc) = Ok [seg]"
    by (simp add: lc select_first [OF over])
  from bt_turn_selected [OF seg fs dir new size _ _ this next_size] before show ?thesis by (auto simp: lc)
qed

section \<open>Two buffers whose ranges do not meet\<close>

text \<open>The iteration order of a hash map lists its keys, each once.\<close>

definition order_ok :: "(nat list \<Rightarrow> nat list) \<Rightarrow> bool" where
  "order_ok order \<longleftrightarrow> (\<forall>xs. distinct xs \<longrightarrow> distinct (order xs) \<and> set (order xs) = set xs)"

lemma order_ok_two:
  assumes "order_ok order"
  shows "order [0, 1] = [0, 1] \<or> order [0, 1] = [1, 0]"
proof -
  have d: "distinct (order [0, 1])" and s: "set (order [0, 1]) = {0, 1}"
    using assms by (auto simp: order_ok_def dest: spec [of _ "[0, 1]"])
  then have "length (order [0, 1]) = 2" using distinct_card [OF d] by simp
  then obtain a b where "order [0, 1] = [a, b]"
    by (metis One_nat_def Suc_1 length_0_conv length_Suc_conv)
  then show ?thesis using d s by (auto simp: doubleton_eq_iff)
qed

lemma order_ok_one:
  assumes "order_ok order"
  shows "order [i] = [i]"
proof -
  have d: "distinct (order [i])" and s: "set (order [i]) = {i}"
    using assms by (auto simp: order_ok_def dest: spec [of _ "[i]"])
  then have "length (order [i]) = 1" using distinct_card [OF d] by simp
  then show ?thesis using s by (auto simp: length_Suc_conv)
qed

lemma merge_sort_disjoint:
  assumes order: "order_ok order"
    and ok: "buf_ok lo" "rb_buf lo \<noteq> []" "rb_buf hi \<noteq> []"
    and sorted: "\<forall>e \<in> set (rb_buf lo). se_key e \<le> se_key (last (rb_buf lo))" "se_key (last (rb_buf lo)) < se_key (hd (rb_buf hi))"
      "se_key (hd (rb_buf hi)) \<le> se_key (last (rb_buf hi))" "as_bytes (se_key (last (rb_buf lo))) \<noteq> []"
  shows "merge_sort order [lo, hi] = Some (Ok (rb_buf lo,
    [lo\<lparr>rb_size := rb_size lo - length (data_block (rb_buf lo)), rb_buf := []\<rparr>, hi]))"
proof -
  let ?L = "se_key (last (rb_buf lo))" and ?bufs = "[lo, hi]"
  let ?lo' = "lo\<lparr>rb_size := rb_size lo - length (data_block (rb_buf lo)), rb_buf := []\<rparr>"
  have k: "front_key ?bufs 0 = Ok (se_key (hd (rb_buf lo)))" "front_key ?bufs 1 = Ok (se_key (hd (rb_buf hi)))"
    "back_key ?bufs 0 = Ok ?L" "back_key ?bufs 1 = Ok (se_key (last (rb_buf hi)))"
    using ok by (auto simp: front_key_def front_entry_def back_key_def index_chk_def read_buf_front_def
        read_buf_back_def neq_Nil_conv)
  have lo: "se_key (hd (rb_buf lo)) \<le> ?L" using sorted(1) ok(2) by simp
  have c: "\<not> se_key (hd (rb_buf hi)) \<le> se_key (hd (rb_buf lo))" "\<not> se_key (hd (rb_buf hi)) \<le> ?L"
    "\<not> se_key (last (rb_buf hi)) < ?L" "?L < se_key (last (rb_buf hi))"
    "se_key (hd (rb_buf lo)) \<le> se_key (hd (rb_buf hi))" "se_key (hd (rb_buf hi)) \<noteq> se_key (hd (rb_buf lo))"
    using lo sorted(2,3) by auto
  have e: "as_bytes (rs []) = []" by simp
  obtain nxt where init: "ms_init ?bufs (order [0, 1]) (rs [], [], []) = Ok (?L, [0], nxt)" "nxt \<in> {[], [1]}"
    using order_ok_two [OF order] by (elim disjE) (simp_all add: k c e sorted(4) Let_def del: One_nat_def)
  have retain: "ms_retain ?bufs ?L [0, 1] = Ok [(0, 0)]" using k lo c(2) by (simp del: One_nat_def)
  have drain: "drain_while (ms_before ?L None) lo [] = Ok (rb_buf lo, ?lo')"
    using drain_while_prefix [of lo "rb_buf lo" "[]" "ms_before ?L None" "[]"] sorted(1) ok(1)
    by (simp add: ms_before_def buf_ok_def)
  have stop: "ms_loop order ?L [] [] bs [] out = Some (Ok (out, bs))" for bs out
    by (subst ms_loop.simps) simp
  have loop: "ms_loop order ?L [0] [] ?bufs [(0, 0)] [] = Some (Ok (rb_buf lo, [?lo', hi]))"
    by (subst ms_loop.simps)
      (simp add: ms_next_key_def ms_contribute_def index_chk_def drain ms_advance_def stop)
  have two: "[0..<length ?bufs] = [0, 1]" by (simp add: upt_rec)
  have "filter (\<lambda>i. i \<in> set (map fst [(0 :: nat, 0 :: nat)])) nxt = []" using init(2) by auto
  then show ?thesis
    unfolding merge_sort_def two using init(1) retain loop by (simp del: One_nat_def)
qed

text \<open>
  When the last key of the one is the first key of the other, the merge emits the entry of
  the second and leaves the one of the first in its buffer: the buffer was drained up to the
  next key and is not looked at again.
\<close>

lemma merge_sort_touching:
  assumes order: "order_ok order" and ok: "buf_ok lo" "buf_ok hi"
    and bufs: "rb_buf lo = xs @ [e]" "rb_buf hi = f # ys" "xs \<noteq> []" "ys \<noteq> []"
    and keys: "\<forall>x \<in> set xs. se_key x < se_key e" "se_key f = se_key e" "\<forall>y \<in> set ys. se_key e < se_key y"
      "as_bytes (se_key e) \<noteq> []"
  shows "merge_sort order [lo, hi] = Some (Ok (xs @ [f],
    [lo\<lparr>rb_size := rb_size lo - length (data_block xs), rb_buf := [e]\<rparr>,
     hi\<lparr>rb_size := rb_size hi - length (data_block [f]), rb_buf := ys\<rparr>]))"
proof -
  let ?L = "se_key e" and ?bufs = "[lo, hi]"
  let ?lo = "lo\<lparr>rb_size := rb_size lo - length (data_block xs), rb_buf := [e]\<rparr>"
    and ?hi = "hi\<lparr>rb_size := rb_size hi - length (data_block [f]), rb_buf := ys\<rparr>"
  have k: "front_key ?bufs 0 = Ok (se_key (hd xs))" "front_key ?bufs 1 = Ok ?L"
    "back_key ?bufs 0 = Ok ?L" "back_key ?bufs 1 = Ok (se_key (last ys))"
    using bufs keys(2) by (auto simp: front_key_def front_entry_def back_key_def index_chk_def read_buf_front_def
        read_buf_back_def neq_Nil_conv)
  have c: "se_key (hd xs) < ?L" "?L < se_key (last ys)" using bufs(3,4) keys(1,3) by auto
  then have c': "\<not> ?L \<le> se_key (hd xs)" "\<not> se_key (last ys) < ?L" "se_key (hd xs) \<le> ?L" "se_key (hd xs) \<noteq> ?L"
    "?L \<noteq> se_key (hd xs)" by auto
  have e: "as_bytes (rs []) = []" by simp
  have init: "ms_init ?bufs (order [0, 1]) (rs [], [], []) = Ok (?L, [0], [1])"
    using order_ok_two [OF order] by (elim disjE) (simp_all add: k c c' e keys(4) Let_def del: One_nat_def)
  have retain: "ms_retain ?bufs ?L [0, 1] = Ok [(0, 0), (1, 1)]" using k c' by (simp del: One_nat_def)
  have drain1: "drain_while (ms_before ?L (Some ?L)) lo [] = Ok (xs, ?lo)"
    using drain_while_prefix [of lo xs "[e]" "ms_before ?L (Some ?L)" "[]"] keys(1) ok(1) bufs(1)
    by (simp add: ms_before_def buf_ok_def)
  have drain2: "drain_while (ms_before ?L None) hi xs = Ok (xs @ [f], ?hi)"
    using drain_while_prefix [of hi "[f]" ys "ms_before ?L None" xs] keys bufs(2,4) ok(2)
    by (cases ys) (auto simp: ms_before_def buf_ok_def data_block_def)
  have stop: "ms_loop order ?L [] [] bs [] out = Some (Ok (out, bs))" for bs out
    by (subst ms_loop.simps) simp
  have loop2: "ms_loop order ?L [1] [] [?lo, hi] [(1, 1)] xs = Some (Ok (xs @ [f], [?lo, ?hi]))"
    by (subst ms_loop.simps)
      (simp add: ms_next_key_def ms_contribute_def index_chk_def drain2 ms_advance_def stop)
  have key1: "front_key [?lo, hi] 1 = Ok ?L"
    using bufs(2) keys(2) by (simp add: front_key_def front_entry_def index_chk_def read_buf_front_def)
  have adv: "ms_advance order ?L [0] [1] [?lo, hi] [(1, 1)] [] = Ok ([1], [], [(1, 1)])"
    by (simp add: ms_advance_def key1 order_ok_one [OF order] del: One_nat_def)
  have nk: "ms_next_key ?bufs [(1, 1)] [1] = Ok (Some ?L)"
    using bufs(2) keys(2) by (simp add: ms_next_key_def index_chk_def read_buf_front_def)
  have loop: "ms_loop order ?L [0] [1] ?bufs [(0, 0), (1, 1)] [] = Some (Ok (xs @ [f], [?lo, ?hi]))"
    by (subst ms_loop.simps)
      (simp add: nk ms_contribute_def index_chk_def drain1 adv loop2 del: One_nat_def)
  have two: "[0..<length ?bufs] = [0, 1]" by (simp add: upt_rec)
  show ?thesis
    unfolding merge_sort_def two using init retain loop by (simp del: One_nat_def)
qed

lemma merge_sort_stale:
  assumes order: "order_ok order" and ok: "buf_ok lo" "buf_ok hi"
    and bufs: "rb_buf lo = xs @ [e]" "rb_buf hi = f # ys" "xs \<noteq> []" "ys \<noteq> []"
    and keys: "\<forall>x \<in> set xs. se_key x < se_key e" "se_key f = se_key e" "\<forall>y \<in> set ys. se_key e < se_key y"
      "as_bytes (se_key e) \<noteq> []" "se_key (hd ys) \<le> se_key (last ys)"
  shows "\<exists>lo' hi' bufs'. merge_sort order [lo, hi] = Some (Ok (xs @ [f], [lo', hi'])) \<and>
    merge_sort order [lo', hi'] = Some (Ok ([e], bufs'))"
proof -
  let ?lo = "lo\<lparr>rb_size := rb_size lo - length (data_block xs), rb_buf := [e]\<rparr>"
    and ?hi = "hi\<lparr>rb_size := rb_size hi - length (data_block [f]), rb_buf := ys\<rparr>"
  have "buf_ok ?lo" using ok(1) bufs(1) by (simp add: buf_ok_def)
  then have "merge_sort order [?lo, ?hi] = Some (Ok (rb_buf ?lo,
      [?lo\<lparr>rb_size := rb_size ?lo - length (data_block (rb_buf ?lo)), rb_buf := []\<rparr>, ?hi]))"
    by (intro merge_sort_disjoint order) (use bufs keys in auto)
  then show ?thesis using merge_sort_touching [OF order ok bufs keys(1-4)] by auto
qed

section \<open>A merge that does not end\<close>

lemma merge_sort_several:
  assumes "2 \<le> length bufs"
  shows "merge_sort order bufs =
     (case bind_res (ms_init bufs (order [0..<length bufs]) (rs [], [], [])) (\<lambda>(sfk, cur, next).
          bind_res (ms_retain bufs sfk [0..<length bufs]) (\<lambda>m. Ok (sfk, cur, next, m))) of
        Ok (sfk, cur, next, m) \<Rightarrow>
          ms_loop order sfk cur (filter (\<lambda>i. i \<in> set (map fst m)) next) bufs m []
      | Err x \<Rightarrow> Some (Err x)
      | Panic \<Rightarrow> Some Panic)"
proof -
  obtain x y zs where "bufs = x # y # zs"
    using assms by (metis One_nat_def Suc_1 Suc_le_length_iff)
  then show ?thesis unfolding merge_sort_def by (simp only: list.case)
qed

text \<open>
  The inner loop repeats itself unchanged when the smallest front of the current buffers is
  not before the next key: nothing is popped and the loop is not left.
\<close>

lemma ms_inner_stuck:
  assumes "ms_pot_next bufs sfk cb None = Some entry" "\<not> ms_before sfk next_key entry"
  shows "ms_inner sfk next_key cb bufs out = None"
proof (rule ccontr)
  assume "ms_inner sfk next_key cb bufs out \<noteq> None"
  then obtain y where run: "ms_inner sfk next_key cb bufs out = Some y" by blast
  let ?P = "\<lambda>sfk next_key cb bufs (out :: sst_entry list) (y :: (io_error, sst_entry list \<times> read_bufs) res).
    \<forall>entry. ms_pot_next bufs sfk cb None = Some entry \<longrightarrow> ms_before sfk next_key entry"
  have "?P sfk next_key cb bufs out y"
  proof (rule ms_inner.raw_induct [where P = ?P, OF _ run])
    fix f sfk next_key cb bufs and out :: "sst_entry list" and y :: "(io_error, sst_entry list \<times> read_bufs) res"
    assume ih: "\<And>sfk next_key cb bufs out y. f sfk next_key cb bufs out = Some y \<Longrightarrow> ?P sfk next_key cb bufs out y"
      and body: "(case ms_pot_next bufs sfk cb None of
         None \<Rightarrow> Some (Ok (out, bufs))
       | Some entry \<Rightarrow>
           if ms_before sfk next_key entry then
             (case ms_pop_equal cb (se_key entry) bufs of
                Ok bufs' \<Rightarrow> f sfk next_key cb bufs' (out @ [entry])
              | Err x \<Rightarrow> Some (Err x)
              | Panic \<Rightarrow> Some Panic)
           else f sfk next_key cb bufs out) = Some y"
    show "?P sfk next_key cb bufs out y"
    proof (intro allI impI, rule ccontr)
      fix entry assume e: "ms_pot_next bufs sfk cb None = Some entry" "\<not> ms_before sfk next_key entry"
      then have "f sfk next_key cb bufs out = Some y" using body by simp
      from ih [OF this] e show False by blast
    qed
  qed
  with assms show False by blast
qed

end
