(* ===== verification/Engine_System.thy ===== *)
theory Engine_System
  imports Storage_Engine Sst_Compact
begin

text \<open>
  The engine with its compaction thread: commands of the engine threads and turns of the
  background thread (\<open>src/storage_engine/sstable/compaction.rs\<close>) interleave in any order.  The
  state is the engine, the segments that wait for deletion, and the files.  A run is \<open>calm\<close>
  when the thread wakes up by its timeout, or is notified for the first compaction while
  level zero is one segment that no reader holds; what other wake ups do is shown in
  \<open>Sst_Properties\<close>.
\<close>

section \<open>Runs\<close>

datatype system_event = SysCommand command "rstring option" | SysTurn bt_event

type_synonym system = "engine \<times> pending \<times> file_system"

text \<open>The first compaction: its input fits one segment and its output the next level.\<close>

definition first_compaction :: "engine_conf \<Rightarrow> level_container \<Rightarrow> (sst_segment \<Rightarrow> bool) \<Rightarrow> bool" where
  "first_compaction conf lc in_use =
    (let target = ol_target_size (lc_level_zero lc); next_target = target * cf_level_factor conf in
     case ol_segments (lc_level_zero lc) of
       [seg] \<Rightarrow> lc_partitioned_levels lc = [] \<and> do_compact lc \<and> \<not> in_use seg \<and>
         sg_data_block_end seg < 2 ^ 23 \<and> 2 * sg_data_block_end seg + 12 \<le> next_target \<and> next_target < 2 ^ 64
     | _ \<Rightarrow> False)"

definition calm_turn :: "engine_conf \<Rightarrow> level_container \<Rightarrow> (sst_segment \<Rightarrow> bool) \<Rightarrow> bt_event \<Rightarrow> bool" where
  "calm_turn conf lc in_use ev = (case ev of
     EvStop \<Rightarrow> False | EvTimedOut \<Rightarrow> True | EvNotified \<Rightarrow> first_compaction conf lc in_use)"

inductive calm_run ::
    "crc_fun \<Rightarrow> (nat list \<Rightarrow> nat list) \<Rightarrow> engine_conf \<Rightarrow> system \<Rightarrow> system_event list \<Rightarrow> system \<Rightarrow> bool"
  for crc order conf s0 where
  run_start: "calm_run crc order conf s0 [] s0"
| run_command: "calm_run crc order conf s0 evs (en, pending, fs) \<Longrightarrow> command_small cmd \<Longrightarrow>
    engine_exec crc (conf_flusher conf) cmd (en, fs) = (Ok r, en', fs') \<Longrightarrow>
    calm_run crc order conf s0 (evs @ [SysCommand cmd r]) (en', pending, fs')"
| run_turn: "calm_run crc order conf s0 evs (en, pending, fs) \<Longrightarrow> calm_turn conf (en_levels en) in_use ev \<Longrightarrow>
    bt_turn order (cf_level_factor conf) in_use [] ev (en_levels en, pending, fs) =
      Some (Ok True, lc', pending', fs') \<Longrightarrow>
    calm_run crc order conf s0 (evs @ [SysTurn ev]) (en\<lparr>en_levels := lc'\<rparr>, pending', fs')"

text \<open>What a run leaves and how it must have answered: turns of the thread do not count.\<close>

fun trace_step :: "system_event \<Rightarrow> kv \<Rightarrow> kv" where
  "trace_step (SysCommand cmd r) m = spec_command cmd m"
| "trace_step (SysTurn ev) m = m"

definition trace_final :: "system_event list \<Rightarrow> kv \<Rightarrow> kv" where
  "trace_final evs m = fold trace_step evs m"

fun trace_agrees :: "system_event list \<Rightarrow> kv \<Rightarrow> bool" where
  "trace_agrees [] m \<longleftrightarrow> True"
| "trace_agrees (SysCommand cmd r # evs) m \<longleftrightarrow>
    (case cmd of CmdGet key \<Rightarrow> r = m key | _ \<Rightarrow> True) \<and> trace_agrees evs (spec_command cmd m)"
| "trace_agrees (SysTurn ev # evs) m \<longleftrightarrow> trace_agrees evs m"

lemma trace_final_snoc [simp]: "trace_final (evs @ [ev]) m = trace_step ev (trace_final evs m)"
  by (simp add: trace_final_def)

lemma trace_agrees_append:
  "trace_agrees (evs @ evs') m \<longleftrightarrow> trace_agrees evs m \<and> trace_agrees evs' (trace_final evs m)"
  by (induction evs m rule: trace_agrees.induct) (auto simp: trace_final_def)

section \<open>The invariant of the files\<close>

text \<open>A segment of level zero that the flusher wrote.\<close>

definition flushed :: "path \<Rightarrow> file_system \<Rightarrow> sst_segment \<Rightarrow> bool" where
  "flushed dir fs seg \<longleftrightarrow> 0 < sg_number seg \<and> sg_path seg = sst_path dir 0 (sg_number seg) \<and>
     (\<exists>es ps. es \<noteq> [] \<and> segment_of seg es ps \<and> fs_content fs (sg_path seg) = Some (segment_image es ps))"

text \<open>Every file with a name of level zero belongs to a segment there, level one has no files
  before it exists, and no level is over its size.\<close>

definition files_inv :: "path \<Rightarrow> level_container \<Rightarrow> file_system \<Rightarrow> bool" where
  "files_inv dir lc fs \<longleftrightarrow>
     (\<forall>seg \<in> set (ol_segments (lc_level_zero lc)). flushed dir fs seg) \<and>
     (\<forall>n < 16 ^ 8. fs_content fs (sst_path dir 0 n) \<noteq> None \<longrightarrow>
       (\<exists>seg \<in> set (ol_segments (lc_level_zero lc)). sg_number seg = n)) \<and>
     (lc_partitioned_levels lc = [] \<longrightarrow> fs_content fs (sst_path dir 1 1) = None) \<and>
     (\<forall>level \<in> set (lc_partitioned_levels lc). \<not> partitioned_exceeds level)"

definition system_inv :: "crc_fun \<Rightarrow> engine_conf \<Rightarrow> system \<Rightarrow> bool" where
  "system_inv crc conf = (\<lambda>(en, pending, fs).
     engine_inv crc conf en fs \<and> pending = [] \<and> files_inv (cf_dir conf) (en_levels en) fs)"

lemma sst_path_levels:
  assumes "n < 16 ^ 8"
  shows "sst_path dir 1 1 \<noteq> sst_path dir 0 n"
proof -
  have "hexw 8 1 \<noteq> hexw 8 0" by (simp add: hexw_inject)
  then show ?thesis by (simp add: sst_path_def)
qed

lemma sst_path_in_dir [simp]: "in_dir dir (sst_path dir l n)"
  by (simp add: in_dir_def sst_path_def)

lemma flushed_frame:
  "flushed dir fs seg \<Longrightarrow> fs_content fs' (sg_path seg) = fs_content fs (sg_path seg) \<Longrightarrow> flushed dir fs' seg"
  unfolding flushed_def by metis

lemma flushed_in_dir: "flushed dir fs seg \<Longrightarrow> in_dir dir (sg_path seg)"
  by (simp add: flushed_def)

lemma files_inv_frame:
  assumes "files_inv dir lc fs" "\<forall>p. in_dir dir p \<longrightarrow> fs_content fs' p = fs_content fs p"
  shows "files_inv dir lc fs'"
  using assms flushed_frame [of dir fs _ fs'] flushed_in_dir [of dir fs] by (auto simp: files_inv_def)

lemma files_inv_flush:
  assumes fi: "files_inv dir lc fs" and inv: "sst_inv dir sparsity lc fs" and nf: "fs_faults fs = []"
    and tab: "table_ok table" "table \<noteq> []" "2 * table_bytes table < 2 ^ 64"
    and run: "flusher_flush dir sparsity table (lc, fs) = (Ok u, lc', fs')"
  shows "files_inv dir lc' fs'"
proof -
  obtain n ps seg where f: "n = highest_number (ol_segments (lc_level_zero lc)) 0 + 1" "n < 16 ^ 8"
    "lc' = lc\<lparr>lc_level_zero := (lc_level_zero lc)\<lparr>ol_segments := ol_segments (lc_level_zero lc) @ [seg]\<rparr>\<rparr>"
    "segment_of seg (sorted_entries table) ps" "sg_path seg = sst_path dir 0 n" "sg_number seg = n"
    "fs_content fs' = (fs_content fs)(sst_path dir 0 n \<mapsto> segment_image (sorted_entries table) ps)"
    using flusher_flush_Ok [OF inv nf tab run] by blast
  have "length (map se_key (sorted_entries table)) \<noteq> 0" unfolding sorted_entries_keys using tab(2) by simp
  then have "sorted_entries table \<noteq> []" by auto
  then have new: "flushed dir fs' seg" using f by (auto simp: flushed_def)
  have free: "fs_content fs (sst_path dir 0 n) = None" using inv f(1,2) by (simp add: sst_inv_def)
  have old: "flushed dir fs' s" if "flushed dir fs s" for s
  proof (rule flushed_frame [OF that])
    have "sg_path s \<noteq> sst_path dir 0 n" using that free by (auto simp: flushed_def)
    then show "fs_content fs' (sg_path s) = fs_content fs (sg_path s)" by (simp add: f(7))
  qed
  have files: "\<exists>s \<in> set (ol_segments (lc_level_zero lc')). sg_number s = m"
    if m: "m < 16 ^ 8" "fs_content fs' (sst_path dir 0 m) \<noteq> None" for m
  proof (cases "m = n")
    case False
    then have "sst_path dir 0 m \<noteq> sst_path dir 0 n" using sst_path_inject [OF m(1) f(2)] by blast
    then show ?thesis using m fi by (auto simp: files_inv_def f(3,7))
  qed (simp add: f(3,6))
  show ?thesis
    unfolding files_inv_def
    using fi old new files sst_path_levels [OF f(2), of dir]
    by (auto simp: files_inv_def f(3,7))
qed

section \<open>Commands\<close>

text \<open>A submitted job flushes or not; the rest of it does not touch the directory of the
  segments.\<close>

lemma memtable_submit_levels:
  assumes inv: "engine_inv crc conf en fs" and ns: "job \<noteq> JobShutdown"
    and run: "memtable_submit crc (conf_flusher conf) job (en, fs) = (Ok old, en', fs')"
    and fi: "files_inv (cf_dir conf) (en_levels en) fs"
  shows "files_inv (cf_dir conf) (en_levels en') fs'"
proof -
  let ?flush = "flusher_flush (cf_dir conf) (cf_sparsity conf)"
  have si: "sst_flush.store_inv (cf_dir conf) (cf_sparsity conf) crc (en_levels en) (en_worker en) fs"
    using inv by (simp add: engine_inv_def)
  obtain r1 lc ww fs1 where fl: "run_flush ?flush (en_levels en, en_worker en, fs) = (r1, lc, ww, fs1)"
    by (cases "run_flush ?flush (en_levels en, en_worker en, fs)") auto
  obtain r2 ww' fs2 where j: "run_job crc job (ww, fs1) = (r2, ww', fs2)"
    by (cases "run_job crc job (ww, fs1)") auto
  obtain go where s: "r1 = Ok ()" "r2 = Ok (Some (Ok old), go)" "fs' = fs2"
    "en' = en\<lparr>en_levels := lc, en_worker := ww', en_writer_alive := go\<rparr>"
    using run inv fl j
    by (auto simp: memtable_submit_def conf_flusher_def engine_inv_def split: res.splits option.splits)
  have si1: "sst_flush.store_inv (cf_dir conf) (cf_sparsity conf) crc lc ww fs1"
    using sst_flush.run_flush_view [OF si fl [unfolded s(1)]] by blast
  obtain e where e: "worker_log crc e (ww, fs1) = (Ok old, ww', fs')"
    using run_job_Ok [OF j [unfolded s(2)] ns] s(3) by force
  have "files_inv (cf_dir conf) lc fs1"
  proof (cases "ww_max_size (en_worker en) \<le> ww_current_size (en_worker en)")
    case True
    then obtain u where f: "?flush (ww_table (en_worker en)) (en_levels en, fs) = (Ok u, lc, fs1)"
      using fl s(1) by (auto simp: run_flush_def split: prod.splits res.splits)
    show ?thesis
      by (rule files_inv_flush [OF fi _ _ _ _ _ f]) (use si True in \<open>auto simp: sst_flush.store_inv_def\<close>)
  next
    case False
    then show ?thesis using fl s(1) fi by (simp add: run_flush_def)
  qed
  then show ?thesis
    using files_inv_frame [OF _ sst_flush.worker_log_owned [OF si1 e]] by (simp add: s(4))
qed

lemma command_keeps:
  assumes inv: "system_inv crc conf (en, pending, fs)" and small: "command_small cmd"
    and run: "engine_exec crc (conf_flusher conf) cmd (en, fs) = (Ok r, en', fs')"
  shows "system_inv crc conf (en', pending, fs') \<and>
    engine_view en' fs' = spec_command cmd (engine_view en fs) \<and>
    (case cmd of CmdGet key \<Rightarrow> r = engine_view en fs key | _ \<Rightarrow> True)"
proof -
  have ei: "engine_inv crc conf en fs" and fi: "files_inv (cf_dir conf) (en_levels en) fs" "pending = []"
    using inv by (simp_all add: system_inv_def)
  have "files_inv (cf_dir conf) (en_levels en') fs'"
  proof (cases cmd)
    case (CmdGet key)
    then have "en' = en" "fs' = fs"
      using run engine_get_view [OF ei, of key]
      by (auto simp: engine_exec_def split: prod.splits res.splits if_splits)
    then show ?thesis using fi by simp
  next
    case (CmdDelete key)
    then obtain old where "memtable_submit crc (conf_flusher conf) (JobDelete key) (en, fs) = (Ok old, en', fs')"
      using run by (auto simp: engine_exec_def engine_delete_def memtable_delete_def outcome
          split: prod.splits res.splits if_splits)
    from memtable_submit_levels [OF ei _ this fi(1)] show ?thesis by simp
  next
    case (CmdPut key v)
    then obtain old where "memtable_submit crc (conf_flusher conf) (JobPut key v) (en, fs) = (Ok old, en', fs')"
      using run by (auto simp: engine_exec_def engine_put_def memtable_put_def outcome
          split: prod.splits res.splits if_splits)
    from memtable_submit_levels [OF ei _ this fi(1)] show ?thesis by simp
  qed
  then show ?thesis
    using engine_exec_view [OF ei small run] fi(2) by (simp add: system_inv_def)
qed

section \<open>Turns of the compaction thread\<close>

lemma fs_wf_store: "fs_wf fs \<Longrightarrow> fs_wf (fs_store p bs fs)"
  by (simp add: fs_wf_def fs_store_def distinct_update_keys)

lemma fs_wf_remove: "fs_wf fs \<Longrightarrow> fs_wf (snd (fs_remove p fs))"
  by (auto simp: fs_remove_def fs_wf_def fs_tick_def distinct_delete split: list.split option.split)

lemma fs_wf_remove_unused: "fs_wf fs \<Longrightarrow> fs_wf (remove_unused segs fs)"
  by (induction segs fs rule: remove_unused.induct) (simp_all add: fs_wf_remove)

lemma timeout_keeps:
  assumes inv: "system_inv crc conf (en, pending, fs)"
  shows "bt_turn order factor in_use [] EvTimedOut (en_levels en, pending, fs) = Some (Ok True, en_levels en, pending, fs)"
  using inv bt_turn_idle [of "en_levels en" order factor in_use "[]" "[]" fs]
  by (simp add: system_inv_def files_inv_def container_add_def remove_segment_files_def)

text \<open>The contents of the table, before and after the first compaction.\<close>

lemma first_compaction_keeps:
  assumes inv: "sst_inv dir sparsity lc fs" "fs_faults fs = []" "fs_wf fs" and fi: "files_inv dir lc fs"
    and first: "first_compaction conf lc in_use"
  shows "\<exists>lc' fs'. bt_turn order (cf_level_factor conf) in_use [] EvNotified (lc, [], fs) =
      Some (Ok True, lc', [], fs') \<and> sst_inv dir sparsity lc' fs' \<and> sst_stored lc' fs' = sst_stored lc fs \<and>
    files_inv dir lc' fs' \<and> fs_faults fs' = [] \<and> fs_dirs fs' = fs_dirs fs \<and> fs_wf fs' \<and>
    (\<forall>p. \<not> in_dir dir p \<longrightarrow> fs_content fs' p = fs_content fs p)"
proof -
  let ?target = "ol_target_size (lc_level_zero lc)" and ?p = "sst_path dir 1 1"
  obtain seg where seg: "ol_segments (lc_level_zero lc) = [seg]" "lc_partitioned_levels lc = []" "do_compact lc"
    "\<not> in_use seg" "sg_data_block_end seg < 2 ^ 23" "2 * sg_data_block_end seg + 12 \<le> ?target * cf_level_factor conf"
    "?target * cf_level_factor conf < 2 ^ 64"
    using first by (auto simp: first_compaction_def Let_def split: list.splits)
  have fl: "flushed dir fs seg" and p1: "fs_content fs ?p = None" using fi seg(1,2) by (auto simp: files_inv_def)
  obtain es ps where es: "es \<noteq> []" "segment_of seg es ps" "fs_content fs (sg_path seg) = Some (segment_image es ps)"
    using fl by (auto simp: flushed_def)
  have d: "butlast (sg_path seg) = dir" "dir \<in> set (fs_dirs fs)" and pos: "0 < sg_number seg"
    using fl inv(1) by (auto simp: flushed_def sst_path_def sst_inv_def)
  have len: "length (data_block es) = sg_data_block_end seg" using es(2) by (simp add: segment_of_def)
  have c: "fs_content fs (sg_path seg) = Some (data_block es @ index_to_bytes (index_of (index_points es ps)) @
      footer_to_bytes (length (data_block es)))" using es(3) by (simp add: segment_image_def)
  have r: "index_to_bytes (index_of (index_points es ps)) @ footer_to_bytes (length (data_block es)) \<noteq> []"
    by (simp add: footer_to_bytes_def MAGIC_BYTES_def)
  have lc: "lc = \<lparr>lc_level_zero = \<lparr>ol_segments = [seg], ol_target_size = ?target\<rparr>, lc_partitioned_levels = []\<rparr>"
    using seg(1,2) by (metis level_container.surjective old.unit.exhaust overlapping_level.surjective)
  have over: "?target < sg_size seg" using seg(1,3) by (simp add: do_compact_def overlapping_exceeds_def total_size_def)
  note args = es(2,1) inv(2) c r d p1 _ lc over pos _ seg(7)
  have small: "length (data_block es) < 2 ^ 23" "2 * length (data_block es) + 12 \<le> ?target * cf_level_factor conf"
    using seg(5,6) by (simp_all add: len)
  obtain new ps' lc' fs' where turn: "bt_turn order (cf_level_factor conf) in_use [] EvNotified (lc, [], fs) =
      Some (Ok True, lc', filter in_use [seg], fs')"
    and lc': "lc' = \<lparr>lc_level_zero = overlapping_new ?target, lc_partitioned_levels =
      [\<lparr>pl_segments = [new], pl_target_size = ?target * cf_level_factor conf, pl_sparsity = 1, pl_level_number = 1\<rparr>]\<rparr>"
    and fs': "fs' = remove_unused (filter (\<lambda>s. \<not> in_use s) [seg]) (fs_store ?p (segment_image es ps') (fs_store ?p [] fs))"
    and n: "segment_of new es ps'" "sg_path new = ?p" "sg_size new \<le> ?target * cf_level_factor conf"
    using bt_turn_first [OF args, OF small, of order in_use] by blast
  obtain lc2 pend2 fs2 where same: "bt_turn order (cf_level_factor conf) in_use [] EvNotified (lc, [], fs) = Some (Ok True, lc2, pend2, fs2)"
    "\<forall>key. sstable_get lc key fs = (Ok (lookup_entry es key), fs) \<and> sstable_get lc2 key fs2 = (Ok (lookup_entry es key), fs2)"
    "\<not> in_use seg \<longrightarrow> fs_content fs2 (sg_path seg) = None"
    using bt_turn_single [OF args, OF small, of order in_use] by blast
  have eq: "lc2 = lc'" "fs2 = fs'" using same(1) turn by auto
  have gone: "fs_content fs' (sg_path seg) = None" using same(3) seg(4) eq by simp
  let ?fs1 = "fs_store ?p (segment_image es ps') (fs_store ?p [] fs)"
  have fr: "fs_faults fs' = []" "fs_dirs fs' = fs_dirs fs"
    "\<And>p. p \<noteq> sg_path seg \<Longrightarrow> p \<noteq> ?p \<Longrightarrow> fs_content fs' p = fs_content fs p"
    using remove_unused_frame [of ?fs1 "filter (\<lambda>s. \<not> in_use s) [seg]"] inv(2) seg(4) by (auto simp: fs')
  have neq: "sg_path seg \<noteq> ?p" using p1 es(3) by auto
  have newc: "fs_content fs' ?p = Some (segment_image es ps')"
    using remove_unused_frame [of ?fs1 "filter (\<lambda>s. \<not> in_use s) [seg]"] inv(2) neq by (auto simp: fs')
  have on: "segment_on fs' new" using n newc unfolding segment_on_def segment_image_def by auto
  have none: "fs_content fs' (sst_path dir 0 m) = None" if m: "m < 16 ^ 8" for m
  proof (cases "m = sg_number seg")
    case True
    then show ?thesis using gone fl by (simp add: flushed_def)
  next
    case False
    then have "fs_content fs (sst_path dir 0 m) = None" using fi m seg(1) by (auto simp: files_inv_def)
    moreover have "sst_path dir 0 m \<noteq> sg_path seg" using calculation es(3) by auto
    ultimately show ?thesis using fr(3) sst_path_levels [OF m, of dir] by metis
  qed
  have inv': "sst_inv dir sparsity lc' fs'"
    using inv(1) fr(2) on none n(2) by (auto simp: sst_inv_def lc' all_segments_def overlapping_new_def)
  have "sstable_contents lc' fs' key = sstable_contents lc fs key" for key
    using sstable_get_contents [OF sst_inv_sstable [OF inv'] fr(1), of key]
      sstable_get_contents [OF sst_inv_sstable [OF inv(1)] inv(2), of key] same(2) eq by auto
  then have st: "sst_stored lc' fs' = sst_stored lc fs" by (intro ext) (simp add: sst_stored_def)
  have fi': "files_inv dir lc' fs'"
    using none n(3) by (simp add: files_inv_def lc' overlapping_new_def partitioned_exceeds_def total_size_def)
  have "fs_wf fs'" unfolding fs' by (intro fs_wf_remove_unused fs_wf_store inv(3))
  moreover have "\<forall>p. \<not> in_dir dir p \<longrightarrow> fs_content fs' p = fs_content fs p"
    using fr(3) flushed_in_dir [OF fl] sst_path_in_dir [of dir 1 1] by metis
  ultimately show ?thesis
    by (intro exI [of _ lc'] exI [of _ fs'] conjI) (use turn seg(4) inv' st fi' fr in auto)
qed

lemma turn_keeps:
  assumes inv: "system_inv crc conf (en, pending, fs)" and calm: "calm_turn conf (en_levels en) in_use ev"
  shows "\<exists>lc' fs'. bt_turn order (cf_level_factor conf) in_use [] ev (en_levels en, pending, fs) =
      Some (Ok True, lc', [], fs') \<and> system_inv crc conf (en\<lparr>en_levels := lc'\<rparr>, [], fs') \<and>
    engine_view (en\<lparr>en_levels := lc'\<rparr>) fs' = engine_view en fs \<and> fs_dirs fs' = fs_dirs fs \<and>
    (\<forall>p. \<not> in_dir (cf_dir conf) p \<longrightarrow> fs_content fs' p = fs_content fs p)"
proof (cases ev)
  case EvTimedOut
  then show ?thesis
    using timeout_keeps [OF inv, of order "cf_level_factor conf" in_use] inv by (auto simp: system_inv_def)
next
  case EvNotified
  have ei: "engine_inv crc conf en fs" and p: "pending = []" using inv by (simp_all add: system_inv_def)
  have si: "sst_flush.store_inv (cf_dir conf) (cf_sparsity conf) crc (en_levels en) (en_worker en) fs"
    using ei by (simp add: engine_inv_def)
  then have s: "sst_inv (cf_dir conf) (cf_sparsity conf) (en_levels en) fs" "fs_faults fs = []" "fs_wf fs"
    by (auto simp: sst_flush.store_inv_def sst_flush.logged_def worker_inv_def)
  obtain lc' fs' where t: "bt_turn order (cf_level_factor conf) in_use [] EvNotified (en_levels en, [], fs) =
      Some (Ok True, lc', [], fs')" "sst_inv (cf_dir conf) (cf_sparsity conf) lc' fs'"
    "sst_stored lc' fs' = sst_stored (en_levels en) fs" "files_inv (cf_dir conf) lc' fs'" "fs_faults fs' = []"
    "fs_dirs fs' = fs_dirs fs" "fs_wf fs'" "\<forall>p. \<not> in_dir (cf_dir conf) p \<longrightarrow> fs_content fs' p = fs_content fs p"
    using first_compaction_keeps [OF s, of conf in_use order] inv calm EvNotified
    by (auto simp: calm_turn_def system_inv_def)
  have "set (fs_dirs fs) \<subseteq> set (fs_dirs fs')" by (simp add: t(6))
  note si' = sst_flush.store_inv_replace [OF si t(2,3,5,8) this t(7)]
  show ?thesis
    using t si' ei EvNotified p by (auto simp: system_inv_def engine_inv_def engine_view_eq)
qed (use calm in \<open>simp add: calm_turn_def\<close>)

section \<open>A calm run is a run of the map\<close>

lemma calm_run_view:
  assumes run: "calm_run crc order conf s0 evs s" and start: "s0 = (en0, [], fs0)"
    and inv: "system_inv crc conf s0" "engine_view en0 fs0 = m"
  shows "case s of (en, pending, fs) \<Rightarrow> system_inv crc conf (en, pending, fs) \<and>
    engine_view en fs = trace_final evs m \<and> trace_agrees evs m"
  using run
proof (induction rule: calm_run.induct)
  case run_start
  show ?case using inv start by (simp add: trace_final_def)
next
  case (run_command evs en pending fs cmd r en' fs')
  then show ?case
    using command_keeps [of crc conf en pending fs cmd r en' fs']
    by (cases cmd) (simp_all add: trace_agrees_append fun_upd_def)
next
  case (run_turn evs en pending fs in_use ev lc' pending' fs')
  then show ?case
    using turn_keeps [of crc conf en pending fs in_use ev order] by (auto simp: trace_agrees_append)
qed

lemma storage_engine_new_system:
  assumes run: "storage_engine_new crc order conf fs = Some (Ok en, fs')"
    and new: "new_store conf fs" and ok: "conf_ok conf"
  shows "system_inv crc conf (en, [], fs')"
proof -
  note lc = storage_engine_new_levels [OF run new]
  have none: "fs_content fs p = None" for p using new by (simp add: new_store_def fs_content_def)
  have "files_inv (cf_dir conf) (en_levels en) fs"
    using none by (simp add: files_inv_def lc(1) container_new_def overlapping_new_def)
  then have "files_inv (cf_dir conf) (en_levels en) fs'" by (rule files_inv_frame [OF _ lc(2)])
  then show ?thesis
    using storage_engine_new_inv [OF run new ok] by (simp add: system_inv_def)
qed

text \<open>A list of commands is a run.\<close>

lemma calm_run_commands:
  assumes "calm_run crc order conf s0 evs (en, pending, fs)" "\<forall>cmd \<in> set cmds. command_small cmd"
    and "engine_run crc (conf_flusher conf) cmds (en, fs) = (answers, en', fs')" "\<forall>r \<in> set answers. is_Ok r"
  shows "\<exists>evs'. length evs' = length cmds \<and> trace_final evs' = spec_final cmds \<and>
    calm_run crc order conf s0 (evs @ evs') (en', pending, fs')"
  using assms
proof (induction cmds arbitrary: evs en fs answers)
  case Nil
  then show ?case by (intro exI [of _ "[]"]) (simp add: trace_final_def spec_final_def fun_eq_iff)
next
  case (Cons cmd cmds)
  obtain r en1 fs1 where e: "engine_exec crc (conf_flusher conf) cmd (en, fs) = (r, en1, fs1)"
    by (cases "engine_exec crc (conf_flusher conf) cmd (en, fs)") auto
  obtain answers1 where rest: "engine_run crc (conf_flusher conf) cmds (en1, fs1) = (answers1, en', fs')" "answers = r # answers1"
    using Cons.prems(3) e by (auto split: prod.splits)
  obtain x where r: "r = Ok x" using Cons.prems(4) rest(2) by (auto simp: is_Ok_iff)
  have "calm_run crc order conf s0 (evs @ [SysCommand cmd x]) (en1, pending, fs1)"
    using run_command [OF Cons.prems(1) _ e [unfolded r]] Cons.prems(2) by simp
  from Cons.IH [OF this _ rest(1)] Cons.prems(2,4) rest(2)
  obtain evs' where i: "length evs' = length cmds" "trace_final evs' = spec_final cmds"
    "calm_run crc order conf s0 ((evs @ [SysCommand cmd x]) @ evs') (en', pending, fs')" by auto
  show ?case
    by (rule exI [of _ "SysCommand cmd x # evs'"])
      (use i in \<open>simp add: trace_final_def spec_final_def fun_eq_iff\<close>)
qed

section \<open>A file name that is used again\<close>

text \<open>Opening and flushing only tick the schedule of errors.\<close>

context fs_invariant
begin

lemma read_loop_keeps: "I fs \<Longrightarrow> I (snd (read_loop p want buf bo co nread fs))"
proof (induction p want buf bo co nread fs rule: read_loop.induct)
  case (1 p want buf bo co nread fs)
  obtain r fs1 where r: "fs_read_at p co (length buf - bo) fs = (r, fs1)"
    by (cases "fs_read_at p co (length buf - bo) fs")
  have "I fs1" by (rule keepsD [OF fs_read_at_keeps "1.prems" r])
  then show ?case
    using "1.IH" "1.prems" r by (subst read_loop.simps) (auto simp: Let_def split: res.split)
qed

lemma read_loop_keeps_act: "keeps I (read_loop p want buf bo co nread)"
  by (simp add: keeps_def read_loop_keeps)

lemma read_table_entry_keeps: "keeps I (read_table_entry p off)"
  unfolding read_table_entry_def Let_def
  by (intro keeps_bind keeps_case_prod read_loop_keeps_act keeps_lift_res)

lemma read_table_entries_keeps: "keeps I (read_table_entries p start end_pos)"
  unfolding read_table_entries_def
  by (intro keeps_bind keeps_case_prod read_loop_keeps_act keeps_lift_res)

lemma on_open_keeps: "keeps I m \<Longrightarrow> keeps I (on_open m)"
  by (simp add: keeps_def on_open_def case_prod_beta)

lemma segment_from_file_keeps: "keeps I (segment_from_file p)"
  unfolding segment_from_file_def Let_def
  by (intro keeps_bind keeps_case_prod keeps_if on_open_keeps fs_read_keeps read_table_entry_keeps
      read_table_entries_keeps keeps_lift_res keeps_ret keeps_raise)

end

lemma segment_from_file_path: "segment_from_file p fs = (Ok seg, fs') \<Longrightarrow> sg_path seg = p"
  by (auto simp: segment_from_file_def Let_def outcome split: if_splits)

lemma remove_unused_gone:
  assumes "fs_faults fs = []" "seg \<in> set segs"
  shows "fs_content (remove_unused segs fs) (sg_path seg) = None"
proof -
  have stays: "fs_content (remove_unused ss gs) q = None" if "fs_faults gs = []" "fs_content gs q = None" for ss gs q
    using that
  proof (induction ss gs rule: remove_unused.induct)
    case (2 s ss gs)
    then show ?case
      using fs_remove_frame(1) [of gs "sg_path s"] fs_remove_frame(3) [of gs q "sg_path s"]
      by (cases "q = sg_path s") (auto simp: fs_remove_def)
  qed simp
  show ?thesis
    using assms
  proof (induction segs fs rule: remove_unused.induct)
    case (2 s ss gs)
    have "fs_content (snd (fs_remove (sg_path s) gs)) (sg_path s) = None"
      using "2.prems"(1) by (auto simp: fs_remove_def fs_content_def delete_conv' split: option.split)
    then show ?case using 2 stays fs_remove_frame(1) [of gs "sg_path s"] by auto
  qed simp
qed

lemma flush_reuses_name:
  assumes "ol_segments (lc_level_zero lc) = []" "fs_faults fs = []"
    and run: "flusher_flush dir sparsity table (lc, fs) = (Ok u, lc', fs')"
  shows "\<exists>seg. lc' = lc\<lparr>lc_level_zero := (lc_level_zero lc)\<lparr>ol_segments := [seg]\<rparr>\<rparr> \<and>
    sg_path seg = sst_path dir 0 1 \<and> fs_faults fs' = []"
proof -
  obtain r1 fs1 where w: "segment_file_from_memtable dir table 1 sparsity fs = (r1, fs1)"
    by (cases "segment_file_from_memtable dir table 1 sparsity fs")
  have name: "sst_filename 0 1 = (Ok (hexw 8 0 @ hexw 8 1 @ ''.sst'') :: (io_error, string) res)"
    by (rule sst_filename_eq) simp_all
  obtain fp where r1: "r1 = Ok fp"
    using run w assms(1) by (cases r1) (auto simp: flusher_flush_def highest_segment_number_def outcome split: prod.splits res.splits)
  have fp: "fp = sst_path dir 0 1"
    using w by (auto simp: segment_file_from_memtable_def r1 name outcome sst_path_def Let_def simp del: One_nat_def)
  obtain r2 fs2 where o: "segment_from_file fp fs1 = (r2, fs2)" by (cases "segment_from_file fp fs1")
  obtain seg where r2: "r2 = Ok seg" and e: "lc' = lc\<lparr>lc_level_zero := (lc_level_zero lc)\<lparr>ol_segments := [seg]\<rparr>\<rparr>" "fs' = fs2"
    using run w r1 o assms(1)
    by (cases r2) (auto simp: flusher_flush_def highest_segment_number_def find_and_add_segment_def add_to_level_zero_def
        bind_act_def lift_res_def ret_def split: segment_open_error.splits)
  have "keeps no_faults (segment_file_from_memtable dir table 1 sparsity)"
    unfolding segment_file_from_memtable_def Let_def
    by (intro keeps_bind keeps_lift_res keeps_ret no_faults_fs.fs_open_write_keeps)
      (auto intro!: keeps_bind no_faults_fs.fs_write_front_keeps)
  then have "no_faults fs1" using w assms(2) by (auto simp: keeps_def no_faults_def dest!: spec [of _ fs])
  then have "no_faults fs2" using keepsD [OF no_faults_fs.segment_from_file_keeps _ o] by blast
  then show ?thesis
    using e segment_from_file_path [OF o [unfolded r2]] fp by (auto simp: no_faults_def)
qed

lemma pending_file_deleted:
  assumes empty: "ol_segments (lc_level_zero lc) = []" and nf: "fs_faults fs = []"
    and run: "flusher_flush dir sparsity table (lc, fs) = (Ok u, lc', fs')"
    and old: "old \<in> set pending" "sg_path old = sst_path dir 0 1" "\<not> in_use old"
    and idle: "\<forall>level \<in> set (lc_partitioned_levels lc). \<not> partitioned_exceeds level"
  shows "\<exists>seg pending' fs''. ol_segments (lc_level_zero lc') = [seg] \<and>
    bt_turn order factor in_use [] EvTimedOut (lc', pending, fs') = Some (Ok True, lc', pending', fs'') \<and>
    fs_content fs'' (sg_path seg) = None"
proof -
  obtain seg where s: "lc' = lc\<lparr>lc_level_zero := (lc_level_zero lc)\<lparr>ol_segments := [seg]\<rparr>\<rparr>"
    "sg_path seg = sst_path dir 0 1" "fs_faults fs' = []"
    using flush_reuses_name [OF empty nf run] by blast
  let ?fs2 = "remove_unused (filter (\<lambda>s. \<not> in_use s) pending) fs'"
  have "bt_turn order factor in_use [] EvTimedOut (lc', pending, fs') =
      Some (Ok True, lc', filter in_use pending, ?fs2)"
    using bt_turn_idle [of lc' order factor in_use "[]" pending fs'] idle
    by (simp add: s(1) container_add_def remove_segment_files_def)
  moreover have "fs_content ?fs2 (sg_path seg) = None"
    using remove_unused_gone [OF s(3), of old "filter (\<lambda>s. \<not> in_use s) pending"] old by (simp add: s(2))
  ultimately show ?thesis using s(1) by simp
qed

end
