(* ===== verification/Engine_Restart.thy ===== *)
theory Engine_Restart
  imports Engine_System Mem_Crash
begin

text \<open>
  Restarting the engine (\<open>StorageEngine::new\<close> of \<open>src/storage_engine.rs\<close> on the files an engine
  left).  The log is never cut while an engine runs, and the segments are looked for where no
  flush puts them: so a start replays the whole log, and what the engine showed comes back
  from there, whatever was flushed and compacted before.
\<close>

section \<open>What a running engine leaves for the next one\<close>

definition restartable :: "engine_conf \<Rightarrow> engine \<Rightarrow> file_system \<Rightarrow> bool" where
  "restartable conf en fs \<longleftrightarrow>
     wal_dir (ww_wal (en_worker en)) = cf_dir conf @ [''WAL''] \<and>
     wal_segment_max_size (ww_wal (en_worker en)) = cf_segment_size conf \<and>
     ww_max_size (en_worker en) = cf_memtable_max_size conf \<and> en_threads en = 6 \<and>
     cf_dir conf @ [''SSTable''] \<in> set (fs_dirs fs) \<and> fresh_dir (cf_dir conf @ [''SSTable'']) fs"

lemma fresh_dir_frame:
  assumes "fresh_dir (dir @ [''SSTable'']) fs"
    and "\<forall>p. butlast p \<noteq> dir \<and> butlast p \<noteq> dir @ [''WAL''] \<longrightarrow> fs_content fs' p = fs_content fs p"
  shows "fresh_dir (dir @ [''SSTable'']) fs'"
  using assms by (simp add: fresh_dir_def)

text \<open>A job that is acknowledged.\<close>

lemma memtable_submit_restartable:
  assumes inv: "engine_inv crc conf en fs" and ns: "job \<noteq> JobShutdown" and small: "job_small job"
    and run: "memtable_submit crc (conf_flusher conf) job (en, fs) = (Ok old, en', fs')"
    and re: "restartable conf en fs"
  shows "restartable conf en' fs'"
proof -
  let ?flush = "flusher_flush (cf_dir conf) (cf_sparsity conf)"
  have si: "sst_flush.store_inv (cf_dir conf) (cf_sparsity conf) crc (en_levels en) (en_worker en) fs"
    using inv by (simp add: engine_inv_def)
  obtain r1 lc ww fs1 where fl: "run_flush ?flush (en_levels en, en_worker en, fs) = (r1, lc, ww, fs1)"
    by (cases "run_flush ?flush (en_levels en, en_worker en, fs)") auto
  obtain r2 ww' fs2 where j: "run_job crc job (ww, fs1) = (r2, ww', fs2)"
    by (cases "run_job crc job (ww, fs1)") auto
  obtain go where s: "r1 = Ok ()" "r2 = Ok (Some (Ok old), go)" "fs' = fs2"
    "en' = en\<lparr>en_levels := lc, en_worker := ww', en_writer_alive := go\<rparr>"
    using run inv fl j
    by (auto simp: memtable_submit_def conf_flusher_def engine_inv_def split: res.splits option.splits)
  note fv = sst_flush.run_flush_view [OF si fl [unfolded s(1)]]
  obtain e where e: "worker_log crc e (ww, fs1) = (Ok old, ww', fs')" "job_entry (wal_lsn (ww_wal ww)) job = Some e"
    "wal_lsn (ww_wal ww) < 2 ^ 64"
    using run_job_Ok [OF j [unfolded s(2)] ns] s(3) by blast
  obtain bases es0 es where wi: "worker_inv crc bases es0 es ww fs1"
    using fv by (auto simp: sst_flush.store_inv_def sst_flush.logged_def)
  have "we_seq e = wal_lsn (ww_wal ww)" "we_seq e < 2 ^ 64" using job_entry_seq [OF e(2)] e(3) by simp_all
  from worker_log_inv [OF wi job_small_entry [OF small e(2)] this e(1)]
  have w: "ww_max_size ww' = ww_max_size ww" "wal_dir (ww_wal ww') = wal_dir (ww_wal ww)"
    "wal_segment_max_size (ww_wal ww') = wal_segment_max_size (ww_wal ww)" by blast+
  have f1: "\<forall>p. \<not> in_dir (cf_dir conf) p \<longrightarrow> fs_content fs1 p = fs_content fs p" "fs_dirs fs1 = fs_dirs fs"
    using sst_flush.run_flush_frame [OF si fl [unfolded s(1)]] by auto
  have f2: "\<forall>p. butlast p \<noteq> wal_dir (ww_wal ww) \<longrightarrow> fs_content fs' p = fs_content fs1 p"
    "set (fs_dirs fs1) \<subseteq> set (fs_dirs fs')"
    using sst_flush.worker_log_outside [OF conjunct1 [OF fv] e(1)] by auto
  have "fresh_dir (cf_dir conf @ [''SSTable'']) fs'"
    by (rule fresh_dir_frame [of "cf_dir conf" fs])
      (use re f1(1) f2(1) fv in \<open>auto simp: restartable_def in_dir_def\<close>)
  then show ?thesis
    using re w f1(2) f2(2) fv by (auto simp: restartable_def s(4))
qed

lemma command_restartable:
  assumes inv: "engine_inv crc conf en fs" and small: "command_small cmd"
    and run: "engine_exec crc (conf_flusher conf) cmd (en, fs) = (Ok r, en', fs')"
    and re: "restartable conf en fs"
  shows "restartable conf en' fs'"
proof (cases cmd)
  case (CmdGet key)
  then have "en' = en" "fs' = fs"
    using run engine_get_view [OF inv, of key]
    by (auto simp: engine_exec_def split: prod.splits res.splits if_splits)
  then show ?thesis using re by simp
next
  case (CmdDelete key)
  then obtain old where "memtable_submit crc (conf_flusher conf) (JobDelete key) (en, fs) = (Ok old, en', fs')"
    using run by (auto simp: engine_exec_def engine_delete_def memtable_delete_def outcome
        split: prod.splits res.splits if_splits)
  from memtable_submit_restartable [OF inv _ _ this re] small CmdDelete show ?thesis by (simp add: command_small_def)
next
  case (CmdPut key v)
  then obtain old where "memtable_submit crc (conf_flusher conf) (JobPut key v) (en, fs) = (Ok old, en', fs')"
    using run by (auto simp: engine_exec_def engine_put_def memtable_put_def outcome
        split: prod.splits res.splits if_splits)
  from memtable_submit_restartable [OF inv _ _ this re] small CmdPut show ?thesis by (simp add: command_small_def)
qed

lemma new_restartable:
  assumes run: "storage_engine_new crc order conf fs = Some (Ok en, fs')"
    and new: "new_store conf fs" and ok: "conf_ok conf"
  shows "restartable conf en fs'"
proof -
  have nf: "fs_faults fs = []" "fs_wf fs" and none: "fs_content fs p = None" for p
    using new by (simp_all add: new_store_def fs_content_def)
  obtain ww where start: "memtable_start crc (cf_dir conf @ [''WAL'']) (cf_segment_size conf)
      (highest_sequence_number (container_new (cf_level_zero_size conf))) (cf_memtable_max_size conf) fs = (Ok ww, fs')"
    and en: "en = \<lparr>en_levels = container_new (cf_level_zero_size conf), en_worker = ww, en_writer_alive = True,
      en_poisoned = False, en_threads = 6\<rparr>" and fresh: "fresh_dir (cf_dir conf @ [''WAL'']) fs"
    by (rule storage_engine_new_parts [OF run new])
  have ww: "wal_dir (ww_wal ww) = cf_dir conf @ [''WAL'']" "wal_segment_max_size (ww_wal ww) = cf_segment_size conf"
    "ww_max_size ww = cf_memtable_max_size conf"
    using memtable_start_fresh [OF start fresh nf] ok by (auto simp: conf_ok_def)
  have "fresh_dir (cf_dir conf @ [''SSTable'']) fs'"
    using memtable_start_fresh_frame [OF start fresh nf(1)] none by (simp add: fresh_dir_def)
  then show ?thesis
    using memtable_start_fresh_frame [OF start fresh nf(1)] ww new
    by (simp add: restartable_def en new_store_def)
qed

lemma calm_run_restartable:
  assumes run: "calm_run crc order conf s0 evs s" and start: "s0 = (en0, [], fs0)"
    and inv: "system_inv crc conf s0" and re: "restartable conf en0 fs0"
  shows "case s of (en, pending, fs) \<Rightarrow> restartable conf en fs"
  using run
proof (induction rule: calm_run.induct)
  case run_start
  show ?case using re start by simp
next
  case (run_command evs en pending fs cmd r en' fs')
  have "system_inv crc conf (en, pending, fs)" using calm_run_view [OF run_command.hyps(1) start inv refl] by simp
  then show ?case
    using command_restartable [OF _ run_command.hyps(2,3)] run_command.IH by (simp add: system_inv_def)
next
  case (run_turn evs en pending fs in_use ev lc' pending' fs')
  have "system_inv crc conf (en, pending, fs)" using calm_run_view [OF run_turn.hyps(1) start inv refl] by simp
  from turn_keeps [OF this run_turn.hyps(2), of order]
  obtain lc2 fs2 where t: "bt_turn order (cf_level_factor conf) in_use [] ev (en_levels en, pending, fs) = Some (Ok True, lc2, [], fs2)"
    "fs_dirs fs2 = fs_dirs fs" "\<forall>p. \<not> in_dir (cf_dir conf) p \<longrightarrow> fs_content fs2 p = fs_content fs p" by blast
  have "fs2 = fs'" using t(1) run_turn.hyps(3) by simp
  then have dirs: "fs_dirs fs' = fs_dirs fs" and fr: "\<forall>p. butlast p \<noteq> cf_dir conf \<longrightarrow> fs_content fs' p = fs_content fs p"
    using t by (simp_all add: in_dir_def)
  have re: "restartable conf en fs" using run_turn.IH by simp
  then have "fresh_dir (cf_dir conf @ [''SSTable'']) fs" by (simp add: restartable_def)
  then have "fresh_dir (cf_dir conf @ [''SSTable'']) fs'"
    by (rule fresh_dir_frame) (use fr in simp)
  then show ?case using re dirs by (simp add: restartable_def)
qed

section \<open>The start\<close>

lemma storage_engine_restart:
  assumes re: "restartable conf en fs" and nf: "fs_faults fs = []"
    and start: "memtable_start crc (wal_dir (ww_wal (en_worker en))) (wal_segment_max_size (ww_wal (en_worker en))) 0
      (ww_max_size (en_worker en)) fs = (Ok ww, fs')" and nf': "fs_faults fs' = []"
  obtains en' where "storage_engine_new crc order conf fs = Some (Ok en', fs')"
    "en' = \<lparr>en_levels = container_new (cf_level_zero_size conf), en_worker = ww, en_writer_alive = True,
      en_poisoned = False, en_threads = 6\<rparr>"
    "\<forall>key. engine_get key (en', fs') = (Ok (visible (map_of (ww_table ww)) key), en', fs')"
proof -
  let ?lc = "container_new (cf_level_zero_size conf)"
  let ?en = "\<lparr>en_levels = ?lc, en_worker = ww, en_writer_alive = True, en_poisoned = False, en_threads = 6\<rparr>"
  have "fs_read_dir (cf_dir conf @ [''SSTable'']) fs = (Ok [], fs)"
    using re nf by (simp add: restartable_def fs_read_dir_fresh)
  then have lc: "container_from_dir order (cf_dir conf @ [''SSTable'']) (cf_level_zero_size conf) (cf_level_factor conf)
      (cf_sparsity conf) fs = Some (Ok ?lc, fs)"
    by (simp add: container_from_dir_def)
  have "highest_sequence_number ?lc = 0"
    by (simp add: highest_sequence_number_def container_new_def overlapping_new_def)
  then have new: "storage_engine_new crc order conf fs = Some (Ok ?en, fs')"
    using start re by (simp add: storage_engine_new_def lc restartable_def)
  have "sstable_inv ?lc fs'"
    by (simp add: sstable_inv_def container_new_def overlapping_new_def overlapping_inv_def partitioned_inv_def)
  then have "engine_get key (?en, fs') = (Ok (engine_view ?en fs' key), ?en, fs')" for key
    using nf' by (intro engine_get_sstable) simp_all
  moreover have "engine_view ?en fs' = visible (map_of (ww_table ww))"
    by (simp add: engine_view_def sst_contents_new)
  ultimately show thesis using that [OF new] by simp
qed

text \<open>A stop between two operations.\<close>

lemma engine_restart:
  assumes inv: "system_inv crc conf (en, pending, fs)" and re: "restartable conf en fs"
    and lsn: "wal_lsn (ww_wal (en_worker en)) < 2 ^ 63"
  shows "\<exists>en' fs'. storage_engine_new crc order conf fs = Some (Ok en', fs') \<and>
    (\<forall>key. engine_get key (en', fs') = (Ok (engine_view en fs key), en', fs')) \<and>
    (en_levels en = container_new (cf_level_zero_size conf) \<longrightarrow>
      en' = en \<and> system_inv crc conf (en', [], fs') \<and> engine_view en' fs' = engine_view en fs)"
proof -
  have ei: "engine_inv crc conf en fs" and fi: "files_inv (cf_dir conf) (en_levels en) fs"
    using inv by (simp_all add: system_inv_def)
  then have si: "sst_flush.store_inv (cf_dir conf) (cf_sparsity conf) crc (en_levels en) (en_worker en) fs"
    by (simp add: engine_inv_def)
  then have nf: "fs_faults fs = []" and sst: "sst_inv (cf_dir conf) (cf_sparsity conf) (en_levels en) fs"
    by (simp_all add: sst_flush.store_inv_def)
  obtain ww fs' where m: "memtable_start crc (wal_dir (ww_wal (en_worker en))) (wal_segment_max_size (ww_wal (en_worker en))) 0
      (ww_max_size (en_worker en)) fs = (Ok ww, fs')"
    "map_of (ww_table ww) = sst_flush.view (en_levels en) (en_worker en) fs"
    "sst_stored (en_levels en) fs = Map.empty \<longrightarrow> ww = en_worker en"
    "fs_content fs' = fs_content fs" "fs_dirs fs' = wal_dir (ww_wal (en_worker en)) # fs_dirs fs"
    "fs_faults fs' = []" "fs_wf fs'"
    by (rule sst_flush.store_inv_restart [OF si lsn])
  obtain en' where n: "storage_engine_new crc order conf fs = Some (Ok en', fs')"
    "en' = \<lparr>en_levels = container_new (cf_level_zero_size conf), en_worker = ww, en_writer_alive = True,
      en_poisoned = False, en_threads = 6\<rparr>"
    "\<forall>key. engine_get key (en', fs') = (Ok (visible (map_of (ww_table ww)) key), en', fs')"
    by (rule storage_engine_restart [OF re nf m(1,6)])
  have "en' = en \<and> system_inv crc conf (en', [], fs') \<and> engine_view en' fs' = engine_view en fs"
    if lc: "en_levels en = container_new (cf_level_zero_size conf)"
  proof -
    have "en' = en"
      using m(3) ei re lc by (cases en) (simp add: n(2) engine_inv_def restartable_def sst_contents_new)
    moreover have dirs: "set (fs_dirs fs) \<subseteq> set (fs_dirs fs')" by (auto simp: m(5))
    then have "sst_inv (cf_dir conf) (cf_sparsity conf) (en_levels en) fs'"
      "sst_stored (en_levels en) fs' = sst_stored (en_levels en) fs"
      using sst_flush.stored_frame [OF sst nf m(6)] by (simp_all add: m(4))
    from sst_flush.store_inv_replace [OF si this m(6) _ dirs m(7)]
    have "engine_inv crc conf en fs'" "engine_view en fs' = engine_view en fs"
      using ei by (simp_all add: m(4) engine_inv_def engine_view_eq)
    moreover have "files_inv (cf_dir conf) (en_levels en) fs'"
      by (rule files_inv_frame [OF fi]) (simp add: m(4))
    ultimately show ?thesis by (simp add: system_inv_def)
  qed
  then show ?thesis using n(1,3) m(2) by (auto simp: engine_view_eq)
qed

text \<open>A stop in the middle of a write.\<close>

fun command_job :: "command \<Rightarrow> write_job option" where
  "command_job (CmdPut key v) = Some (JobPut key v)"
| "command_job (CmdDelete key) = Some (JobDelete key)"
| "command_job (CmdGet key) = None"

lemma engine_exec_submit:
  assumes "command_job cmd = Some job" "0 < en_threads en"
    and "memtable_submit crc flush job (en, fs) = (Err e, en', fs')"
  shows "engine_exec crc flush cmd (en, fs) = (Err EngIoError, en', fs')"
  using assms by (cases cmd) (auto simp: engine_exec_def engine_put_def engine_delete_def memtable_put_def memtable_delete_def)

lemma engine_torn_restart:
  assumes inv: "engine_inv crc conf en fs" and re: "restartable conf en fs"
    and lsn: "wal_lsn (ww_wal (en_worker en)) < 2 ^ 63"
    and room: "ww_current_size (en_worker en) < ww_max_size (en_worker en)"
    and cmd: "command_job cmd = Some job" "job_entry (wal_lsn (ww_wal (en_worker en))) job = Some e" "wal_entry_ok e"
    and torn: "HEADER_SIZE \<le> n" "n < length (wal_frame crc e)"
    and fits: "seg_file_size (wal_active (ww_wal (en_worker en))) + length (wal_frame crc e) \<le> cf_segment_size conf"
    and run: "engine_exec crc (conf_flusher conf) cmd (en, fs\<lparr>fs_faults := [Some n]\<rparr>) = (r, en1, fs1)"
  shows "r = Err EngIoError \<and> en1 = en \<and>
    (\<exists>en' fs'. storage_engine_new crc order conf (fs1\<lparr>fs_faults := []\<rparr>) = Some (Ok en', fs') \<and>
      (\<forall>key. engine_get key (en', fs') = (Ok (engine_view en fs key), en', fs')))"
proof -
  let ?ww = "en_worker en" and ?fs = "fs\<lparr>fs_faults := [Some n]\<rparr>"
  have si: "sst_flush.store_inv (cf_dir conf) (cf_sparsity conf) crc (en_levels en) ?ww fs"
    and alive: "en_writer_alive en" "0 < en_threads en" using inv by (simp_all add: engine_inv_def)
  obtain bases es0 es where wi: "worker_inv crc bases es0 es ?ww fs"
    and v: "sst_flush.view (en_levels en) ?ww fs = map_of (snd (recover_entries (es0 @ es) (0, [])))"
    using si by (auto simp: sst_flush.store_inv_def sst_flush.logged_def)
  have dir: "wal_dir (ww_wal ?ww) = cf_dir conf @ [''WAL'']" "wal_segment_max_size (ww_wal ?ww) = cf_segment_size conf"
    using re by (simp_all add: restartable_def)
  obtain r1 ww1 fs2 where log: "worker_log crc e (?ww, ?fs) = (r1, ww1, fs2)"
    by (cases "worker_log crc e (?ww, ?fs)") auto
  have fault: "fs_faults ?fs = Some n # []" by simp
  from worker_log_torn_start [OF worker_inv_faults [OF wi] lsn cmd(3) torn _ fault log] fits dir
  obtain gs where t: "r1 = Err OsError" "ww1 = ?ww" "fs_dirs fs2 = fs_dirs fs"
    "\<forall>p. butlast p \<noteq> wal_dir (ww_wal ?ww) \<longrightarrow> fs_content fs2 p = fs_content ?fs p"
    "memtable_start crc (wal_dir (ww_wal ?ww)) (wal_segment_max_size (ww_wal ?ww)) 0 (ww_max_size ?ww) (fs2\<lparr>fs_faults := []\<rparr>) =
      (case recover_entries (es0 @ es) (0, []) of (sz, table) \<Rightarrow> (Ok (worker_from table (ww_wal ?ww) sz (ww_max_size ?ww)), gs))"
    "fs_faults gs = []" by auto
  have "wal_next_sequence_number (ww_wal ?ww) = (Ok (wal_lsn (ww_wal ?ww)) :: (io_error, nat) res)"
    using lsn by (simp add: wal_next_sequence_number_def next_lsn_def add_chk_def wal_lsn_def)
  then have "run_job crc job (?ww, ?fs) = (Ok (Some (Err OsError), True), ?ww, fs2)"
    using log t(1,2) by (simp add: run_job_log [OF cmd(2)])
  then have "memtable_submit crc (conf_flusher conf) job (en, ?fs) = (Err OsError, en, fs2)"
    using alive room by (simp add: memtable_submit_def run_flush_def)
  from engine_exec_submit [OF cmd(1) alive(2) this] run
  have r: "r = Err EngIoError" "en1 = en" "fs1 = fs2" by simp_all
  have c: "fs_content (fs2\<lparr>fs_faults := []\<rparr>) = fs_content fs2" "fs_content ?fs = fs_content fs"
    by (simp_all add: fs_content_def fun_eq_iff)
  have "fresh_dir (cf_dir conf @ [''SSTable'']) (fs2\<lparr>fs_faults := []\<rparr>)"
    by (rule fresh_dir_frame [of "cf_dir conf" fs]) (use re t(4) dir c in \<open>auto simp: restartable_def\<close>)
  then have re': "restartable conf en (fs2\<lparr>fs_faults := []\<rparr>)" using re t(3) by (simp add: restartable_def)
  obtain sz table where rec: "recover_entries (es0 @ es) (0, []) = (sz, table)"
    by (cases "recover_entries (es0 @ es) (0, [])")
  note start = t(5) [unfolded rec prod.case]
  obtain en' where "storage_engine_new crc order conf (fs2\<lparr>fs_faults := []\<rparr>) = Some (Ok en', gs)"
    "\<forall>key. engine_get key (en', gs) = (Ok (visible (map_of table) key), en', gs)"
    by (rule storage_engine_restart [OF re' _ start t(6)]) (simp_all add: worker_from_def)
  then show ?thesis using r v rec by (auto simp: engine_view_eq)
qed

end
