(* ===== verification/Sst_Properties.thy ===== *)
theory Sst_Properties
  imports Sst_Compact Log_Properties
begin

text \<open>
  The properties of the sorted tables, of the flusher and of the compaction, each with a
  witness on a small table.
\<close>

section \<open>A small table\<close>

definition ex_table :: mem_map where
  "ex_table = [(ex_str 1 98, \<lparr>mv_value = Some (ex_str 2 120), mv_seq = 7\<rparr>),
     (ex_str 1 97, \<lparr>mv_value = None, mv_seq = 9\<rparr>)]"

definition ex_sst_dir :: path where "ex_sst_dir = [''db'']"

definition ex_sst_fs :: file_system where
  "ex_sst_fs = \<lparr>fs_files = [], fs_dirs = [ex_sst_dir], fs_faults = []\<rparr>"

lemma ex_table_ok: "table_ok ex_table" "ex_table \<noteq> []" "2 * table_bytes ex_table < 2 ^ 64"
  by code_simp+

lemma ex_sst_fs_simps [simp]: "fs_faults ex_sst_fs = []" "ex_sst_dir \<in> set (fs_dirs ex_sst_fs)"
  "fs_content ex_sst_fs p = None"
  by (simp_all add: ex_sst_fs_def fs_content_def)

lemma ex_sst_inv: "sst_inv ex_sst_dir 1 (container_new 100) ex_sst_fs"
  by (simp add: sst_inv_def all_segments_def container_new_def overlapping_new_def)

section \<open>Segments\<close>

text \<open>C11: A table that is written to a segment file and opened again reads back as the table:
  the writer and the opener succeed, and \<open>get\<close> of the opened segment answers every key with
  the entry of the table, or with nothing when the table does not hold it.\<close>

theorem flushed_table_reads:
  assumes "table_ok table" "table \<noteq> []" "2 * table_bytes table < 2 ^ 64" "0 < sparsity" "n < 16 ^ 8"
    and "fs_faults fs = []" "dir \<in> set (fs_dirs fs)" "fs_content fs (sst_path dir 0 n) = None"
  shows "\<exists>fp fs1 seg. segment_file_from_memtable dir table n sparsity fs = (Ok fp, fs1) \<and>
    segment_from_file fp fs1 = (Ok seg, fs1) \<and>
    (\<forall>key. segment_get seg key fs1 = (Ok (map_option (sst_from key) (map_of table key)), fs1))"
proof -
  let ?es = "sorted_entries table" and ?p = "sst_path dir 0 n"
  obtain ps fs1 where im: "segment_file_from_memtable dir table n sparsity fs = (Ok ?p, fs1)"
    "points_ok ?es ps" "fs_content fs1 ?p = Some (segment_image ?es ps)" "fs_faults fs1 = []"
    using segment_file_from_memtable_image [OF assms(1,4,5,6-8)] by auto
  obtain seg where seg: "segment_from_file ?p fs1 = (Ok seg, fs1)" "segment_of seg ?es ps" "sg_path seg = ?p"
    using sorted_image_opens [OF assms(1-3,5) im(2,4,3)] by blast
  have "segment_get seg key fs1 = (Ok (lookup_entry ?es key), fs1)" for key
    by (rule segment_get_lookup [OF seg(2) im(4)]) (simp add: seg(3) im(3) segment_image_def)
  then show ?thesis using im(1) seg(1) lookup_sorted_entries [OF assms(1)] by auto
qed

theorem flushed_table_reads_witness:
  "\<exists>fp fs1 seg. segment_file_from_memtable ex_sst_dir ex_table 1 2 ex_sst_fs = (Ok fp, fs1) \<and>
    segment_from_file fp fs1 = (Ok seg, fs1) \<and>
    segment_get seg (ex_str 1 98) fs1 = (Ok (Some (sst_from (ex_str 1 98) \<lparr>mv_value = Some (ex_str 2 120), mv_seq = 7\<rparr>)), fs1) \<and>
    segment_get seg (ex_str 1 99) fs1 = (Ok None, fs1)"
proof -
  have m: "map_of ex_table (ex_str 1 98) = Some \<lparr>mv_value = Some (ex_str 2 120), mv_seq = 7\<rparr>"
    "map_of ex_table (ex_str 1 99) = None" by code_simp+
  from flushed_table_reads [OF ex_table_ok, of 2 1 ex_sst_fs ex_sst_dir]
  obtain fp fs1 seg where "segment_file_from_memtable ex_sst_dir ex_table 1 2 ex_sst_fs = (Ok fp, fs1)"
    "segment_from_file fp fs1 = (Ok seg, fs1)"
    "\<forall>key. segment_get seg key fs1 = (Ok (map_option (sst_from key) (map_of ex_table key)), fs1)"
    by auto
  then show ?thesis using m by auto
qed



text \<open>The search in the index brackets the key: a match is the position of the key itself,
  and a range runs from the last indexed entry below the key to the first one above it.\<close>

theorem index_find_brackets:
  assumes sorted: "sorted_wrt (<) (map ie_key (idx_indices idx))"
  shows "case index_find idx key of
      Ok (Match off) \<Rightarrow> \<exists>i < length (idx_indices idx). ie_key (idx_indices idx ! i) = key \<and>
        off = ie_offset (idx_indices idx ! i)
    | Ok (Range start stop) \<Rightarrow> \<exists>i \<le> length (idx_indices idx).
        (\<forall>j < i. ie_key (idx_indices idx ! j) < key) \<and>
        (\<forall>j. i \<le> j \<and> j < length (idx_indices idx) \<longrightarrow> key < ie_key (idx_indices idx ! j)) \<and>
        start = (if i = 0 then 0 else ie_offset (idx_indices idx ! (i - 1))) \<and>
        stop = (if i < length (idx_indices idx) then Some (ie_offset (idx_indices idx ! i)) else None)
    | _ \<Rightarrow> False"
proof -
  let ?ies = "idx_indices idx"
  have less: "i < j \<Longrightarrow> j < length ?ies \<Longrightarrow> ie_key (?ies ! i) < ie_key (?ies ! j)" for i j
    using sorted by (simp add: sorted_wrt_iff_nth_less)
  have below: "j \<le> i \<Longrightarrow> i < length ?ies \<Longrightarrow> ie_key (?ies ! i) < key \<Longrightarrow> ie_key (?ies ! j) < key" for i j
    using less [of j i] by (cases "j = i") auto
  have above: "i \<le> j \<Longrightarrow> j < length ?ies \<Longrightarrow> key < ie_key (?ies ! i) \<Longrightarrow> key < ie_key (?ies ! j)" for i j
    using less [of i j] by (cases "j = i") auto
  from index_find_cases [OF sorted, of key] show ?thesis
  proof cases
    case 1
    then show ?thesis by simp
  next
    case 2
    then show ?thesis using above [of 0] by (auto intro!: exI [of _ "0 :: nat"])
  next
    case (3 i)
    then show ?thesis by auto
  next
    case (4 i)
    then show ?thesis using below [of _ i] above [of "i + 1"] by (auto intro!: exI [of _ "i + 1"])
  next
    case (5 i)
    have l: "length ?ies = Suc i" using 5(1) by simp
    have b: "\<forall>j < Suc i. ie_key (?ies ! j) < key" using below [of _ i] 5(2) l by (simp add: less_Suc_eq_le)
    show ?thesis unfolding 5(3) by (simp add: l) (rule exI [of _ "Suc i"], use b in auto)
  qed
qed

definition ex_index :: segment_index where
  "ex_index = index_of [\<lparr>ie_key = ex_str 1 97, ie_offset = 0\<rparr>, \<lparr>ie_key = ex_str 1 99, ie_offset = 40\<rparr>]"

theorem index_find_brackets_witness:
  "index_find ex_index (ex_str 1 98) = Ok (Range 0 (Some 40)) \<and>
    (case index_find ex_index (ex_str 1 98) of
      Ok (Match off) \<Rightarrow> \<exists>i < length (idx_indices ex_index). ie_key (idx_indices ex_index ! i) = ex_str 1 98 \<and>
        off = ie_offset (idx_indices ex_index ! i)
    | Ok (Range start stop) \<Rightarrow> \<exists>i \<le> length (idx_indices ex_index).
        (\<forall>j < i. ie_key (idx_indices ex_index ! j) < ex_str 1 98) \<and>
        (\<forall>j. i \<le> j \<and> j < length (idx_indices ex_index) \<longrightarrow> ex_str 1 98 < ie_key (idx_indices ex_index ! j)) \<and>
        start = (if i = 0 then 0 else ie_offset (idx_indices ex_index ! (i - 1))) \<and>
        stop = (if i < length (idx_indices ex_index) then Some (ie_offset (idx_indices ex_index ! i)) else None)
    | _ \<Rightarrow> False)"
proof
  show "index_find ex_index (ex_str 1 98) = Ok (Range 0 (Some 40))" by code_simp
  have "sorted_wrt (<) (map ie_key (idx_indices ex_index))" by code_simp
  then show "case index_find ex_index (ex_str 1 98) of
      Ok (Match off) \<Rightarrow> \<exists>i < length (idx_indices ex_index). ie_key (idx_indices ex_index ! i) = ex_str 1 98 \<and>
        off = ie_offset (idx_indices ex_index ! i)
    | Ok (Range start stop) \<Rightarrow> \<exists>i \<le> length (idx_indices ex_index).
        (\<forall>j < i. ie_key (idx_indices ex_index ! j) < ex_str 1 98) \<and>
        (\<forall>j. i \<le> j \<and> j < length (idx_indices ex_index) \<longrightarrow> ex_str 1 98 < ie_key (idx_indices ex_index ! j)) \<and>
        start = (if i = 0 then 0 else ie_offset (idx_indices ex_index ! (i - 1))) \<and>
        stop = (if i < length (idx_indices ex_index) then Some (ie_offset (idx_indices ex_index ! i)) else None)
    | _ \<Rightarrow> False"
    by (rule index_find_brackets)
qed

text \<open>The index block round-trips: what the writer stores, the opener reads back.\<close>

theorem index_round_trip:
  assumes "\<forall>e \<in> set ies. index_entry_ok e"
  shows "index_from_bytes (index_to_bytes (index_of ies)) = Ok (index_of ies)"
  by (rule index_from_bytes_to_bytes [OF assms])

theorem index_round_trip_witness:
  "index_from_bytes (index_to_bytes (index_of [\<lparr>ie_key = ex_str 1 97, ie_offset = 300\<rparr>])) =
    (Ok (index_of [\<lparr>ie_key = ex_str 1 97, ie_offset = 300\<rparr>]) :: (io_error, segment_index) res)"
proof -
  have "\<forall>e \<in> set [\<lparr>ie_key = ex_str 1 97, ie_offset = 300\<rparr>]. index_entry_ok e" by code_simp
  then show ?thesis by (rule index_round_trip)
qed

text \<open>A run of entries round-trips through both readers, and the reader of the merge
  buffers also stops cleanly at an entry that its byte budget cut off.\<close>

theorem entries_round_trip:
  assumes "\<forall>e \<in> set es. sst_entry_ok e"
    and "length rest \<le> 4 \<or> 4 + le_nat (take 4 rest) > length rest"
  shows "vec_from_bytes (data_block es) = (Ok es :: (io_error, sst_entry list) res) \<and>
    deque_from_bytes (data_block es @ rest) = (Ok es :: (io_error, sst_entry list) res)"
  unfolding data_block_def
  using vec_from_bytes_frames [OF assms(1)] deque_from_bytes_frames [OF assms] by blast

theorem entries_round_trip_witness:
  "vec_from_bytes (data_block (sorted_entries ex_table)) = (Ok (sorted_entries ex_table) :: (io_error, sst_entry list) res) \<and>
    deque_from_bytes (data_block (sorted_entries ex_table) @ [30, 0, 0, 0, 1]) =
      (Ok (sorted_entries ex_table) :: (io_error, sst_entry list) res)"
proof (rule entries_round_trip)
  show "\<forall>e \<in> set (sorted_entries ex_table). sst_entry_ok e"
    using sorted_entries_ok [OF ex_table_ok(1)] by (simp add: entries_ok_def)
qed simp


section \<open>The table\<close>

text \<open>C22: Level zero answers with the newest entry: nothing exactly when no segment holds the
  key, and otherwise an entry of some segment whose sequence number no other segment exceeds.\<close>

theorem level_zero_newest:
  assumes "overlapping_inv level fs" "fs_faults fs = []"
  shows "\<exists>r. overlapping_get level key fs = (Ok r, fs) \<and>
    (r = None \<longleftrightarrow> (\<forall>seg \<in> set (ol_segments level). segment_get seg key fs = (Ok None, fs))) \<and>
    (\<forall>e. r = Some e \<longrightarrow>
      (\<exists>seg \<in> set (ol_segments level). segment_get seg key fs = (Ok (Some e), fs)) \<and>
      (\<forall>seg \<in> set (ol_segments level). \<forall>x. segment_get seg key fs = (Ok (Some x), fs) \<longrightarrow> se_seq x \<le> se_seq e))"
proof -
  have g: "segment_get seg key fs = (Ok (segment_map fs seg key), fs)" if "seg \<in> set (ol_segments level)" for seg
    using segment_get_map assms that by (auto simp: overlapping_inv_def)
  have "overlapping_get level key fs = (Ok (overlapping_contents level fs key), fs)"
    by (rule level_zero.level_get_contents) (use assms in simp_all)
  then show ?thesis
    using fold_newest [OF refl, of "\<lambda>seg. segment_map fs seg key" "ol_segments level" None] g
    by (auto simp: overlapping_contents_def)
qed

theorem level_zero_newest_witness:
  "\<exists>seg fs r. overlapping_get \<lparr>ol_segments = [seg], ol_target_size = 0\<rparr> (ex_str 1 97) fs = (Ok r, fs) \<and> r \<noteq> None"
proof -
  obtain ps seg fs where s: "segment_of seg (sorted_entries ex_table) ps" "sg_path seg = sst_path ex_sst_dir 0 1"
    "fs_content fs = (fs_content ex_sst_fs)(sst_path ex_sst_dir 0 1 \<mapsto> segment_image (sorted_entries ex_table) ps)"
    "fs_faults fs = []"
    using flusher_flush_returns [OF ex_sst_inv _ ex_table_ok, of 1]
    by (auto simp: container_new_def overlapping_new_def)
  then have "segment_on fs seg" unfolding segment_on_def by (auto simp: segment_image_def)
  then have "overlapping_inv \<lparr>ol_segments = [seg], ol_target_size = 0\<rparr> fs" by (simp add: overlapping_inv_def)
  from level_zero_newest [OF this s(4), of "ex_str 1 97"] obtain r where
    r: "overlapping_get \<lparr>ol_segments = [seg], ol_target_size = 0\<rparr> (ex_str 1 97) fs = (Ok r, fs)"
    "r = None \<longleftrightarrow> segment_get seg (ex_str 1 97) fs = (Ok None, fs)" by auto
  have "map_of ex_table (ex_str 1 97) \<noteq> None" by code_simp
  then have "segment_get seg (ex_str 1 97) fs \<noteq> (Ok None, fs)"
    using segment_get_lookup [OF s(1,4), of _ "ex_str 1 97"] s(2,3) lookup_sorted_entries [OF ex_table_ok(1)]
    by (auto simp: segment_image_def)
  then show ?thesis using r by blast
qed

text \<open>C12: A flush returns and puts the table on top of what was stored: afterwards every key of
  the table reads as its entry there, every other key as before, and no file outside the
  table's directory has changed.\<close>

theorem flush_adds_table:
  assumes inv: "sst_inv dir sparsity lc fs" and nf: "fs_faults fs = []"
    and tab: "table_ok table" "table \<noteq> []" "2 * table_bytes table < 2 ^ 64" "newer table (sst_stored lc fs)"
    and room: "highest_number (ol_segments (lc_level_zero lc)) 0 + 1 < 16 ^ 8"
  shows "\<exists>lc' fs'. flusher_flush dir sparsity table (lc, fs) = (Ok (), lc', fs') \<and> sst_inv dir sparsity lc' fs' \<and>
    (\<forall>p. \<not> in_dir dir p \<longrightarrow> fs_content fs' p = fs_content fs p) \<and>
    (\<forall>key. \<exists>r r'. sstable_get lc key fs = (Ok r, fs) \<and> sstable_get lc' key fs' = (Ok r', fs') \<and>
      map_option stored_value r' = (case map_of table key of Some v \<Rightarrow> Some v | None \<Rightarrow> map_option stored_value r))"
proof -
  obtain lc' fs' where run: "flusher_flush dir sparsity table (lc, fs) = (Ok (), lc', fs')"
    using flusher_flush_returns [OF inv nf tab(1-3) refl room] by blast
  note st = flusher_flush_stored [OF inv nf tab run]
  have "sstable_get lc key fs = (Ok (sstable_contents lc fs key), fs)"
    "sstable_get lc' key fs' = (Ok (sstable_contents lc' fs' key), fs')" for key
    by (rule sstable_get_contents; use inv nf st in \<open>blast intro: sst_inv_sstable\<close>)+
  moreover have "map_option stored_value (sstable_contents lc' fs' key) =
      (case map_of table key of Some v \<Rightarrow> Some v | None \<Rightarrow> map_option stored_value (sstable_contents lc fs key))" for key
  proof -
    have "sst_stored lc' fs' key = (sst_stored lc fs ++ map_of table) key" using st by simp
    then show ?thesis by (cases "map_of table key") (simp_all add: sst_stored_def map_add_def)
  qed
  ultimately show ?thesis using run st by blast
qed

theorem flush_adds_table_witness:
  "\<exists>lc' fs' r. flusher_flush ex_sst_dir 1 ex_table (container_new 100, ex_sst_fs) = (Ok (), lc', fs') \<and>
    sstable_get lc' (ex_str 1 98) fs' = (Ok r, fs') \<and>
    map_option stored_value r = Some \<lparr>mv_value = Some (ex_str 2 120), mv_seq = 7\<rparr>"
proof -
  have "highest_number (ol_segments (lc_level_zero (container_new 100))) 0 + 1 < 16 ^ 8" by code_simp
  moreover have "newer ex_table (sst_stored (container_new 100) ex_sst_fs)"
    by (simp add: newer_def sst_stored_def sstable_contents_def upper_contents_def container_new_def
        overlapping_contents_def overlapping_new_def)
  moreover have "map_of ex_table (ex_str 1 98) = Some \<lparr>mv_value = Some (ex_str 2 120), mv_seq = 7\<rparr>" by code_simp
  ultimately show ?thesis
    using flush_adds_table [OF ex_sst_inv _ ex_table_ok] by (fastforce split: option.splits)
qed

section \<open>Compaction\<close>

text \<open>A notified compaction of one flushed segment returns, empties level zero, and changes
  no answer: every key reads as before, from the copy on level one; the old file is deleted
  as soon as no reader holds it.\<close>

theorem compaction_keeps_reads:
  assumes seg: "segment_of seg es ps" "es \<noteq> []" and fs: "fs_faults fs = []"
    "fs_content fs (sg_path seg) = Some (data_block es @ rest)" "rest \<noteq> []"
    and dir: "butlast (sg_path seg) = dir" "dir \<in> set (fs_dirs fs)"
    and new: "fs_content fs (sst_path dir 1 1) = None" and size: "length (data_block es) < 2 ^ 23"
    and lc: "lc = \<lparr>lc_level_zero = \<lparr>ol_segments = [seg], ol_target_size = target\<rparr>, lc_partitioned_levels = []\<rparr>"
    and over: "target < sg_size seg" "0 < sg_number seg"
    and next_size: "2 * length (data_block es) + 12 \<le> target * factor" "target * factor < 2 ^ 64"
  shows "\<exists>lc' pending' fs'. bt_turn order factor in_use [] EvNotified (lc, [], fs) =
      Some (Ok True, lc', pending', fs') \<and> ol_segments (lc_level_zero lc') = [] \<and>
    (\<forall>key. sstable_get lc key fs = (Ok (lookup_entry es key), fs) \<and>
      sstable_get lc' key fs' = (Ok (lookup_entry es key), fs')) \<and>
    pending' = filter in_use [seg] \<and> (\<not> in_use seg \<longrightarrow> fs_content fs' (sg_path seg) = None)"
  by (rule bt_turn_single [OF assms])

theorem compaction_keeps_reads_witness:
  "\<exists>seg fs lc' pending' fs'. bt_turn (\<lambda>xs. xs) 100 (\<lambda>_. False) [] EvNotified
      (\<lparr>lc_level_zero = \<lparr>ol_segments = [seg], ol_target_size = 10\<rparr>, lc_partitioned_levels = []\<rparr>, [], fs) =
        Some (Ok True, lc', pending', fs') \<and>
    sstable_get lc' (ex_str 1 98) fs' = (Ok (lookup_entry (sorted_entries ex_table) (ex_str 1 98)), fs')"
proof -
  let ?es = "sorted_entries ex_table"
  let ?fs0 = "ex_sst_fs"
  have n: "(1 :: nat) < 16 ^ 8" by simp
  obtain ps fs where im: "points_ok ?es ps"
    "fs_content fs = (fs_content ?fs0)(sst_path ex_sst_dir 0 1 \<mapsto> segment_image ?es ps)"
    "fs_dirs fs = fs_dirs ?fs0" "fs_faults fs = []"
    using segment_file_from_memtable_image [OF ex_table_ok(1), of 1 1 ?fs0 ex_sst_dir] by auto
  have run: "run_ok ?es ps"
    using sorted_entries_ok [OF ex_table_ok(1)] im(1) by (simp add: run_ok_def) code_simp
  have name: "sst_path ex_sst_dir 0 1 \<noteq> []"
    "level_and_segment_number (last (sst_path ex_sst_dir 0 1)) = (Ok (0, 1) :: (segment_open_error, nat \<times> nat) res)"
    using sst_path_parses [OF n] by (simp_all add: sst_path_def)
  obtain seg where seg: "segment_of seg ?es ps" "sg_path seg = sst_path ex_sst_dir 0 1" "sg_number seg = 1"
    "sg_size seg = length (segment_image ?es ps)"
    using segment_from_file_image [OF run im(4) _ name] im(2) by auto
  have len: "length (data_block ?es) = 46" by code_simp
  have e: "?es \<noteq> []" by code_simp
  have c: "fs_content fs (sg_path seg) = Some (data_block ?es @ index_to_bytes (index_of (index_points ?es ps)) @
      footer_to_bytes (length (data_block ?es)))"
    by (simp add: im(2) seg(2) segment_image_def)
  have d: "butlast (sg_path seg) = ex_sst_dir" "ex_sst_dir \<in> set (fs_dirs fs)"
    by (simp_all add: seg(2) sst_path_def im(3))
  have nw: "fs_content fs (sst_path ex_sst_dir 1 1) = None"
  proof -
    have "sst_path ex_sst_dir 1 1 \<noteq> sst_path ex_sst_dir 0 1" by code_simp
    then show ?thesis by (simp add: im(2))
  qed
  have sz: "length (data_block ?es) < 2 ^ 23" "(10 :: nat) < sg_size seg" "0 < sg_number seg"
    "2 * length (data_block ?es) + 12 \<le> 10 * 100" "(10 :: nat) * 100 < 2 ^ 64"
    using seg(3,4) by (simp_all add: len segment_image_def)
  have r: "index_to_bytes (index_of (index_points ?es ps)) @ footer_to_bytes (length (data_block ?es)) \<noteq> []"
    by (simp add: footer_to_bytes_def MAGIC_BYTES_def)
  from compaction_keeps_reads [OF seg(1) e im(4) c r d nw sz(1) refl sz(2-5), of "\<lambda>xs. xs" "\<lambda>_. False"]
  show ?thesis by blast
qed

text \<open>A turn after the timeout with no level over its size leaves the container alone,
  deletes exactly the waiting files no reader holds, and changes no answer.\<close>

theorem idle_turn_keeps_reads:
  assumes "sst_inv dir sparsity lc fs" "fs_faults fs = []"
    and "\<forall>level \<in> set (lc_partitioned_levels lc). \<not> partitioned_exceeds level"
    and "sg_path ` set pending \<inter> sg_path ` all_segments lc = {}"
    and "bt_turn order factor in_use [] EvTimedOut (lc, pending, fs) = Some (r, lc', pending', fs')"
  shows "r = Ok True \<and> lc' = lc \<and> set pending' = {seg \<in> set pending. in_use seg} \<and>
    sstable_get lc' key fs' = (fst (sstable_get lc key fs), fs')"
  by (rule bt_turn_idle_reads [OF assms])

theorem idle_turn_keeps_reads_witness:
  "\<exists>lc' pending' fs'. bt_turn (\<lambda>xs. xs) 10 (\<lambda>_. True) [] EvTimedOut (container_new 100, [], ex_sst_fs) =
      Some (Ok True, lc', pending', fs') \<and>
    sstable_get lc' (ex_str 1 97) fs' = (fst (sstable_get (container_new 100) (ex_str 1 97) ex_sst_fs), fs')"
proof -
  have idle: "\<forall>level \<in> set (lc_partitioned_levels (container_new 100)). \<not> partitioned_exceeds level"
    by (simp add: container_new_def)
  obtain r lc' pending' fs' where t: "bt_turn (\<lambda>xs. xs) 10 (\<lambda>_. True) [] EvTimedOut (container_new 100, [], ex_sst_fs) =
      Some (r, lc', pending', fs')"
    using bt_turn_idle [OF idle, of "\<lambda>xs. xs" 10 "\<lambda>_. True" "[]" "[]" ex_sst_fs]
    by (cases "remove_segment_files (\<lambda>_. True) ([], ex_sst_fs)") auto
  from idle_turn_keeps_reads [OF ex_sst_inv _ idle _ t] t show ?thesis by auto
qed



text \<open>C34: The merge of two buffers whose key ranges do not meet ends, whatever the iteration
  order of the hash map: it emits the lower buffer in full and leaves the other untouched.\<close>

theorem merge_disjoint_buffers:
  assumes "order_ok order"
    and "buf_ok lo" "rb_buf lo \<noteq> []" "rb_buf hi \<noteq> []"
    and "\<forall>e \<in> set (rb_buf lo). se_key e \<le> se_key (last (rb_buf lo))"
    and "se_key (last (rb_buf lo)) < se_key (hd (rb_buf hi))"
    and "se_key (hd (rb_buf hi)) \<le> se_key (last (rb_buf hi))" "as_bytes (se_key (last (rb_buf lo))) \<noteq> []"
  shows "merge_sort order [lo, hi] = Some (Ok (rb_buf lo,
    [lo\<lparr>rb_size := rb_size lo - length (data_block (rb_buf lo)), rb_buf := []\<rparr>, hi]))"
  by (rule merge_sort_disjoint [of order lo hi, OF assms])

definition ex_buf :: "sst_entry list \<Rightarrow> segment_read_buf" where
  "ex_buf es = push_entries es (read_buf_new \<lparr>sg_path = [], sg_index = index_new, sg_highest_sequence_no = 0,
    sg_size = 0, sg_data_block_end = 0, sg_level_number = 0, sg_number = 1, sg_first_key = rs [], sg_last_key = rs []\<rparr> 1000)"

definition ex_sst_entry :: "u8 \<Rightarrow> nat \<Rightarrow> sst_entry" where
  "ex_sst_entry c n = \<lparr>se_key = ex_str 1 c, se_value = Some (ex_str 2 c), se_seq = n\<rparr>"

theorem merge_disjoint_buffers_witness:
  "merge_sort rev [ex_buf [ex_sst_entry 97 1, ex_sst_entry 98 2], ex_buf [ex_sst_entry 99 3]] =
    Some (Ok ([ex_sst_entry 97 1, ex_sst_entry 98 2],
      [ex_buf [ex_sst_entry 97 1, ex_sst_entry 98 2]\<lparr>rb_size := 0, rb_buf := []\<rparr>, ex_buf [ex_sst_entry 99 3]]))"
proof -
  let ?lo = "ex_buf [ex_sst_entry 97 1, ex_sst_entry 98 2]" and ?hi = "ex_buf [ex_sst_entry 99 3]"
  have b: "rb_buf ?lo = [ex_sst_entry 97 1, ex_sst_entry 98 2]" "rb_buf ?hi = [ex_sst_entry 99 3]"
    "rb_size ?lo = length (data_block (rb_buf ?lo))" by code_simp+
  have z: "rb_size ?lo - length (data_block (rb_buf ?lo)) = 0" by code_simp
  have k: "ex_str 1 97 < ex_str 1 98" "ex_str 1 98 < ex_str 1 99" "as_bytes (ex_str 1 98) \<noteq> []" by code_simp+
  have "merge_sort rev [?lo, ?hi] = Some (Ok (rb_buf ?lo,
      [?lo\<lparr>rb_size := rb_size ?lo - length (data_block (rb_buf ?lo)), rb_buf := []\<rparr>, ?hi]))"
    by (rule merge_disjoint_buffers) (use b k in \<open>auto simp: buf_ok_def ex_sst_entry_def order_ok_def\<close>)
  then show ?thesis unfolding z unfolding b(1) .
qed




definition ex_bufs :: read_bufs where
  "ex_bufs = [ex_buf [ex_sst_entry 97 1, ex_sst_entry 99 2], ex_buf [ex_sst_entry 97 3, ex_sst_entry 99 4],
     ex_buf [ex_sst_entry 98 5, ex_sst_entry 100 6]]"

definition ex_popped :: "sst_entry \<times> read_bufs" where
  "ex_popped = (case bind_res (front_entry ex_bufs 0) (\<lambda>e0. ms_pop_newest [0, 1] ex_bufs e0) of
     Ok p \<Rightarrow> p | _ \<Rightarrow> (ex_sst_entry 0 0, []))"


end
