(* ===== verification/System_Properties.thy ===== *)
theory System_Properties
  imports Engine_System Engine_Properties Sst_Properties
begin

text \<open>
  The properties of the engine together with its compaction thread.
\<close>

text \<open>The engine and its compaction thread together are a map: from a new store, through any
  interleaving of acknowledged commands, flushes, timeouts of the thread and the first
  compaction into level one, every \<open>get\<close> was answered with what the commands before it left,
  every key reads as the commands left it, and the thread never gets stuck in such a turn.\<close>

theorem calm_system_refines_map:
  assumes new: "storage_engine_new crc order0 conf fs = Some (Ok en0, fs0)" "new_store conf fs" "conf_ok conf"
    and run: "calm_run crc order conf (en0, [], fs0) evs (en, pending, fs')"
  shows "trace_agrees evs Map.empty \<and>
    (\<forall>key. engine_get key (en, fs') = (Ok (trace_final evs Map.empty key), en, fs')) \<and>
    (\<forall>in_use ev. calm_turn conf (en_levels en) in_use ev \<longrightarrow>
      (\<exists>s. calm_run crc order conf (en0, [], fs0) (evs @ [SysTurn ev]) s))"
proof -
  have s0: "system_inv crc conf (en0, [], fs0)" "engine_view en0 fs0 = Map.empty"
    using storage_engine_new_system [OF new] storage_engine_new_inv [OF new] by auto
  have s: "system_inv crc conf (en, pending, fs')" "engine_view en fs' = trace_final evs Map.empty"
    "trace_agrees evs Map.empty"
    using calm_run_view [OF run refl s0] by auto
  have "\<exists>s. calm_run crc order conf (en0, [], fs0) (evs @ [SysTurn ev]) s"
    if "calm_turn conf (en_levels en) in_use ev" for in_use ev
    using turn_keeps [OF s(1) that, of order] run_turn [OF run that] by blast
  then show ?thesis
    using s engine_get_view [of crc conf en fs'] by (simp add: system_inv_def)
qed

definition ex_small_conf :: engine_conf where
  "ex_small_conf = ex_conf\<lparr>cf_level_zero_size := 10, cf_level_factor := 100\<rparr>"

definition ex_small_ok :: bool where
  "ex_small_ok = (case storage_engine_new ex_crc (\<lambda>xs. xs) ex_small_conf ex_store_fs of Some (Ok en, fs) \<Rightarrow>
     (case engine_run ex_crc (conf_flusher ex_small_conf) ex_cmds (en, fs) of
        (answers, en', fs') \<Rightarrow> list_all is_Ok answers \<and> first_compaction ex_small_conf (en_levels en') (\<lambda>_. False))
   | _ \<Rightarrow> False)"

lemma ex_small_run: "ex_small_ok"
  by code_simp

theorem calm_system_refines_map_witness:
  "\<exists>en0 fs0 evs en pending fs. storage_engine_new ex_crc (\<lambda>xs. xs) ex_small_conf ex_store_fs = Some (Ok en0, fs0) \<and>
    calm_run ex_crc (\<lambda>xs. xs) ex_small_conf (en0, [], fs0) (evs @ [SysTurn EvNotified]) (en, pending, fs) \<and>
    engine_get (ex_str 1 97) (en, fs) = (Ok (Some (ex_str 3 98)), en, fs)"
proof -
  note ok = ex_small_run [unfolded ex_small_ok_def]
  obtain r0 fs0 where e0: "storage_engine_new ex_crc (\<lambda>xs. xs) ex_small_conf ex_store_fs = Some (r0, fs0)"
    using ok by (cases "storage_engine_new ex_crc (\<lambda>xs. xs) ex_small_conf ex_store_fs") auto
  obtain en0 where r0: "r0 = Ok en0" using ok by (cases r0) (simp_all add: e0)
  note e = e0 [unfolded r0]
  obtain answers en1 fs1 where r: "engine_run ex_crc (conf_flusher ex_small_conf) ex_cmds (en0, fs0) = (answers, en1, fs1)"
    by (cases "engine_run ex_crc (conf_flusher ex_small_conf) ex_cmds (en0, fs0)") auto
  have a: "\<forall>r \<in> set answers. is_Ok r" "first_compaction ex_small_conf (en_levels en1) (\<lambda>_. False)"
    using ok by (simp_all add: e r list_all_iff)
  have new: "new_store ex_small_conf ex_store_fs" "conf_ok ex_small_conf"
    using ex_conf_ok by (simp_all add: new_store_def conf_ok_def ex_small_conf_def)
  obtain evs where run: "calm_run ex_crc (\<lambda>xs. xs) ex_small_conf (en0, [], fs0) evs (en1, [], fs1)"
    "trace_final evs = spec_final ex_cmds"
    using calm_run_commands [OF run_start ex_cmds_small r a(1), of "\<lambda>xs. xs"] by auto
  have "calm_turn ex_small_conf (en_levels en1) (\<lambda>_. False) EvNotified" using a(2) by (simp add: calm_turn_def)
  then obtain en pending fs where run2: "calm_run ex_crc (\<lambda>xs. xs) ex_small_conf (en0, [], fs0) (evs @ [SysTurn EvNotified]) (en, pending, fs)"
    using calm_system_refines_map [OF e new run(1)] by (metis prod_cases3)
  have "spec_final ex_cmds Map.empty (ex_str 1 97) = Some (ex_str 3 98)" by code_simp
  then have "engine_get (ex_str 1 97) (en, fs) = (Ok (Some (ex_str 3 98)), en, fs)"
    using calm_system_refines_map [OF e new run2] run(2) by simp
  then show ?thesis using e run2 by blast
qed


definition ex_first_flush :: "(io_error, unit) res \<times> level_container \<times> file_system" where
  "ex_first_flush = flusher_flush ex_sst_dir 1 ex_table (container_new 100, ex_sst_fs)"

definition ex_second_flush :: "level_container \<Rightarrow> file_system \<Rightarrow> (io_error, unit) res \<times> level_container \<times> file_system" where
  "ex_second_flush lc fs = flusher_flush ex_sst_dir 1 ex_table (swap_all_levels [] lc, fs)"

definition ex_flushed_twice :: bool where
  "ex_flushed_twice = (case ex_first_flush of (_, lc, fs) \<Rightarrow> is_Ok (fst (ex_second_flush lc fs)) \<and>
     fs_faults fs = [] \<and> sg_path (hd (ol_segments (lc_level_zero lc))) = sst_path ex_sst_dir 0 1)"

lemma ex_flushed_twice_run: "ex_flushed_twice"
  by code_simp


end
