(* ===== verification/Restart_Properties.thy ===== *)
theory Restart_Properties
  imports Engine_Restart System_Properties
begin

text \<open>
  The properties of a restarted engine: what was acknowledged is there again, after flushes
  and compactions, and after a stop in the middle of a write.
\<close>

section \<open>Durability\<close>


definition ex_small_lsn :: bool where
  "ex_small_lsn = (case storage_engine_new ex_crc (\<lambda>xs. xs) ex_small_conf ex_store_fs of Some (Ok en, fs) \<Rightarrow>
     (case engine_run ex_crc (conf_flusher ex_small_conf) ex_cmds (en, fs) of
        (answers, en', fs') \<Rightarrow> wal_lsn (ww_wal (en_worker en')) < 1000)
   | _ \<Rightarrow> False)"

lemma ex_small_lsn_ok: "ex_small_lsn"
  by code_simp


text \<open>C6: A stop in the middle of a write loses that write only: after any calm run, let the append
  of a put or delete fail after \<open>n\<close> bytes, at least the header of its entry and not all of it,
  in a table and a log segment that have room.  The caller gets an I/O error, the running
  engine is unchanged, and an engine started on the torn file reads every key as the
  acknowledged commands left it.\<close>

theorem torn_write_loses_nothing_else:
  assumes new: "storage_engine_new crc order0 conf fs = Some (Ok en0, fs0)" "new_store conf fs" "conf_ok conf"
    and run: "calm_run crc order conf (en0, [], fs0) evs (en, pending, fs1)"
    and lsn: "wal_lsn (ww_wal (en_worker en)) < 2 ^ 63"
    and room: "ww_current_size (en_worker en) < ww_max_size (en_worker en)"
      "seg_file_size (wal_active (ww_wal (en_worker en))) + length (wal_frame crc e) \<le> cf_segment_size conf"
    and cmd: "command_job cmd = Some job" "job_entry (wal_lsn (ww_wal (en_worker en))) job = Some e" "wal_entry_ok e"
    and torn: "HEADER_SIZE \<le> n" "n < length (wal_frame crc e)"
      "engine_exec crc (conf_flusher conf) cmd (en, fs1\<lparr>fs_faults := [Some n]\<rparr>) = (r, en2, fs2)"
  shows "r = Err EngIoError \<and> en2 = en \<and>
    (\<exists>en' fs'. storage_engine_new crc order1 conf (fs2\<lparr>fs_faults := []\<rparr>) = Some (Ok en', fs') \<and>
      (\<forall>key. engine_get key (en', fs') = (Ok (trace_final evs Map.empty key), en', fs')))"
proof -
  have s0: "system_inv crc conf (en0, [], fs0)" "engine_view en0 fs0 = Map.empty"
    using storage_engine_new_system [OF new] storage_engine_new_inv [OF new] by auto
  have s: "engine_inv crc conf en fs1" "engine_view en fs1 = trace_final evs Map.empty"
    using calm_run_view [OF run refl s0] by (auto simp: system_inv_def)
  have re: "restartable conf en fs1"
    using calm_run_restartable [OF run refl s0(1) new_restartable [OF new]] by simp
  from engine_torn_restart [OF s(1) re lsn room(1) cmd torn(1,2) room(2) torn(3), of order1] show ?thesis
    by (simp only: s(2))
qed

definition ex_torn_conf :: engine_conf where
  "ex_torn_conf = ex_conf\<lparr>cf_memtable_max_size := 100\<rparr>"

definition ex_torn_ok :: bool where
  "ex_torn_ok = (case storage_engine_new ex_crc (\<lambda>xs. xs) ex_torn_conf ex_store_fs of Some (Ok en, fs) \<Rightarrow>
     (case engine_run ex_crc (conf_flusher ex_torn_conf) ex_cmds (en, fs) of
        (answers, en', fs') \<Rightarrow> list_all is_Ok answers \<and> wal_lsn (ww_wal (en_worker en')) < 1000 \<and>
          ww_current_size (en_worker en') < ww_max_size (en_worker en') \<and>
          (case job_entry (wal_lsn (ww_wal (en_worker en'))) (JobPut (ex_str 1 97) (ex_str 1 98)) of None \<Rightarrow> False
           | Some e \<Rightarrow> length (wal_body e) < 100 \<and> 20 < length (wal_frame ex_crc e) \<and>
               seg_file_size (wal_active (ww_wal (en_worker en'))) + length (wal_frame ex_crc e) \<le> cf_segment_size ex_torn_conf))
   | _ \<Rightarrow> False)"

lemma ex_torn_run: "ex_torn_ok"
  by code_simp

theorem torn_write_loses_nothing_else_witness:
  "\<exists>en fs1 en2 fs2 en' fs'. engine_exec ex_crc (conf_flusher ex_torn_conf) (CmdPut (ex_str 1 97) (ex_str 1 98))
      (en, fs1\<lparr>fs_faults := [Some 20]\<rparr>) = (Err EngIoError, en2, fs2) \<and>
    storage_engine_new ex_crc (\<lambda>xs. xs) ex_torn_conf (fs2\<lparr>fs_faults := []\<rparr>) = Some (Ok en', fs') \<and>
    engine_get (ex_str 1 97) (en', fs') = (Ok (Some (ex_str 3 98)), en', fs')"
proof -
  let ?cmd = "CmdPut (ex_str 1 97) (ex_str 1 98)"
  note ok = ex_torn_run [unfolded ex_torn_ok_def]
  obtain r0 fs0 where e0: "storage_engine_new ex_crc (\<lambda>xs. xs) ex_torn_conf ex_store_fs = Some (r0, fs0)"
    using ok by (cases "storage_engine_new ex_crc (\<lambda>xs. xs) ex_torn_conf ex_store_fs") auto
  obtain en0 where r0: "r0 = Ok en0" using ok by (cases r0) (simp_all add: e0)
  note new = e0 [unfolded r0]
  obtain answers en fs1 where r: "engine_run ex_crc (conf_flusher ex_torn_conf) ex_cmds (en0, fs0) = (answers, en, fs1)"
    by (cases "engine_run ex_crc (conf_flusher ex_torn_conf) ex_cmds (en0, fs0)") auto
  let ?lsn = "wal_lsn (ww_wal (en_worker en))"
  let ?e = "\<lparr>we_op = OpPut, we_key = ex_str 1 97, we_value = Some (ex_str 1 98), we_seq = ?lsn\<rparr>"
  have a: "\<forall>r \<in> set answers. is_Ok r" "?lsn < 1000" "ww_current_size (en_worker en) < ww_max_size (en_worker en)"
    "length (wal_body ?e) < 100" "20 < length (wal_frame ex_crc ?e)"
    "seg_file_size (wal_active (ww_wal (en_worker en))) + length (wal_frame ex_crc ?e) \<le> cf_segment_size ex_torn_conf"
    using ok by (simp_all add: new r list_all_iff)
  have conf: "new_store ex_torn_conf ex_store_fs" "conf_ok ex_torn_conf"
    using ex_conf_ok by (simp_all add: new_store_def conf_ok_def ex_torn_conf_def)
  obtain evs where run: "calm_run ex_crc (\<lambda>xs. xs) ex_torn_conf (en0, [], fs0) evs (en, [], fs1)"
    "trace_final evs = spec_final ex_cmds"
    using calm_run_commands [OF run_start ex_cmds_small r a(1), of "\<lambda>xs. xs"] by auto
  have "as_bytes (ex_str 1 97) \<noteq> []" by code_simp
  then have e: "wal_entry_ok ?e" "?lsn < 2 ^ 63" using a(2,4) by (simp_all add: wal_entry_ok_def)
  have h: "HEADER_SIZE \<le> 20" "command_job ?cmd = Some (JobPut (ex_str 1 97) (ex_str 1 98))"
    "job_entry ?lsn (JobPut (ex_str 1 97) (ex_str 1 98)) = Some ?e" by (simp_all add: HEADER_SIZE_def)
  obtain r1 en2 fs2 where x: "engine_exec ex_crc (conf_flusher ex_torn_conf) ?cmd (en, fs1\<lparr>fs_faults := [Some 20]\<rparr>) = (r1, en2, fs2)"
    by (cases "engine_exec ex_crc (conf_flusher ex_torn_conf) ?cmd (en, fs1\<lparr>fs_faults := [Some 20]\<rparr>)") auto
  have "spec_final ex_cmds Map.empty (ex_str 1 97) = Some (ex_str 3 98)" by code_simp
  with torn_write_loses_nothing_else [OF new conf run(1) e(2) a(3,6) h(2,3) e(1) h(1) a(5) x, of "\<lambda>xs. xs"] x run(2)
  show ?thesis by metis
qed

end
