(* ===== verification/Compaction_Thread.thy ===== *)
theory Compaction_Thread
  imports Compaction
begin

text \<open>
  The sorted table with its background thread, step by step (\<open>SsTable::start\<close> and \<open>Drop\<close> of
  \<open>src/storage_engine/sstable.rs\<close>, \<open>CompactionBt\<close> of
  \<open>src/storage_engine/sstable/compaction.rs\<close>).  A step of the thread ends where it takes or
  gives back a lock on the container or waits; between two steps the engine threads and the
  writer run.  A turn of \<open>Compaction\<close> is a sequence of these steps.
\<close>

section \<open>The state\<close>

text \<open>
  Where the thread is: in \<open>wait_timeout\<close>; awake, with the stop flag read and the reason; about
  to look for levels over their size; with new levels in hand; behind the swap; at its end.
\<close>

datatype bt_phase =
  BtWaiting | BtWoken bool | BtFind | BtSwapAll "partitioned_level list" | BtRemove
| BtSwapPartitioned "partitioned_level list" | BtEnded | BtPanicked

record compaction_bt =
  bt_segments_to_delete :: pending
  bt_level_size_factor :: nat
  bt_phase :: bt_phase

record ss_table =
  st_inner :: level_container
  st_bt_stop :: bool
  st_bt :: compaction_bt

definition compaction_bt_new :: "nat \<Rightarrow> compaction_bt" where
  "compaction_bt_new level_size_factor =
    \<lparr>bt_segments_to_delete = [], bt_level_size_factor = level_size_factor, bt_phase = BtWaiting\<rparr>"

definition sstable_start ::
    "(nat list \<Rightarrow> nat list) \<Rightarrow> path \<Rightarrow> nat \<Rightarrow> nat \<Rightarrow> nat \<Rightarrow> ss_table part_act" where
  "sstable_start order dir level_zero_target_size level_size_factor index_sparsity_factor fs =
    map_option (\<lambda>(r, fs'). (bind_res r (\<lambda>container.
        Ok \<lparr>st_inner = container, st_bt_stop = False, st_bt = compaction_bt_new level_size_factor\<rparr>), fs'))
      (container_from_dir order dir level_zero_target_size level_size_factor index_sparsity_factor fs)"

section \<open>The steps\<close>

text \<open>A wake up tells whether the timeout had passed; a deletion, which segments are in use.\<close>

datatype thread_event = ThWake bool | ThCompact | ThSwap | ThRemove "sst_segment \<Rightarrow> bool"

definition compacted :: "(partitioned_level list \<Rightarrow> bt_phase) \<Rightarrow> bt_phase \<Rightarrow> (io_error, partitioned_level list) res \<Rightarrow> bt_phase" where
  "compacted swap failed r = (case r of Ok new_levels \<Rightarrow> swap new_levels | Err e \<Rightarrow> failed | Panic \<Rightarrow> BtPanicked)"

definition bt_step ::
    "(nat list \<Rightarrow> nat list) \<Rightarrow> bool \<Rightarrow> thread_event \<Rightarrow> level_container \<times> compaction_bt \<times> file_system \<Rightarrow>
     (level_container \<times> compaction_bt \<times> file_system) option" where
  "bt_step order stop ev = (\<lambda>(lc, bt, fs).
    let to_delete = bt_segments_to_delete bt; factor = bt_level_size_factor bt in
    case (bt_phase bt, ev) of
      (BtWaiting, ThWake timed_out) \<Rightarrow>
        Some (lc, bt\<lparr>bt_phase := if stop then BtEnded else BtWoken timed_out\<rparr>, fs)
    | (BtWoken False, ThCompact) \<Rightarrow>
        map_option (\<lambda>(r, pending, fs'). (lc, bt\<lparr>bt_segments_to_delete := pending,
            bt_phase := compacted BtSwapAll BtEnded r\<rparr>, fs'))
          (compact_from_level_zero order factor lc (to_delete, fs))
    | (BtSwapAll new_levels, ThSwap) \<Rightarrow> Some (swap_all_levels new_levels lc, bt\<lparr>bt_phase := BtRemove\<rparr>, fs)
    | (BtRemove, ThRemove in_use) \<Rightarrow>
        (case remove_segment_files in_use (to_delete, fs) of (pending, fs') \<Rightarrow>
          Some (lc, bt\<lparr>bt_segments_to_delete := pending, bt_phase := BtWaiting\<rparr>, fs'))
    | (BtWoken True, ThRemove in_use) \<Rightarrow>
        (case remove_segment_files in_use (to_delete, fs) of (pending, fs') \<Rightarrow>
          Some (lc, bt\<lparr>bt_segments_to_delete := pending, bt_phase := BtFind\<rparr>, fs'))
    | (BtFind, ThCompact) \<Rightarrow>
        (case find_partitioned_levels_to_compact lc of (keep, to_compact) \<Rightarrow>
          map_option (\<lambda>(r, pending, fs'). (lc, bt\<lparr>bt_segments_to_delete := pending,
              bt_phase := compacted (\<lambda>new_levels. BtSwapPartitioned (keep @ new_levels)) BtPanicked r\<rparr>, fs'))
            (compact_from_partitioned_level order factor to_compact (to_delete, fs)))
    | (BtSwapPartitioned new_levels, ThSwap) \<Rightarrow>
        Some (swap_partitioned_levels new_levels lc, bt\<lparr>bt_phase := BtWaiting\<rparr>, fs)
    | _ \<Rightarrow> None)"

fun bt_steps ::
    "(nat list \<Rightarrow> nat list) \<Rightarrow> bool \<Rightarrow> thread_event list \<Rightarrow> level_container \<times> compaction_bt \<times> file_system \<Rightarrow>
     (level_container \<times> compaction_bt \<times> file_system) option" where
  "bt_steps order stop [] s = Some s"
| "bt_steps order stop (ev # evs) s = Option.bind (bt_step order stop ev s) (bt_steps order stop evs)"

text \<open>\<open>Drop\<close> sets the flag, notifies, and then joins the thread.\<close>

definition sstable_drop :: "ss_table \<Rightarrow> ss_table" where
  "sstable_drop t = t\<lparr>st_bt_stop := True\<rparr>"

definition bt_joinable :: "compaction_bt \<Rightarrow> bool" where
  "bt_joinable bt \<longleftrightarrow> bt_phase bt = BtEnded \<or> bt_phase bt = BtPanicked"

section \<open>Turns are sequences of steps\<close>

lemma compacted_cases:
  "compacted BtSwapAll BtEnded r = BtSwapAll ls \<longleftrightarrow> r = Ok ls"
  "compacted (\<lambda>ls. BtSwapPartitioned (keep @ ls)) BtPanicked r = BtSwapPartitioned ls' \<longleftrightarrow>
    (\<exists>ls. r = Ok ls \<and> ls' = keep @ ls)"
  by (auto simp: compacted_def split: res.splits)

text \<open>A turn after a notification, or after the timeout, with the segments that are added while it
  merges.\<close>

lemma notified_turn_steps:
  "bt_turn order factor in_use added EvNotified (lc, pending, fs) = Some (Ok True, lc', pending', fs') \<longleftrightarrow>
   (\<exists>bt1 fs1. bt_steps order False [ThWake False, ThCompact]
        (lc, \<lparr>bt_segments_to_delete = pending, bt_level_size_factor = factor, bt_phase = BtWaiting\<rparr>, fs) = Some (lc, bt1, fs1) \<and>
      bt_steps order False [ThSwap, ThRemove in_use] (container_add added lc, bt1, fs1) =
        Some (lc', \<lparr>bt_segments_to_delete = pending', bt_level_size_factor = factor, bt_phase = BtWaiting\<rparr>, fs'))"
proof (cases "compact_from_level_zero order factor lc (pending, fs)")
  case None
  then show ?thesis by (simp add: bt_turn_def bt_step_def)
next
  case (Some x)
  obtain r pending1 fs1 where x: "x = (r, pending1, fs1)" by (cases x)
  show ?thesis
    using Some x by (cases r) (auto simp: bt_turn_def bt_step_def compacted_def split: prod.splits)
qed

lemma timed_out_turn_steps:
  "bt_turn order factor in_use added EvTimedOut (lc, pending, fs) = Some (Ok True, lc', pending', fs') \<longleftrightarrow>
   (\<exists>bt1 fs1. bt_steps order False [ThWake True, ThRemove in_use, ThCompact]
        (lc, \<lparr>bt_segments_to_delete = pending, bt_level_size_factor = factor, bt_phase = BtWaiting\<rparr>, fs) = Some (lc, bt1, fs1) \<and>
      bt_steps order False [ThSwap] (container_add added lc, bt1, fs1) =
        Some (lc', \<lparr>bt_segments_to_delete = pending', bt_level_size_factor = factor, bt_phase = BtWaiting\<rparr>, fs'))"
proof -
  obtain keep to_compact where f: "find_partitioned_levels_to_compact lc = (keep, to_compact)"
    by (cases "find_partitioned_levels_to_compact lc")
  obtain pending0 fs0 where rm: "remove_segment_files in_use (pending, fs) = (pending0, fs0)"
    by (cases "remove_segment_files in_use (pending, fs)")
  show ?thesis
  proof (cases "compact_from_partitioned_level order factor to_compact (pending0, fs0)")
    case None
    then show ?thesis by (simp add: bt_turn_def bt_step_def f rm)
  next
    case (Some x)
    obtain r pending1 fs1 where x: "x = (r, pending1, fs1)" by (cases x)
    show ?thesis
      using Some x by (cases r) (auto simp: bt_turn_def bt_step_def compacted_def f rm)
  qed
qed

section \<open>The end of the thread\<close>

text \<open>Whether the merge the thread is about to start ends.\<close>

definition merge_ends :: "(nat list \<Rightarrow> nat list) \<Rightarrow> level_container \<times> compaction_bt \<times> file_system \<Rightarrow> bool" where
  "merge_ends order = (\<lambda>(lc, bt, fs).
    let pf = (bt_segments_to_delete bt, fs); factor = bt_level_size_factor bt;
        to_compact = snd (find_partitioned_levels_to_compact lc) in
    case bt_phase bt of
      BtWoken False \<Rightarrow> compact_from_level_zero order factor lc pf \<noteq> None
    | BtWoken True \<Rightarrow> \<exists>in_use. compact_from_partitioned_level order factor to_compact (remove_segment_files in_use pf) \<noteq> None
    | BtFind \<Rightarrow> compact_from_partitioned_level order factor to_compact pf \<noteq> None
    | _ \<Rightarrow> True)"

fun steps_left :: "bt_phase \<Rightarrow> nat" where
  "steps_left BtWaiting = 1"
| "steps_left (BtWoken timed_out) = 4"
| "steps_left BtFind = 3"
| "steps_left (BtSwapAll levels) = 3"
| "steps_left BtRemove = 2"
| "steps_left (BtSwapPartitioned levels) = 2"
| "steps_left BtEnded = 0"
| "steps_left BtPanicked = 0"

lemma steps_left_compacted [simp]:
  "steps_left (compacted BtSwapAll BtEnded r) < 4"
  "steps_left (compacted (\<lambda>levels. BtSwapPartitioned (keep @ levels)) BtPanicked r) < 3"
  by (cases r; simp add: compacted_def)+

lemma bt_step_stopping:
  assumes "bt_step order True ev (lc, bt, fs) = Some (lc', bt', fs')"
  shows "steps_left (bt_phase bt') < steps_left (bt_phase bt)"
  using assms
  by (auto simp: bt_step_def Let_def split: bt_phase.splits thread_event.splits bool.splits prod.splits)

lemma bt_steps_stopping:
  "bt_steps order True evs s = Some s' \<Longrightarrow>
   length evs + steps_left (bt_phase (fst (snd s'))) \<le> steps_left (bt_phase (fst (snd s)))"
proof (induction evs arbitrary: s)
  case (Cons ev evs)
  obtain lc bt fs where s: "s = (lc, bt, fs)" by (cases s)
  from Cons.prems obtain s1 where e: "bt_step order True ev s = Some s1" "bt_steps order True evs s1 = Some s'"
    by (auto simp: bind_eq_Some_conv)
  obtain lc1 bt1 fs1 where s1: "s1 = (lc1, bt1, fs1)" by (cases s1)
  from bt_step_stopping [OF e(1) [unfolded s s1]] Cons.IH [OF e(2)] show ?case
    by (simp add: s s1)
qed simp

lemma bt_steps_append:
  "bt_steps order stop (evs @ evs') s = Option.bind (bt_steps order stop evs s) (bt_steps order stop evs')"
  by (induction evs arbitrary: s) (auto split: bind_splits)

lemma bt_steps_Cons:
  "bt_step order stop ev s = Some s1 \<Longrightarrow> bt_steps order stop evs s1 = Some s2 \<Longrightarrow>
   bt_steps order stop (ev # evs) s = Some s2"
  by simp

text \<open>From each phase the thread that is told to stop has a way to its end.\<close>

definition can_end :: "(nat list \<Rightarrow> nat list) \<Rightarrow> level_container \<times> compaction_bt \<times> file_system \<Rightarrow> bool" where
  "can_end order s \<longleftrightarrow> (\<exists>evs lc bt fs. bt_steps order True evs s = Some (lc, bt, fs) \<and> bt_joinable bt)"

lemma can_end_joinable: "bt_joinable (fst (snd s)) \<Longrightarrow> can_end order s"
  unfolding can_end_def by (cases s, rule exI [of _ "[]"]) auto

lemma can_end_step: "bt_step order True ev s = Some s1 \<Longrightarrow> can_end order s1 \<Longrightarrow> can_end order s"
  unfolding can_end_def by (metis bt_steps_Cons)

lemma can_end_waiting:
  assumes "bt_phase bt = BtWaiting"
  shows "can_end order (lc, bt, fs)"
proof (rule can_end_step)
  show "bt_step order True (ThWake True) (lc, bt, fs) = Some (lc, bt\<lparr>bt_phase := BtEnded\<rparr>, fs)"
    using assms by (simp add: bt_step_def)
qed (simp add: can_end_joinable bt_joinable_def)

lemma can_end_removing:
  assumes "bt_phase bt = BtRemove"
  shows "can_end order (lc, bt, fs)"
proof -
  obtain pending fs' where r: "remove_segment_files (\<lambda>_. True) (bt_segments_to_delete bt, fs) = (pending, fs')"
    by (cases "remove_segment_files (\<lambda>_. True) (bt_segments_to_delete bt, fs)")
  have "bt_step order True (ThRemove (\<lambda>_. True)) (lc, bt, fs) =
      Some (lc, bt\<lparr>bt_segments_to_delete := pending, bt_phase := BtWaiting\<rparr>, fs')"
    using assms by (simp add: bt_step_def r)
  then show ?thesis by (rule can_end_step) (simp add: can_end_waiting)
qed

lemma can_end_swap_all:
  assumes "bt_phase bt = BtSwapAll levels"
  shows "can_end order (lc, bt, fs)"
proof (rule can_end_step)
  show "bt_step order True ThSwap (lc, bt, fs) = Some (swap_all_levels levels lc, bt\<lparr>bt_phase := BtRemove\<rparr>, fs)"
    using assms by (simp add: bt_step_def)
qed (simp add: can_end_removing)

lemma can_end_swap_partitioned:
  assumes "bt_phase bt = BtSwapPartitioned levels"
  shows "can_end order (lc, bt, fs)"
proof (rule can_end_step)
  show "bt_step order True ThSwap (lc, bt, fs) = Some (swap_partitioned_levels levels lc, bt\<lparr>bt_phase := BtWaiting\<rparr>, fs)"
    using assms by (simp add: bt_step_def)
qed (simp add: can_end_waiting)

lemma can_end_compacted:
  "bt_phase bt = compacted BtSwapAll BtEnded r \<Longrightarrow> can_end order (lc, bt, fs)"
  "bt_phase bt = compacted (\<lambda>levels. BtSwapPartitioned (keep @ levels)) BtPanicked r \<Longrightarrow> can_end order (lc, bt, fs)"
  by (cases r; simp add: compacted_def bt_joinable_def can_end_joinable can_end_swap_all can_end_swap_partitioned)+

text \<open>A step that leads from a phase in which the thread is about to merge.\<close>

lemma can_end_no_step:
  "\<not> bt_joinable bt \<Longrightarrow> (\<And>ev s. bt_step order True ev (lc, bt, fs) = Some s \<Longrightarrow> \<not> can_end order s) \<Longrightarrow>
   \<not> can_end order (lc, bt, fs)"
proof
  assume a: "\<not> bt_joinable bt" "\<And>ev s. bt_step order True ev (lc, bt, fs) = Some s \<Longrightarrow> \<not> can_end order s"
    and "can_end order (lc, bt, fs)"
  then obtain evs lc' bt' fs' where r: "bt_steps order True evs (lc, bt, fs) = Some (lc', bt', fs')" "bt_joinable bt'"
    by (auto simp: can_end_def)
  with a(1) obtain ev evs' where "evs = ev # evs'" by (cases evs) auto
  with r(1) obtain s where s: "bt_step order True ev (lc, bt, fs) = Some s" "bt_steps order True evs' s = Some (lc', bt', fs')"
    by (auto simp: bind_eq_Some_conv)
  then have "can_end order s" unfolding can_end_def using r(2) by blast
  then show False using a(2) [OF s(1)] by blast
qed

lemma can_end_find:
  assumes "bt_phase bt = BtFind"
  shows "can_end order (lc, bt, fs) \<longleftrightarrow> merge_ends order (lc, bt, fs)"
proof -
  obtain keep to_compact where f: "find_partitioned_levels_to_compact lc = (keep, to_compact)"
    by (cases "find_partitioned_levels_to_compact lc")
  show ?thesis
  proof (cases "compact_from_partitioned_level order (bt_level_size_factor bt) to_compact (bt_segments_to_delete bt, fs)")
    case None
    have "\<not> can_end order (lc, bt, fs)"
      by (rule can_end_no_step)
        (use assms None f in \<open>auto simp: bt_joinable_def bt_step_def split: thread_event.splits\<close>)
    then show ?thesis using assms None f by (simp add: merge_ends_def)
  next
    case (Some x)
    obtain r pending fs' where x: "x = (r, pending, fs')" by (cases x)
    have "bt_step order True ThCompact (lc, bt, fs) = Some (lc, bt\<lparr>bt_segments_to_delete := pending,
        bt_phase := compacted (\<lambda>levels. BtSwapPartitioned (keep @ levels)) BtPanicked r\<rparr>, fs')"
      using assms Some x f by (simp add: bt_step_def)
    then have "can_end order (lc, bt, fs)" by (rule can_end_step) (simp add: can_end_compacted(2))
    then show ?thesis using assms Some f x by (simp add: merge_ends_def)
  qed
qed

lemma can_end_woken_notified:
  assumes "bt_phase bt = BtWoken False"
  shows "can_end order (lc, bt, fs) \<longleftrightarrow> merge_ends order (lc, bt, fs)"
proof (cases "compact_from_level_zero order (bt_level_size_factor bt) lc (bt_segments_to_delete bt, fs)")
  case None
  have "\<not> can_end order (lc, bt, fs)"
    by (rule can_end_no_step)
      (use assms None in \<open>auto simp: bt_joinable_def bt_step_def split: thread_event.splits\<close>)
  then show ?thesis using assms None by (simp add: merge_ends_def)
next
  case (Some x)
  obtain r pending fs' where x: "x = (r, pending, fs')" by (cases x)
  have "bt_step order True ThCompact (lc, bt, fs) = Some (lc, bt\<lparr>bt_segments_to_delete := pending,
      bt_phase := compacted BtSwapAll BtEnded r\<rparr>, fs')"
    using assms Some x by (simp add: bt_step_def)
  then have "can_end order (lc, bt, fs)" by (rule can_end_step) (simp add: can_end_compacted(1))
  then show ?thesis using assms Some x by (simp add: merge_ends_def)
qed

lemma can_end_woken_timed_out:
  assumes "bt_phase bt = BtWoken True"
  shows "can_end order (lc, bt, fs) \<longleftrightarrow> merge_ends order (lc, bt, fs)"
proof -
  let ?next = "\<lambda>in_use. case remove_segment_files in_use (bt_segments_to_delete bt, fs) of (pending, fs') \<Rightarrow>
    (lc, bt\<lparr>bt_segments_to_delete := pending, bt_phase := BtFind\<rparr>, fs')"
  have st: "bt_step order True (ThRemove in_use) (lc, bt, fs) = Some (?next in_use)" for in_use
    using assms by (simp add: bt_step_def split: prod.split)
  have only: "\<exists>in_use. s = ?next in_use" if "bt_step order True ev (lc, bt, fs) = Some s" for ev s
  proof (cases ev)
    case (ThRemove in_use)
    then show ?thesis using that st [of in_use] by (intro exI [of _ in_use]) simp
  qed (use that assms in \<open>simp_all add: bt_step_def\<close>)
  have n: "can_end order (?next in_use) \<longleftrightarrow> compact_from_partitioned_level order (bt_level_size_factor bt)
      (snd (find_partitioned_levels_to_compact lc)) (remove_segment_files in_use (bt_segments_to_delete bt, fs)) \<noteq> None" for in_use
    by (simp add: can_end_find merge_ends_def split: prod.split)
  show ?thesis
  proof (cases "\<exists>in_use. can_end order (?next in_use)")
    case True
    then have "can_end order (lc, bt, fs)" using can_end_step [OF st] by blast
    then show ?thesis using True n assms by (auto simp: merge_ends_def)
  next
    case False
    have "\<not> can_end order s" if "bt_step order True ev (lc, bt, fs) = Some s" for ev s
      using only [OF that] False by metis
    then have "\<not> can_end order (lc, bt, fs)"
      by (intro can_end_no_step) (use assms in \<open>auto simp: bt_joinable_def\<close>)
    then show ?thesis using False n assms by (auto simp: merge_ends_def)
  qed
qed

lemma can_end_iff: "can_end order (lc, bt, fs) \<longleftrightarrow> merge_ends order (lc, bt, fs)"
proof (cases "bt_phase bt")
  case (BtWoken timed_out)
  then show ?thesis using can_end_woken_notified can_end_woken_timed_out by (cases timed_out) auto
qed (simp_all add: can_end_find merge_ends_def can_end_waiting can_end_removing can_end_swap_all
    can_end_swap_partitioned can_end_joinable bt_joinable_def)

end
