(* ===== verification/Engine_Thread.thy ===== *)
theory Engine_Thread
  imports Engine_System Compaction_Thread
begin

text \<open>
  The engine and the steps of its compaction thread in any interleaving: commands run between
  the snapshot, the swap and the deletion of one compaction.  A run is calm when the merges
  are first compactions (\<open>Engine_System\<close>), nobody holds the replaced segment when its file is
  deleted, and no write fills the memtable between the snapshot and the deletion; what such
  a write loses is shown last.
\<close>

section \<open>Runs\<close>

datatype thread_sys_event = TsCommand command "rstring option" | TsThread thread_event

type_synonym thread_system = "engine \<times> compaction_bt \<times> file_system"

definition no_flush :: "engine \<Rightarrow> command \<Rightarrow> bool" where
  "no_flush en cmd \<longleftrightarrow> (case cmd of CmdGet key \<Rightarrow> True
     | _ \<Rightarrow> ww_current_size (en_worker en) < ww_max_size (en_worker en))"

definition swapping :: "bt_phase \<Rightarrow> bool" where
  "swapping ph = (case ph of BtSwapAll levels \<Rightarrow> True | BtRemove \<Rightarrow> True | _ \<Rightarrow> False)"

definition thread_calm :: "engine_conf \<Rightarrow> level_container \<Rightarrow> compaction_bt \<Rightarrow> thread_event \<Rightarrow> bool" where
  "thread_calm conf lc bt ev = (case (bt_phase bt, ev) of
     (BtWoken False, ThCompact) \<Rightarrow> first_compaction conf lc (\<lambda>_. False)
   | (BtRemove, ThRemove in_use) \<Rightarrow> \<forall>seg \<in> set (bt_segments_to_delete bt). \<not> in_use seg
   | _ \<Rightarrow> True)"

inductive thread_run ::
    "crc_fun \<Rightarrow> (nat list \<Rightarrow> nat list) \<Rightarrow> engine_conf \<Rightarrow> thread_system \<Rightarrow> thread_sys_event list \<Rightarrow> thread_system \<Rightarrow> bool"
  for crc order conf s0 where
  tr_start: "thread_run crc order conf s0 [] s0"
| tr_command: "thread_run crc order conf s0 evs (en, bt, fs) \<Longrightarrow> command_small cmd \<Longrightarrow>
    swapping (bt_phase bt) \<longrightarrow> no_flush en cmd \<Longrightarrow>
    engine_exec crc (conf_flusher conf) cmd (en, fs) = (Ok r, en', fs') \<Longrightarrow>
    thread_run crc order conf s0 (evs @ [TsCommand cmd r]) (en', bt, fs')"
| tr_thread: "thread_run crc order conf s0 evs (en, bt, fs) \<Longrightarrow> thread_calm conf (en_levels en) bt ev \<Longrightarrow>
    bt_step order False ev (en_levels en, bt, fs) = Some (lc', bt', fs') \<Longrightarrow>
    thread_run crc order conf s0 (evs @ [TsThread ev]) (en\<lparr>en_levels := lc'\<rparr>, bt', fs')"

fun trace_event :: "thread_sys_event \<Rightarrow> system_event list" where
  "trace_event (TsCommand cmd r) = [SysCommand cmd r]"
| "trace_event (TsThread ev) = []"

definition trace_of :: "thread_sys_event list \<Rightarrow> system_event list" where
  "trace_of evs = concat (map trace_event evs)"

lemma trace_of_simps [simp]:
  "trace_of [] = []" "trace_of (evs @ [TsCommand cmd r]) = trace_of evs @ [SysCommand cmd r]"
  "trace_of (evs @ [TsThread ev]) = trace_of evs"
  by (simp_all add: trace_of_def)

text \<open>Runs can be computed.\<close>

datatype thread_job = DoCommand command | DoThread thread_event

fun thread_exec ::
    "crc_fun \<Rightarrow> (nat list \<Rightarrow> nat list) \<Rightarrow> engine_conf \<Rightarrow> thread_job list \<Rightarrow>
     thread_sys_event list \<times> thread_system \<Rightarrow> (thread_sys_event list \<times> thread_system) option" where
  "thread_exec crc order conf [] s = Some s"
| "thread_exec crc order conf (DoCommand cmd # jobs) (evs, en, bt, fs) =
    (if command_small cmd \<and> (swapping (bt_phase bt) \<longrightarrow> no_flush en cmd)
     then (case engine_exec crc (conf_flusher conf) cmd (en, fs) of
         (Ok r, en', fs') \<Rightarrow> thread_exec crc order conf jobs (evs @ [TsCommand cmd r], en', bt, fs')
       | _ \<Rightarrow> None)
     else None)"
| "thread_exec crc order conf (DoThread ev # jobs) (evs, en, bt, fs) =
    (if thread_calm conf (en_levels en) bt ev
     then (case bt_step order False ev (en_levels en, bt, fs) of
         Some (lc', bt', fs') \<Rightarrow> thread_exec crc order conf jobs (evs @ [TsThread ev], en\<lparr>en_levels := lc'\<rparr>, bt', fs')
       | None \<Rightarrow> None)
     else None)"

lemma thread_exec_run:
  "thread_exec crc order conf jobs (evs, s) = Some (evs', s') \<Longrightarrow> thread_run crc order conf s0 evs s \<Longrightarrow>
   thread_run crc order conf s0 evs' s'"
proof (induction jobs arbitrary: evs s)
  case (Cons job jobs)
  obtain en bt fs where s: "s = (en, bt, fs)" by (cases s)
  show ?case
  proof (cases job)
    case (DoCommand cmd)
    then show ?thesis
      using Cons.prems Cons.IH tr_command [of crc order conf s0 evs en bt fs cmd]
      by (auto simp: s split: if_splits prod.splits res.splits)
  next
    case (DoThread ev)
    then show ?thesis
      using Cons.prems Cons.IH tr_thread [of crc order conf s0 evs en bt fs ev]
      by (auto simp: s split: if_splits option.splits)
  qed
qed simp

section \<open>Between the snapshot and the deletion\<close>

text \<open>
  \<open>lc0\<close> is the container the thread read, \<open>lc1\<close> what the swap makes of it, \<open>seg\<close> the segment
  that was merged: once its file is gone, \<open>lc1\<close> is in order and holds what \<open>lc0\<close> held.
\<close>

definition merged_into :: "path \<Rightarrow> nat \<Rightarrow> level_container \<Rightarrow> sst_segment \<Rightarrow> level_container \<Rightarrow> file_system \<Rightarrow> bool" where
  "merged_into dir sparsity lc0 seg lc1 fs \<longleftrightarrow> in_dir dir (sg_path seg) \<and>
     (let fs' = remove_unused [seg] fs in
      sst_inv dir sparsity lc1 fs' \<and> sst_stored lc1 fs' = sst_stored lc0 fs \<and> files_inv dir lc1 fs')"

lemma remove_one:
  assumes "fs_faults fs = []"
  shows "fs_faults (remove_unused [seg] fs) = []" "fs_dirs (remove_unused [seg] fs) = fs_dirs fs"
    "fs_content (remove_unused [seg] fs) p = (if p = sg_path seg then None else fs_content fs p)"
  using assms remove_unused_frame [OF assms, of "[seg]"] remove_unused_gone [OF assms, of seg "[seg]"] by auto

lemma merged_into_reads:
  assumes "merged_into dir sparsity lc0 seg lc1 fs" "fs_faults fs = []"
  shows "sstable_inv lc1 fs" "sst_stored lc1 fs = sst_stored lc0 fs"
proof -
  let ?fs' = "remove_unused [seg] fs"
  have i: "sst_inv dir sparsity lc1 ?fs'" "sst_stored lc1 ?fs' = sst_stored lc0 fs"
    using assms(1) by (auto simp: merged_into_def Let_def)
  have "\<forall>s \<in> all_segments lc1. fs_content fs (sg_path s) = fs_content ?fs' (sg_path s)"
    using i(1) by (auto simp: sst_inv_def segment_on_def remove_one [OF assms(2)] simp del: remove_unused.simps split: if_splits)
  note same = sst_same [OF i(1) remove_one(1) [OF assms(2)] assms(2) this]
  show "sstable_inv lc1 fs"
    using same by (auto simp: sstable_inv_def overlapping_inv_def partitioned_inv_def all_segments_def)
  have "sst_stored lc1 fs = sst_stored lc1 ?fs'"
    by (rule ext) (simp add: sst_stored_def sstable_contents_def same)
  then show "sst_stored lc1 fs = sst_stored lc0 fs" using i(2) by simp
qed

lemma merged_into_frame:
  assumes m: "merged_into dir sparsity lc0 seg lc1 fs" and nf: "fs_faults fs = []" "fs_faults fs2 = []"
    and fr: "set (fs_dirs fs) \<subseteq> set (fs_dirs fs2)" "\<forall>p. in_dir dir p \<longrightarrow> fs_content fs2 p = fs_content fs p"
    and st: "sst_stored lc0 fs2 = sst_stored lc0 fs"
  shows "merged_into dir sparsity lc0 seg lc1 fs2"
proof -
  have fr': "\<forall>p. in_dir dir p \<longrightarrow> fs_content (remove_unused [seg] fs2) p = fs_content (remove_unused [seg] fs) p"
    using fr(2) by (simp add: remove_one nf del: remove_unused.simps)
  have "sst_inv dir sparsity lc1 (remove_unused [seg] fs)" "files_inv dir lc1 (remove_unused [seg] fs)"
    "sst_stored lc1 (remove_unused [seg] fs) = sst_stored lc0 fs" "in_dir dir (sg_path seg)"
    using m by (simp_all add: merged_into_def Let_def)
  then show ?thesis
    using sst_stored_frame [OF _ remove_one(1) [OF nf(1)] remove_one(1) [OF nf(2)] _ fr'] files_inv_frame [OF _ fr']
      fr(1) st by (simp add: merged_into_def remove_one nf del: remove_unused.simps)
qed

text \<open>The first compaction up to its swap.\<close>

lemma first_compaction_merges:
  assumes inv: "sst_inv dir sparsity lc fs" "fs_faults fs = []" "fs_wf fs" and fi: "files_inv dir lc fs"
    and first: "first_compaction conf lc (\<lambda>_. False)"
  shows "\<exists>new_levels seg fs'. compact_from_level_zero order (cf_level_factor conf) lc ([], fs) =
      Some (Ok new_levels, [seg], fs') \<and>
    merged_into dir sparsity lc seg (swap_all_levels new_levels lc) fs' \<and>
    sst_inv dir sparsity lc fs' \<and> sst_stored lc fs' = sst_stored lc fs \<and>
    fs_faults fs' = [] \<and> fs_dirs fs' = fs_dirs fs \<and> fs_wf fs' \<and>
    (\<forall>p. \<not> in_dir dir p \<longrightarrow> fs_content fs' p = fs_content fs p) \<and>
    (\<exists>image. fs' = fs_store (sst_path dir 1 1) image (fs_store (sst_path dir 1 1) [] fs))"
proof -
  let ?target = "ol_target_size (lc_level_zero lc)" and ?p = "sst_path dir 1 1"
  obtain seg where seg: "ol_segments (lc_level_zero lc) = [seg]" "lc_partitioned_levels lc = []" "do_compact lc"
    "sg_data_block_end seg < 2 ^ 23" "2 * sg_data_block_end seg + 12 \<le> ?target * cf_level_factor conf"
    "?target * cf_level_factor conf < 2 ^ 64"
    using first by (auto simp: first_compaction_def Let_def split: list.splits)
  have fl: "flushed dir fs seg" and p1: "fs_content fs ?p = None" using fi seg(1,2) by (auto simp: files_inv_def)
  obtain es ps where es: "es \<noteq> []" "segment_of seg es ps" "fs_content fs (sg_path seg) = Some (segment_image es ps)"
    using fl by (auto simp: flushed_def)
  have d: "butlast (sg_path seg) = dir" "dir \<in> set (fs_dirs fs)" and pos: "0 < sg_number seg"
    using fl inv(1) by (auto simp: flushed_def sst_path_def sst_inv_def)
  have c: "fs_content fs (sg_path seg) = Some (data_block es @ index_to_bytes (index_of (index_points es ps)) @
      footer_to_bytes (length (data_block es)))" using es(3) by (simp add: segment_image_def)
  have r: "index_to_bytes (index_of (index_points es ps)) @ footer_to_bytes (length (data_block es)) \<noteq> []"
    by (simp add: footer_to_bytes_def MAGIC_BYTES_def)
  have lc: "lc = \<lparr>lc_level_zero = \<lparr>ol_segments = [seg], ol_target_size = ?target\<rparr>, lc_partitioned_levels = []\<rparr>"
    using seg(1,2) by (metis level_container.surjective old.unit.exhaust overlapping_level.surjective)
  have over: "?target < sg_size seg" using seg(1,3) by (simp add: do_compact_def overlapping_exceeds_def total_size_def)
  have len: "length (data_block es) = sg_data_block_end seg" using es(2) by (simp add: segment_of_def)
  have small: "length (data_block es) < 2 ^ 23" "2 * length (data_block es) + 12 \<le> ?target * cf_level_factor conf"
    using seg(4,5) by (simp_all add: len)
  obtain new ps' where m: "compact_from_level_zero order (cf_level_factor conf) lc ([], fs) =
      Some (Ok [new], [seg], fs_store ?p (segment_image es ps') (fs_store ?p [] fs))"
    using compact_single [OF es(2,1) inv(2) c r d p1 small(1) lc over pos small(2) seg(6), of order "[]"] by auto
  let ?fs' = "fs_store ?p (segment_image es ps') (fs_store ?p [] fs)" and ?lc' = "swap_all_levels [new] lc"
  have nf: "fs_faults ?fs' = []" "fs_dirs ?fs' = fs_dirs fs" "fs_wf ?fs'"
    using inv(2) by (simp_all add: fs_wf_store inv(3))
  have t: "bt_turn order (cf_level_factor conf) (\<lambda>_. False) [] EvNotified (lc, [], fs) =
      Some (Ok True, ?lc', [], remove_unused [seg] ?fs')"
    using m by (simp add: bt_turn_def container_add_def remove_segment_files_def)
  have keeps: "sst_inv dir sparsity ?lc' (remove_unused [seg] ?fs')"
    "sst_stored ?lc' (remove_unused [seg] ?fs') = sst_stored lc fs" "files_inv dir ?lc' (remove_unused [seg] ?fs')"
    using first_compaction_keeps [OF inv fi first, of order] t by auto
  have old: "fs_content ?fs' (sg_path s) = fs_content fs (sg_path s)" if "s \<in> all_segments lc" for s
    using that seg(1,2) p1 es(3) by (auto simp: all_segments_def)
  have free: "fs_content ?fs' (sst_path dir 0 n) = fs_content fs (sst_path dir 0 n)" if "n < 16 ^ 8" for n
    using sst_path_levels [OF that, of dir] by (auto simp: fs_content_store_fun)
  note same = sst_same [OF inv(1,2) nf(1)]
  have "sst_stored lc ?fs' = sst_stored lc fs"
    using same old by (intro ext) (simp add: sst_stored_def sstable_contents_def)
  moreover have "sst_inv dir sparsity lc ?fs'"
    using inv(1) same old free by (simp add: sst_inv_def nf(2))
  moreover have "in_dir dir (sg_path seg)" by (rule flushed_in_dir [OF fl])
  moreover have "\<forall>p. \<not> in_dir dir p \<longrightarrow> fs_content ?fs' p = fs_content fs p" by auto
  ultimately show ?thesis
    using m keeps nf by (intro exI [of _ "[new]"] exI [of _ seg] exI [of _ ?fs'])
      (auto simp add: merged_into_def simp del: remove_unused.simps)
qed

section \<open>Commands that do not flush\<close>

text \<open>Such a write neither reads nor changes the levels.\<close>

lemma quiet_submit:
  assumes "ww_current_size (en_worker en) < ww_max_size (en_worker en)"
    and "memtable_submit crc flush job (en, fs) = (r, en', fs')"
  shows "memtable_submit crc flush job (en\<lparr>en_levels := lc\<rparr>, fs) = (r, en'\<lparr>en_levels := lc\<rparr>, fs') \<and>
    en_levels en' = en_levels en"
  using assms
  by (auto simp: memtable_submit_def run_flush_def split: if_splits prod.splits res.splits option.splits)

lemma write_submits:
  assumes "engine_exec crc flush cmd (en, fs) = (Ok r, en', fs')" "\<forall>key. cmd \<noteq> CmdGet key"
  shows "\<exists>job old. job \<noteq> JobShutdown \<and> memtable_submit crc flush job (en, fs) = (Ok old, en', fs') \<and>
    (\<forall>en2 en2'. en_threads en2 = en_threads en \<longrightarrow> memtable_submit crc flush job (en2, fs) = (Ok old, en2', fs') \<longrightarrow>
      engine_exec crc flush cmd (en2, fs) = (Ok r, en2', fs'))"
proof (cases cmd)
  case (CmdDelete key)
  then obtain old where "memtable_submit crc flush (JobDelete key) (en, fs) = (Ok old, en', fs')" "en_threads en \<noteq> 0"
    "r = Option.bind old mv_value"
    using assms(1) by (auto simp: engine_exec_def engine_delete_def memtable_delete_def outcome
        split: prod.splits res.splits if_splits)
  then show ?thesis
    by (intro exI [of _ "JobDelete key"] exI [of _ old])
      (simp add: CmdDelete engine_exec_def engine_delete_def memtable_delete_def bind_act_def ret_def)
next
  case (CmdPut key v)
  then obtain old where "memtable_submit crc flush (JobPut key v) (en, fs) = (Ok old, en', fs')" "en_threads en \<noteq> 0"
    "r = Option.bind old mv_value"
    using assms(1) by (auto simp: engine_exec_def engine_put_def memtable_put_def outcome
        split: prod.splits res.splits if_splits)
  then show ?thesis
    by (intro exI [of _ "JobPut key v"] exI [of _ old])
      (simp add: CmdPut engine_exec_def engine_put_def memtable_put_def bind_act_def ret_def)
qed (use assms(2) in simp)

lemma quiet_write:
  assumes "engine_exec crc flush cmd (en, fs) = (Ok r, en', fs')" "\<forall>key. cmd \<noteq> CmdGet key" "no_flush en cmd"
  shows "engine_exec crc flush cmd (en\<lparr>en_levels := lc\<rparr>, fs) = (Ok r, en'\<lparr>en_levels := lc\<rparr>, fs') \<and>
    en_levels en' = en_levels en"
proof -
  obtain job old where s: "memtable_submit crc flush job (en, fs) = (Ok old, en', fs')"
    "\<And>en2 en2'. en_threads en2 = en_threads en \<Longrightarrow> memtable_submit crc flush job (en2, fs) = (Ok old, en2', fs') \<Longrightarrow>
      engine_exec crc flush cmd (en2, fs) = (Ok r, en2', fs')"
    using write_submits [OF assms(1,2)] by metis
  have "ww_current_size (en_worker en) < ww_max_size (en_worker en)"
    using assms(2,3) by (cases cmd) (simp_all add: no_flush_def)
  from quiet_submit [OF this s(1), of lc] s(2) [of "en\<lparr>en_levels := lc\<rparr>"] show ?thesis by simp
qed

text \<open>It leaves the directory of the segments alone.\<close>

lemma quiet_write_frame:
  assumes inv: "engine_inv crc conf en fs"
    and run: "engine_exec crc (conf_flusher conf) cmd (en, fs) = (Ok r, en', fs')" "\<forall>key. cmd \<noteq> CmdGet key" "no_flush en cmd"
  shows "(\<forall>p. in_dir (cf_dir conf) p \<longrightarrow> fs_content fs' p = fs_content fs p) \<and> set (fs_dirs fs) \<subseteq> set (fs_dirs fs')"
proof -
  have si: "sst_flush.store_inv (cf_dir conf) (cf_sparsity conf) crc (en_levels en) (en_worker en) fs"
    using inv by (simp add: engine_inv_def)
  obtain job old where s: "memtable_submit crc (conf_flusher conf) job (en, fs) = (Ok old, en', fs')" "job \<noteq> JobShutdown"
    using write_submits [OF run(1,2)] by blast
  have "ww_current_size (en_worker en) < ww_max_size (en_worker en)"
    using run(2,3) by (cases cmd) (simp_all add: no_flush_def)
  then obtain go ww' where j: "run_job crc job (en_worker en, fs) = (Ok (Some (Ok old), go), ww', fs')"
    using s(1) inv
    by (auto simp: memtable_submit_def run_flush_def engine_inv_def split: if_splits prod.splits res.splits option.splits)
  then obtain e where e: "worker_log crc e (en_worker en, fs) = (Ok old, ww', fs')"
    using run_job_Ok [OF j s(2)] by force
  show ?thesis using sst_flush.worker_log_owned [OF si e] sst_flush.worker_log_outside [OF si e] by blast
qed

section \<open>The invariant\<close>

definition merge_inv :: "crc_fun \<Rightarrow> engine_conf \<Rightarrow> level_container \<Rightarrow> level_container \<Rightarrow> thread_system \<Rightarrow> bool" where
  "merge_inv crc conf lc0 lc1 = (\<lambda>(en, bt, fs). \<exists>seg. bt_segments_to_delete bt = [seg] \<and>
     engine_inv crc conf (en\<lparr>en_levels := lc0\<rparr>) fs \<and> merged_into (cf_dir conf) (cf_sparsity conf) lc0 seg lc1 fs)"

definition thread_inv :: "crc_fun \<Rightarrow> engine_conf \<Rightarrow> thread_system \<Rightarrow> bool" where
  "thread_inv crc conf = (\<lambda>(en, bt, fs). bt_level_size_factor bt = cf_level_factor conf \<and>
     (case bt_phase bt of
        BtSwapAll levels \<Rightarrow> merge_inv crc conf (en_levels en) (swap_all_levels levels (en_levels en)) (en, bt, fs)
      | BtRemove \<Rightarrow> (\<exists>lc0. merge_inv crc conf lc0 (en_levels en) (en, bt, fs))
      | BtSwapPartitioned levels \<Rightarrow> levels = lc_partitioned_levels (en_levels en) \<and>
          system_inv crc conf (en, bt_segments_to_delete bt, fs)
      | BtEnded \<Rightarrow> False
      | BtPanicked \<Rightarrow> False
      | _ \<Rightarrow> system_inv crc conf (en, bt_segments_to_delete bt, fs)))"

lemma engine_inv_sst:
  assumes "engine_inv crc conf en fs"
  shows "sst_inv (cf_dir conf) (cf_sparsity conf) (en_levels en) fs" "fs_faults fs = []" "fs_wf fs"
    "\<not> en_poisoned en" "sstable_inv (en_levels en) fs"
  using assms sst_inv_sstable
  by (auto simp: engine_inv_def sst_flush.store_inv_def sst_flush.logged_def worker_inv_def)

lemma engine_view_levels:
  "sst_stored lc1 fs = sst_stored lc0 fs \<Longrightarrow>
   engine_view (en\<lparr>en_levels := lc1\<rparr>) fs = engine_view (en\<lparr>en_levels := lc0\<rparr>) fs"
  by (simp add: engine_view_def)

text \<open>While the thread merges, either container reads the same.\<close>

lemma merge_inv_view:
  assumes m: "merge_inv crc conf lc0 lc1 (en, bt, fs)" and lc: "lc = lc0 \<or> lc = lc1"
  shows "sstable_inv lc fs" "engine_view (en\<lparr>en_levels := lc\<rparr>) fs = engine_view (en\<lparr>en_levels := lc0\<rparr>) fs"
    "\<not> en_poisoned en" "fs_faults fs = []"
proof -
  obtain seg where s: "engine_inv crc conf (en\<lparr>en_levels := lc0\<rparr>) fs"
    "merged_into (cf_dir conf) (cf_sparsity conf) lc0 seg lc1 fs" using m by (auto simp: merge_inv_def)
  note i = engine_inv_sst [OF s(1)]
  note r = merged_into_reads [OF s(2) i(2)]
  show "sstable_inv lc fs" "\<not> en_poisoned en" "fs_faults fs = []" using r i lc by auto
  show "engine_view (en\<lparr>en_levels := lc\<rparr>) fs = engine_view (en\<lparr>en_levels := lc0\<rparr>) fs"
    using lc engine_view_levels [OF r(2)] by auto
qed

lemma merge_inv_get:
  assumes m: "merge_inv crc conf lc0 lc1 (en, bt, fs)" and lc: "en_levels en = lc0 \<or> en_levels en = lc1"
  shows "engine_get key (en, fs) = (Ok (engine_view en fs key), en, fs)"
    "engine_view en fs = engine_view (en\<lparr>en_levels := lc0\<rparr>) fs"
  using merge_inv_view [OF m lc] by (simp_all add: engine_get_sstable)

lemma thread_inv_get:
  assumes "thread_inv crc conf (en, bt, fs)"
  shows "engine_get key (en, fs) = (Ok (engine_view en fs key), en, fs)"
  using assms engine_get_view [of crc conf en fs key] merge_inv_get(1) [of crc conf _ _ en bt fs key]
  by (auto simp: thread_inv_def system_inv_def split: bt_phase.splits)

section \<open>Commands\<close>

lemma get_answers:
  assumes "engine_get key (en, fs) = (Ok v, en, fs)" "engine_exec crc flush (CmdGet key) (en, fs) = (Ok r, en', fs')"
  shows "r = v \<and> en' = en \<and> fs' = fs"
  using assms by (auto simp: engine_exec_def split: if_splits)

lemma merge_command:
  assumes m: "merge_inv crc conf lc0 lc1 (en, bt, fs)" and lc: "en_levels en = lc0 \<or> en_levels en = lc1"
    and small: "command_small cmd" and quiet: "no_flush en cmd"
    and run: "engine_exec crc (conf_flusher conf) cmd (en, fs) = (Ok r, en', fs')"
  shows "merge_inv crc conf lc0 lc1 (en', bt, fs') \<and> en_levels en' = en_levels en \<and>
    engine_view en' fs' = spec_command cmd (engine_view en fs) \<and>
    (case cmd of CmdGet key \<Rightarrow> r = engine_view en fs key | _ \<Rightarrow> True)"
proof (cases "\<exists>key. cmd = CmdGet key")
  case True
  then obtain key where "cmd = CmdGet key" by blast
  moreover from this have "r = engine_view en fs key \<and> en' = en \<and> fs' = fs"
    using get_answers [OF merge_inv_get(1) [OF m lc, of key]] run by blast
  ultimately show ?thesis using m by simp
next
  case False
  then have w: "\<forall>key. cmd \<noteq> CmdGet key" by blast
  let ?en0 = "en\<lparr>en_levels := lc0\<rparr>" and ?en0' = "en'\<lparr>en_levels := lc0\<rparr>"
  obtain seg where s: "bt_segments_to_delete bt = [seg]" "engine_inv crc conf ?en0 fs"
    "merged_into (cf_dir conf) (cf_sparsity conf) lc0 seg lc1 fs" using m by (auto simp: merge_inv_def)
  have run0: "engine_exec crc (conf_flusher conf) cmd (?en0, fs) = (Ok r, ?en0', fs')" "en_levels en' = en_levels en"
    using quiet_write [OF run w quiet, of lc0] by auto
  have q0: "no_flush ?en0 cmd" using quiet by (cases cmd) (simp_all add: no_flush_def)
  note v0 = engine_exec_view [OF s(2) small run0(1)]
  note fr = quiet_write_frame [OF s(2) run0(1) w q0]
  have i: "sst_inv (cf_dir conf) (cf_sparsity conf) lc0 fs" "fs_faults fs = []" "fs_faults fs' = []"
    using engine_inv_sst [OF s(2)] engine_inv_sst [of crc conf ?en0' fs'] v0 by auto
  have "sst_stored lc0 fs' = sst_stored lc0 fs" using sst_stored_frame [OF i] fr by blast
  then have m': "merge_inv crc conf lc0 lc1 (en', bt, fs')"
    using merged_into_frame [OF s(3) i(2,3)] fr v0 s(1) by (simp add: merge_inv_def)
  moreover have "en_levels en' = lc0 \<or> en_levels en' = lc1" using lc run0(2) by simp
  ultimately show ?thesis
    using merge_inv_get(2) [OF m lc] merge_inv_get(2) [OF m'] v0 run0(2) w by (auto split: command.split)
qed

text \<open>A flush does not touch the levels above zero.\<close>

lemma add_to_level_zero_partitioned:
  "add_to_level_zero p lc fs = (Ok lc', fs') \<Longrightarrow> lc_partitioned_levels lc' = lc_partitioned_levels lc"
  by (auto simp: add_to_level_zero_def split: prod.splits res.splits segment_open_error.splits)

lemma flusher_flush_partitioned:
  assumes "flusher_flush dir sparsity table (lc, fs) = (r, lc', fs')"
  shows "lc_partitioned_levels lc' = lc_partitioned_levels lc"
proof -
  let ?act = "bind_act (lift_res (highest_segment_number 0 lc)) (\<lambda>n.
    bind_act (segment_file_from_memtable dir table (n + 1) sparsity) (\<lambda>fp. find_and_add_segment fp lc))"
  obtain r1 fs1 where a: "?act fs = (r1, fs1)" by (cases "?act fs")
  show ?thesis
  proof (cases r1)
    case (Ok x)
    obtain lc2 flag where x: "x = (lc2, flag)" by (cases x)
    have "lc' = lc2" using assms a Ok x by (simp add: flusher_flush_def)
    moreover from a Ok x obtain fp fs2 where "find_and_add_segment fp lc fs2 = (Ok (lc2, flag), fs1)"
      by (auto simp only: bind_act_Ok_iff)
    then obtain fs3 where "add_to_level_zero fp lc fs2 = (Ok lc2, fs3)"
      by (auto simp: find_and_add_segment_def outcome)
    ultimately show ?thesis using add_to_level_zero_partitioned by blast
  qed (use assms a in \<open>simp_all add: flusher_flush_def\<close>)
qed

lemma run_flush_partitioned:
  assumes "run_flush (conf_flusher conf) (lc, ww, fs) = (r, lc', ww', fs')"
  shows "lc_partitioned_levels lc' = lc_partitioned_levels lc"
proof -
  obtain r1 lc1 fs1 where "conf_flusher conf (ww_table ww) (lc, fs) = (r1, lc1, fs1)"
    by (cases "conf_flusher conf (ww_table ww) (lc, fs)")
  then show ?thesis
    using assms flusher_flush_partitioned [of "cf_dir conf" "cf_sparsity conf" "ww_table ww" lc fs r1 lc1 fs1]
    by (cases r1) (auto simp: run_flush_def conf_flusher_def split: if_splits)
qed

lemma memtable_submit_partitioned:
  assumes "memtable_submit crc (conf_flusher conf) job (en, fs) = (r, en', fs')"
  shows "lc_partitioned_levels (en_levels en') = lc_partitioned_levels (en_levels en)"
proof -
  obtain r1 lc ww fs1 where f: "run_flush (conf_flusher conf) (en_levels en, en_worker en, fs) = (r1, lc, ww, fs1)"
    by (cases "run_flush (conf_flusher conf) (en_levels en, en_worker en, fs)")
  have "en_levels en' = en_levels en \<or> en_levels en' = lc"
    using assms f by (auto simp: memtable_submit_def split: if_splits prod.splits res.splits option.splits)
  then show ?thesis using run_flush_partitioned [OF f] by auto
qed

lemma engine_exec_partitioned:
  assumes "engine_exec crc (conf_flusher conf) cmd (en, fs) = (Ok r, en', fs')" "engine_inv crc conf en fs"
  shows "lc_partitioned_levels (en_levels en') = lc_partitioned_levels (en_levels en)"
proof (cases "\<exists>key. cmd = CmdGet key")
  case True
  then obtain key where "cmd = CmdGet key" by blast
  then show ?thesis using get_answers [OF engine_get_view [OF assms(2), of key]] assms(1) by blast
next
  case False
  then show ?thesis using write_submits [OF assms(1)] memtable_submit_partitioned by blast
qed

lemma thread_command:
  assumes inv: "thread_inv crc conf (en, bt, fs)" and small: "command_small cmd"
    and quiet: "swapping (bt_phase bt) \<longrightarrow> no_flush en cmd"
    and run: "engine_exec crc (conf_flusher conf) cmd (en, fs) = (Ok r, en', fs')"
  shows "thread_inv crc conf (en', bt, fs') \<and> engine_view en' fs' = spec_command cmd (engine_view en fs) \<and>
    (case cmd of CmdGet key \<Rightarrow> r = engine_view en fs key | _ \<Rightarrow> True)"
proof -
  have whole: ?thesis if "system_inv crc conf (en, bt_segments_to_delete bt, fs)" "\<not> swapping (bt_phase bt)"
    using command_keeps [OF that(1) small run] engine_exec_partitioned [OF run] that inv
    by (auto simp: thread_inv_def swapping_def system_inv_def split: bt_phase.splits)
  have part: ?thesis if "merge_inv crc conf lc0 lc1 (en, bt, fs)" "en_levels en = lc0 \<or> en_levels en = lc1"
    "no_flush en cmd" "\<And>en'. en_levels en' = en_levels en \<Longrightarrow> merge_inv crc conf lc0 lc1 (en', bt, fs') \<Longrightarrow> thread_inv crc conf (en', bt, fs')"
    for lc0 lc1
    using merge_command [OF that(1,2) small that(3) run] that(4) by blast
  show ?thesis
  proof (cases "bt_phase bt")
    case (BtSwapAll levels)
    then show ?thesis
      using inv quiet by (intro part) (auto simp: thread_inv_def swapping_def)
  next
    case BtRemove
    then obtain lc0 where "merge_inv crc conf lc0 (en_levels en) (en, bt, fs)" using inv by (auto simp: thread_inv_def)
    then show ?thesis
      by (rule part) (use BtRemove inv quiet in \<open>auto simp: thread_inv_def swapping_def\<close>)
  qed (use inv whole in \<open>auto simp: thread_inv_def swapping_def\<close>)
qed

section \<open>Steps of the thread\<close>

lemma no_level_to_compact:
  assumes "\<forall>level \<in> set (lc_partitioned_levels lc). \<not> partitioned_exceeds level"
  shows "find_partitioned_levels_to_compact lc = (lc_partitioned_levels lc, [])"
proof -
  obtain keep to_compact where f: "find_partitioned_levels_to_compact lc = (keep, to_compact)"
    by (cases "find_partitioned_levels_to_compact lc")
  note s = find_partitioned_levels_split [OF f]
  have "to_compact = []" using s assms by (metis Un_iff hd_in_set set_append)
  then show ?thesis using s f by simp
qed

lemma merge_inv_ends:
  assumes m: "merge_inv crc conf lc0 lc1 (en, bt, fs)"
  shows "\<exists>seg. bt_segments_to_delete bt = [seg] \<and>
    system_inv crc conf (en\<lparr>en_levels := lc1\<rparr>, [], remove_unused [seg] fs) \<and>
    engine_view (en\<lparr>en_levels := lc1\<rparr>) (remove_unused [seg] fs) = engine_view (en\<lparr>en_levels := lc0\<rparr>) fs"
proof -
  obtain seg where s: "bt_segments_to_delete bt = [seg]" "engine_inv crc conf (en\<lparr>en_levels := lc0\<rparr>) fs"
    "merged_into (cf_dir conf) (cf_sparsity conf) lc0 seg lc1 fs" using m by (auto simp: merge_inv_def)
  let ?fs' = "remove_unused [seg] fs"
  note i = engine_inv_sst [OF s(2)]
  have st: "sst_inv (cf_dir conf) (cf_sparsity conf) lc1 ?fs'" "sst_stored lc1 ?fs' = sst_stored lc0 fs"
    "files_inv (cf_dir conf) lc1 ?fs'" "in_dir (cf_dir conf) (sg_path seg)"
    using s(3) by (simp_all add: merged_into_def Let_def)
  have fr: "\<forall>p. \<not> in_dir (cf_dir conf) p \<longrightarrow> fs_content ?fs' p = fs_content fs p"
    using st(4) by (auto simp: remove_one(3) [OF i(2)] simp del: remove_unused.simps)
  have dirs: "set (fs_dirs fs) \<subseteq> set (fs_dirs ?fs')" by (simp add: remove_one(2) [OF i(2)] del: remove_unused.simps)
  have si: "sst_flush.store_inv (cf_dir conf) (cf_sparsity conf) crc lc0 (en_worker en) fs"
    using s(2) by (simp add: engine_inv_def)
  note si' = sst_flush.store_inv_replace [OF si st(1,2) remove_one(1) [OF i(2)] fr dirs fs_wf_remove_unused [OF i(3)]]
  show ?thesis
    using s(1,2) si' st(3) by (simp add: system_inv_def engine_inv_def engine_view_eq del: remove_unused.simps)
qed

lemma notified_compact:
  assumes inv: "thread_inv crc conf (en, bt, fs)" and ph: "bt_phase bt = BtWoken False"
    and first: "first_compaction conf (en_levels en) (\<lambda>_. False)"
  shows "\<exists>bt' fs'. bt_step order False ThCompact (en_levels en, bt, fs) = Some (en_levels en, bt', fs') \<and>
    thread_inv crc conf (en, bt', fs') \<and> engine_view en fs' = engine_view en fs \<and>
    engine_stored en fs' = engine_stored en fs \<and> (\<exists>levels. bt_phase bt' = BtSwapAll levels) \<and>
    (\<exists>image. fs' = fs_store (sst_path (cf_dir conf) 1 1) image (fs_store (sst_path (cf_dir conf) 1 1) [] fs))"
proof -
  have s: "system_inv crc conf (en, bt_segments_to_delete bt, fs)" and f: "bt_level_size_factor bt = cf_level_factor conf"
    using inv ph by (simp_all add: thread_inv_def)
  then have ei: "engine_inv crc conf en fs" and e: "bt_segments_to_delete bt = []"
    and fi: "files_inv (cf_dir conf) (en_levels en) fs" by (simp_all add: system_inv_def)
  note i = engine_inv_sst [OF ei]
  let ?p = "sst_path (cf_dir conf) 1 1"
  obtain new_levels seg fs' where c: "compact_from_level_zero order (cf_level_factor conf) (en_levels en) ([], fs) =
      Some (Ok new_levels, [seg], fs')"
    "merged_into (cf_dir conf) (cf_sparsity conf) (en_levels en) seg (swap_all_levels new_levels (en_levels en)) fs'"
    "sst_inv (cf_dir conf) (cf_sparsity conf) (en_levels en) fs'" "sst_stored (en_levels en) fs' = sst_stored (en_levels en) fs"
    "fs_faults fs' = []" "fs_dirs fs' = fs_dirs fs" "fs_wf fs'"
    "\<forall>p. \<not> in_dir (cf_dir conf) p \<longrightarrow> fs_content fs' p = fs_content fs p"
    "\<exists>image. fs' = fs_store ?p image (fs_store ?p [] fs)"
    using first_compaction_merges [OF i(1-3) fi first, of order] by blast
  have si: "sst_flush.store_inv (cf_dir conf) (cf_sparsity conf) crc (en_levels en) (en_worker en) fs"
    using ei by (simp add: engine_inv_def)
  have "set (fs_dirs fs) \<subseteq> set (fs_dirs fs')" by (simp add: c(6))
  note si' = sst_flush.store_inv_replace [OF si c(3-5,8) this c(7)]
  let ?bt' = "bt\<lparr>bt_segments_to_delete := [seg], bt_phase := BtSwapAll new_levels\<rparr>"
  have "bt_step order False ThCompact (en_levels en, bt, fs) = Some (en_levels en, ?bt', fs')"
    using ph c(1) by (simp add: bt_step_def e f compacted_def)
  moreover have "thread_inv crc conf (en, ?bt', fs')"
    using ei si' c(2) f by (simp add: thread_inv_def merge_inv_def engine_inv_def)
  moreover have "engine_view en fs' = engine_view en fs" using si' by (simp add: engine_view_eq)
  moreover have "engine_stored en fs' = engine_stored en fs" by (simp add: engine_stored_def c(4))
  moreover have "\<exists>levels. bt_phase ?bt' = BtSwapAll levels" by simp
  ultimately show ?thesis using c(9) by blast
qed

lemma thread_step_keeps:
  assumes inv: "thread_inv crc conf (en, bt, fs)" and calm: "thread_calm conf (en_levels en) bt ev"
    and step: "bt_step order False ev (en_levels en, bt, fs) = Some (lc', bt', fs')"
  shows "thread_inv crc conf (en\<lparr>en_levels := lc'\<rparr>, bt', fs') \<and>
    engine_view (en\<lparr>en_levels := lc'\<rparr>) fs' = engine_view en fs"
proof (cases "bt_phase bt")
  case BtWaiting
  then show ?thesis
    using inv step by (cases ev) (auto simp: bt_step_def thread_inv_def)
next
  case (BtWoken timed_out)
  show ?thesis
  proof (cases timed_out)
    case True
    then obtain in_use where "ev = ThRemove in_use" using BtWoken step by (cases ev) (simp_all add: bt_step_def)
    then show ?thesis
      using BtWoken True step inv
      by (auto simp: bt_step_def thread_inv_def system_inv_def remove_segment_files_def)
  next
    case False
    then have "ev = ThCompact" using BtWoken step by (cases ev) (simp_all add: bt_step_def)
    then show ?thesis
      using notified_compact [OF inv, of order] BtWoken False step calm by (auto simp: thread_calm_def)
  qed
next
  case BtFind
  then have "ev = ThCompact" using step by (cases ev) (simp_all add: bt_step_def)
  moreover have "find_partitioned_levels_to_compact (en_levels en) = (lc_partitioned_levels (en_levels en), [])"
    using inv BtFind by (intro no_level_to_compact) (simp add: thread_inv_def system_inv_def files_inv_def)
  ultimately show ?thesis
    using BtFind step inv
    by (auto simp: bt_step_def thread_inv_def compact_from_partitioned_level_def compacted_def)
next
  case (BtSwapAll levels)
  then have "ev = ThSwap" using step by (cases ev) (simp_all add: bt_step_def)
  then have e: "lc' = swap_all_levels levels (en_levels en)" "bt' = bt\<lparr>bt_phase := BtRemove\<rparr>" "fs' = fs"
    using BtSwapAll step by (auto simp: bt_step_def)
  have m: "merge_inv crc conf (en_levels en) lc' (en, bt, fs)" using inv BtSwapAll by (simp add: thread_inv_def e)
  then have "merge_inv crc conf (en_levels en) lc' (en\<lparr>en_levels := lc'\<rparr>, bt', fs')"
    by (simp add: merge_inv_def e)
  then show ?thesis
    using inv BtSwapAll merge_inv_view(2) [OF m, of lc'] by (auto simp: thread_inv_def e(2,3))
next
  case BtRemove
  then obtain in_use where ev: "ev = ThRemove in_use" using step by (cases ev) (simp_all add: bt_step_def)
  obtain lc0 where m: "merge_inv crc conf lc0 (en_levels en) (en, bt, fs)"
    using inv BtRemove by (auto simp: thread_inv_def)
  then obtain seg where s: "bt_segments_to_delete bt = [seg]" "system_inv crc conf (en, [], remove_unused [seg] fs)"
    "engine_view en (remove_unused [seg] fs) = engine_view (en\<lparr>en_levels := lc0\<rparr>) fs"
    using merge_inv_ends [OF m] by auto
  have "\<not> in_use seg" using calm BtRemove ev s(1) by (simp add: thread_calm_def)
  then have "lc' = en_levels en" "bt' = bt\<lparr>bt_segments_to_delete := [], bt_phase := BtWaiting\<rparr>" "fs' = remove_unused [seg] fs"
    using step BtRemove ev s(1) by (auto simp: bt_step_def remove_segment_files_def)
  then show ?thesis
    using s inv merge_inv_get(2) [OF m] by (simp add: thread_inv_def del: remove_unused.simps)
next
  case (BtSwapPartitioned levels)
  then have "ev = ThSwap" using step by (cases ev) (simp_all add: bt_step_def)
  then show ?thesis
    using BtSwapPartitioned step inv by (auto simp: bt_step_def thread_inv_def swap_partitioned_levels_def)
qed (use inv in \<open>simp_all add: thread_inv_def\<close>)

lemma thread_run_view:
  assumes run: "thread_run crc order conf s0 evs s" and start: "s0 = (en0, bt0, fs0)"
    and inv: "thread_inv crc conf s0" "engine_view en0 fs0 = m"
  shows "case s of (en, bt, fs) \<Rightarrow> thread_inv crc conf (en, bt, fs) \<and>
    engine_view en fs = trace_final (trace_of evs) m \<and> trace_agrees (trace_of evs) m"
  using run
proof (induction rule: thread_run.induct)
  case tr_start
  show ?case using inv start by (simp add: trace_final_def)
next
  case (tr_command evs en bt fs cmd r en' fs')
  then show ?case
    using thread_command [of crc conf en bt fs cmd r en' fs']
    by (cases cmd) (simp_all add: trace_agrees_append fun_upd_def)
next
  case (tr_thread evs en bt fs ev lc' bt' fs')
  then show ?case
    using thread_step_keeps [of crc conf en bt fs ev order lc' bt' fs'] by auto
qed

lemma storage_engine_new_thread:
  assumes "storage_engine_new crc order conf fs = Some (Ok en, fs')" "new_store conf fs" "conf_ok conf"
  shows "thread_inv crc conf (en, compaction_bt_new (cf_level_factor conf), fs')"
  using storage_engine_new_system [OF assms] by (simp add: thread_inv_def compaction_bt_new_def)

section \<open>A flush behind the snapshot\<close>

text \<open>A put into a full memtable: a new file, and a table with the one key.\<close>

lemma put_flushes:
  assumes ei: "engine_inv crc conf en fs" and small: "command_small (CmdPut key v)"
    and full: "ww_max_size (en_worker en) \<le> ww_current_size (en_worker en)"
    and put: "engine_exec crc (conf_flusher conf) (CmdPut key v) (en, fs) = (Ok r, en1, fs1)"
  shows "\<exists>n image sq. n < 16 ^ 8 \<and> fs_content fs (sst_path (cf_dir conf) 0 n) = None \<and>
    (\<forall>p. in_dir (cf_dir conf) p \<longrightarrow> fs_content fs1 p = ((fs_content fs)(sst_path (cf_dir conf) 0 n \<mapsto> image)) p) \<and>
    ol_target_size (lc_level_zero (en_levels en1)) = ol_target_size (lc_level_zero (en_levels en)) \<and>
    map_of (ww_table (en_worker en1)) = [key \<mapsto> \<lparr>mv_value = Some v, mv_seq = sq\<rparr>]"
proof -
  let ?dir = "cf_dir conf" and ?lc = "en_levels en" and ?flush = "flusher_flush (cf_dir conf) (cf_sparsity conf)"
  have si: "sst_flush.store_inv ?dir (cf_sparsity conf) crc ?lc (en_worker en) fs"
    using ei by (simp add: engine_inv_def)
  obtain old where s: "memtable_submit crc (conf_flusher conf) (JobPut key v) (en, fs) = (Ok old, en1, fs1)"
    using put by (auto simp: engine_exec_def engine_put_def memtable_put_def outcome split: prod.splits res.splits if_splits)
  obtain r1 lcf ww fsf where fl: "run_flush ?flush (?lc, en_worker en, fs) = (r1, lcf, ww, fsf)"
    by (cases "run_flush ?flush (?lc, en_worker en, fs)") auto
  obtain r2 ww' fs' where j: "run_job crc (JobPut key v) (ww, fsf) = (r2, ww', fs')"
    by (cases "run_job crc (JobPut key v) (ww, fsf)") auto
  obtain go where e: "r1 = Ok ()" "r2 = Ok (Some (Ok old), go)" "fs1 = fs'"
    "en1 = en\<lparr>en_levels := lcf, en_worker := ww', en_writer_alive := go\<rparr>"
    using s ei fl j by (auto simp: memtable_submit_def conf_flusher_def engine_inv_def split: res.splits option.splits)
  obtain u where f: "?flush (ww_table (en_worker en)) (?lc, fs) = (Ok u, lcf, fsf)" and ww: "ww_table ww = []"
    using fl full e(1) by (auto simp: run_flush_def split: prod.splits res.splits)
  have tab: "table_ok (ww_table (en_worker en))" "ww_table (en_worker en) \<noteq> []"
    "2 * table_bytes (ww_table (en_worker en)) < 2 ^ 64"
    using si full by (auto simp: sst_flush.store_inv_def)
  note i = engine_inv_sst [OF ei]
  obtain n seg image where ff: "n = highest_number (ol_segments (lc_level_zero ?lc)) 0 + 1" "n < 16 ^ 8"
    "lcf = ?lc\<lparr>lc_level_zero := (lc_level_zero ?lc)\<lparr>ol_segments := ol_segments (lc_level_zero ?lc) @ [seg]\<rparr>\<rparr>"
    "fs_content fsf = (fs_content fs)(sst_path ?dir 0 n \<mapsto> image)"
    using flusher_flush_Ok [OF i(1,2) tab f] by blast
  have fc: "n < 16 ^ 8" "fs_content fs (sst_path ?dir 0 n) = None" "fs_content fsf = (fs_content fs)(sst_path ?dir 0 n \<mapsto> image)"
    "ol_target_size (lc_level_zero lcf) = ol_target_size (lc_level_zero ?lc)"
    using ff i(1) by (simp_all add: sst_inv_def)
  obtain x where x: "job_entry (wal_lsn (ww_wal ww)) (JobPut key v) = Some x" "worker_log crc x (ww, fsf) = (Ok old, ww', fs')"
    using run_job_Ok [OF j [unfolded e(2)]] by force
  have "map_of (ww_table ww') = [key \<mapsto> \<lparr>mv_value = Some v, mv_seq = we_seq x\<rparr>]"
    using x ww by (auto simp: worker_log_def outcome on_wal_Ok worker_insert_def fun_eq_iff)
  moreover have "\<forall>p. in_dir ?dir p \<longrightarrow> fs_content fs1 p = fs_content fsf p"
    using sst_flush.worker_log_owned [OF _ x(2)] sst_flush.run_flush_view [OF si fl [unfolded e(1)]] e(3) by blast
  ultimately show ?thesis
    using fc by (intro exI [of _ n] exI [of _ image] exI [of _ "we_seq x"]) (simp add: e(4))
qed

text \<open>
  The writer adds its segment to level zero while the thread merges what it had read; the
  swap then replaces level zero by an empty one, with the new segment.
\<close>

lemma flush_behind_snapshot:
  assumes inv: "thread_inv crc conf (en, bt, fs)" and ph: "bt_phase bt = BtSwapAll new_levels"
    and full: "ww_max_size (en_worker en) \<le> ww_current_size (en_worker en)"
    and small: "command_small (CmdPut key v)"
    and put: "engine_exec crc (conf_flusher conf) (CmdPut key v) (en, fs) = (Ok r, en1, fs1)"
    and swap: "bt_step order False ThSwap (en_levels en1, bt, fs1) = Some (lc2, bt2, fs2)"
  shows "engine_get k (en1\<lparr>en_levels := lc2\<rparr>, fs2) =
    (Ok (if k = key then Some v else engine_stored en fs k), en1\<lparr>en_levels := lc2\<rparr>, fs2)"
proof -
  let ?dir = "cf_dir conf" and ?lc = "en_levels en"
  have m: "merge_inv crc conf ?lc (swap_all_levels new_levels ?lc) (en, bt, fs)"
    using inv ph by (simp add: thread_inv_def)
  then obtain seg where ei: "engine_inv crc conf en fs"
    and mi: "merged_into ?dir (cf_sparsity conf) ?lc seg (swap_all_levels new_levels ?lc) fs"
    by (auto simp: merge_inv_def)
  note i = engine_inv_sst [OF ei]
  obtain n image sq where f: "n < 16 ^ 8" "fs_content fs (sst_path ?dir 0 n) = None"
    "\<forall>p. in_dir ?dir p \<longrightarrow> fs_content fs1 p = ((fs_content fs)(sst_path ?dir 0 n \<mapsto> image)) p"
    "ol_target_size (lc_level_zero (en_levels en1)) = ol_target_size (lc_level_zero ?lc)"
    "map_of (ww_table (en_worker en1)) = [key \<mapsto> \<lparr>mv_value = Some v, mv_seq = sq\<rparr>]"
    using put_flushes [OF ei small full put] by blast
  have nf1: "fs_faults fs1 = []" "\<not> en_poisoned en1"
    using engine_exec_view [OF ei small put] engine_inv_sst by blast+
  have lc2: "lc2 = swap_all_levels new_levels ?lc" "fs2 = fs1"
    using swap ph f(4) by (auto simp: bt_step_def swap_all_levels_def)
  let ?fs' = "remove_unused [seg] fs"
  have new: "sst_inv ?dir (cf_sparsity conf) lc2 ?fs'" "sst_stored lc2 ?fs' = sst_stored ?lc fs"
    using mi by (simp_all add: merged_into_def Let_def lc2(1))
  have keeps: "\<forall>s \<in> all_segments lc2. fs_content fs1 (sg_path s) = fs_content ?fs' (sg_path s)"
  proof
    fix s assume "s \<in> all_segments lc2"
    then have s: "segment_on ?fs' s" "in_dir ?dir (sg_path s)" using new(1) by (simp_all add: sst_inv_def)
    then have "sg_path s \<noteq> sg_path seg" "fs_content fs (sg_path s) \<noteq> None"
      by (auto simp: segment_on_def remove_one [OF i(2)] simp del: remove_unused.simps split: if_splits)
    then show "fs_content fs1 (sg_path s) = fs_content ?fs' (sg_path s)"
      using f(2,3) s(2) by (auto simp: remove_one [OF i(2)] simp del: remove_unused.simps)
  qed
  note same = sst_same [OF new(1) remove_one(1) [OF i(2)] nf1(1) keeps]
  have inv2: "sstable_inv lc2 fs1"
    using same by (auto simp: sstable_inv_def overlapping_inv_def partitioned_inv_def all_segments_def)
  have "sst_stored lc2 fs1 = sst_stored lc2 ?fs'"
    using same by (intro ext) (simp add: sst_stored_def sstable_contents_def)
  then have st: "sst_stored lc2 fs1 = sst_stored ?lc fs" using new(2) by simp
  have "engine_view (en1\<lparr>en_levels := lc2\<rparr>) fs1 k = (if k = key then Some v else engine_stored en fs k)"
    by (simp add: engine_view_def engine_stored_def visible_def st f(5) map_add_def)
  then show ?thesis
    using engine_get_sstable [of "en1\<lparr>en_levels := lc2\<rparr>" fs1 k] nf1 inv2 by (simp add: lc2(2))
qed

end
