(* ===== verification/Sst_Select.thy ===== *)
theory Sst_Select
  imports Compaction_Thread Sst_Compact
begin

text \<open>
  Which segments a compaction of level zero takes (\<open>segments_to_merge\<close> of
  \<open>src/storage_engine/sstable/level.rs\<close>) when the segments have the numbers the flusher gives
  them: from one on, in the order of the flushes.  The loop counts the number it looks for
  down at every segment, not at every match.
\<close>

definition numbered :: "sst_segment list \<Rightarrow> bool" where
  "numbered segs \<longleftrightarrow> map sg_number segs = [1..<length segs + 1]"

lemma numbered_Nil [simp]: "numbered []"
  by (simp add: numbered_def)

lemma numbered_nth: "numbered segs \<Longrightarrow> i < length segs \<Longrightarrow> sg_number (segs ! i) = i + 1"
  by (metis add.commute length_map length_upt nth_map nth_upt numbered_def add_diff_cancel_right' add_less_cancel_left)

lemma numbered_snoc: "numbered segs \<Longrightarrow> sg_number seg = length segs + 1 \<Longrightarrow> numbered (segs @ [seg])"
  by (simp add: numbered_def)

lemma numbered_highest: "numbered segs \<Longrightarrow> highest_number segs 0 = length segs"
proof (induction segs rule: rev_induct)
  case (snoc seg segs)
  then have "numbered segs" "sg_number seg = length segs + 1" by (simp_all add: numbered_def)
  with snoc.IH show ?case by (simp add: highest_number_append)
qed simp

section \<open>One pass\<close>

type_synonym selection = "(io_error, sst_segment list \<times> nat \<times> nat) res"

text \<open>A pass that meets no match, and one that meets the only match.\<close>

lemma select_pass_none:
  "length segs \<le> number \<Longrightarrow> \<forall>i < length segs. sg_number (segs ! i) \<noteq> number - i \<Longrightarrow>
   select_pass segs acc sz number = Ok (acc, sz, number - length segs)"
proof (induction segs arbitrary: number)
  case (Cons seg segs)
  have "sg_number seg \<noteq> number" using Cons.prems(2) by (auto dest: spec [of _ 0])
  moreover have "\<forall>i < length segs. sg_number (segs ! i) \<noteq> number - 1 - i"
    using Cons.prems(2) by (auto dest: spec [of _ "Suc _"])
  ultimately show ?case using Cons.IH [of "number - 1"] Cons.prems(1) by (simp add: sub_chk_def)
qed simp

lemma select_pass_append:
  "(select_pass (xs @ ys) acc sz number :: selection) =
    bind_res (select_pass xs acc sz number) (\<lambda>(acc', sz', number'). select_pass ys acc' sz' number')"
proof (induction xs arbitrary: acc sz number)
  case (Cons x xs)
  have "(select_pass (xs @ ys) acc' sz' :: nat \<Rightarrow> selection) = (\<lambda>number'. bind_res (select_pass xs acc' sz' number')
      (\<lambda>(acc'', sz'', number''). select_pass ys acc'' sz'' number''))" for acc' sz'
    by (rule ext) (rule Cons.IH)
  then show ?case by (simp add: bind_res_assoc case_prod_unfold)
qed simp

lemma select_pass_even:
  assumes "numbered segs" "even (length segs)"
  shows "select_pass segs acc sz (length segs) = Ok (acc, sz, 0)"
proof -
  have "sg_number (segs ! i) \<noteq> length segs - i" if "i < length segs" for i
  proof
    assume "sg_number (segs ! i) = length segs - i"
    then have "length segs = 2 * i + 1" using numbered_nth [OF assms(1) that] that by simp
    then show False using assms(2) by simp
  qed
  then show ?thesis using select_pass_none [of segs "length segs"] by simp
qed

lemma select_pass_odd:
  assumes num: "numbered segs" and len: "length segs = 2 * m + 1" and sz: "sg_size (segs ! m) \<le> sz"
  shows "select_pass segs acc sz (length segs) = (Ok (acc @ [segs ! m], sz - sg_size (segs ! m), 0) :: selection)"
proof -
  let ?seg = "segs ! m" and ?xs = "take m segs" and ?ys = "drop (Suc m) segs"
  have split: "segs = ?xs @ ?seg # ?ys" using len by (intro id_take_nth_drop) simp
  have nth: "sg_number (segs ! i) = i + 1" if "i < 2 * m + 1" for i using numbered_nth [OF num] that len by simp
  have "select_pass ?xs acc sz (length segs) = (Ok (acc, sz, Suc m) :: selection)"
    using select_pass_none [of ?xs "length segs" acc sz] nth len by force
  moreover have "select_pass ?ys (acc @ [?seg]) (sz - sg_size ?seg) m = (Ok (acc @ [?seg], sz - sg_size ?seg, 0) :: selection)"
    using select_pass_none [of ?ys m] nth len by force
  moreover have "(select_pass (?seg # ?ys) acc sz (Suc m) :: selection) = select_pass ?ys (acc @ [?seg]) (sz - sg_size ?seg) m"
    using nth [of m] sz by (simp add: sub_chk_def)
  ultimately show ?thesis
    by (subst split) (simp add: select_pass_append del: select_pass.simps append_take_drop_id)
qed

section \<open>The loop\<close>

text \<open>After one pass the number is zero: a second pass underflows.\<close>

lemma select_loop_zero:
  "segs \<noteq> [] \<Longrightarrow> numbered segs \<Longrightarrow> select_loop target segs acc sz 0 = (if target < sz then Panic else Ok acc)"
  using numbered_nth [of segs 0]
  by (cases segs) (simp_all add: select_loop.simps(2) sub_chk_def)

lemma select_loop_pass:
  "target < sz \<Longrightarrow> segs \<noteq> [] \<Longrightarrow>
   select_pass segs acc sz number = (Ok (acc', sz', number') :: selection) \<Longrightarrow>
   select_loop target segs acc sz number = select_loop target segs acc' sz' number'"
  by (cases segs) (simp_all add: select_loop.simps(2) [of target _ _ acc sz number] del: select_pass.simps)

lemma nth_size_le_total: "i < length segs \<Longrightarrow> sg_size (segs ! i) \<le> total_size segs"
  by (simp add: total_size_def member_le_sum_list)

lemma level_zero_selection_cases:
  assumes num: "numbered (ol_segments level)" and over: "ol_target_size level < total_size (ol_segments level)"
  shows "overlapping_segments_to_merge level =
    (let segs = ol_segments level; middle = segs ! (length segs div 2) in
     if odd (length segs) \<and> total_size segs - sg_size middle \<le> ol_target_size level then Ok [middle] else Panic)"
proof -
  let ?segs = "ol_segments level" and ?target = "ol_target_size level"
  let ?total = "total_size ?segs"
  have ne: "?segs \<noteq> []" using over by (auto simp: total_size_def)
  have start: "overlapping_segments_to_merge level = select_loop ?target ?segs [] ?total (length ?segs)"
    by (simp add: overlapping_segments_to_merge_def numbered_highest [OF num])
  show ?thesis
  proof (cases "even (length ?segs)")
    case True
    then show ?thesis
      using select_loop_pass [OF over ne select_pass_even [OF num True]] select_loop_zero [OF ne num] over
      by (simp add: start)
  next
    case False
    then obtain m where m: "length ?segs = 2 * m + 1" by (elim oddE)
    then have "length ?segs div 2 = m" "sg_size (?segs ! m) \<le> ?total" by (auto intro!: nth_size_le_total)
    then show ?thesis
      using select_loop_pass [OF over ne select_pass_odd [OF num m]] select_loop_zero [OF ne num] False
      by (simp add: start Let_def)
  qed
qed

text \<open>What a notified thread does then.\<close>

lemma notified_selection:
  assumes "numbered (ol_segments (lc_level_zero lc))" "do_compact lc" "bt_phase bt = BtWoken False"
    and "even (length (ol_segments (lc_level_zero lc)))"
  shows "bt_step order stop ThCompact (lc, bt, fs) = Some (lc, bt\<lparr>bt_phase := BtPanicked\<rparr>, fs)"
proof -
  have "ol_target_size (lc_level_zero lc) < total_size (ol_segments (lc_level_zero lc))"
    using assms(2) by (simp add: do_compact_def overlapping_exceeds_def)
  from level_zero_selection_cases [OF assms(1) this] show ?thesis
    using assms(3,4) by (simp add: bt_step_def compact_from_level_zero_def compacted_def)
qed

text \<open>With an odd number, one segment is merged and the swap drops the others.\<close>

lemma notified_turn_middle:
  assumes num: "numbered (ol_segments (lc_level_zero lc))" and n: "length (ol_segments (lc_level_zero lc)) = 2 * m + 1"
    and middle: "ol_segments (lc_level_zero lc) ! m = seg" "segment_of seg es ps" "es \<noteq> []"
    and fs: "fs_faults fs = []" "fs_content fs (sg_path seg) = Some (data_block es @ rest)" "rest \<noteq> []"
    and dir: "butlast (sg_path seg) = dir" "dir \<in> set (fs_dirs fs)"
    and new: "fs_content fs (sst_path dir 1 1) = None" and size: "length (data_block es) < 2 ^ 23"
    and lc: "ol_target_size (lc_level_zero lc) = target" "lc_partitioned_levels lc = []"
    and over: "target < total_size (ol_segments (lc_level_zero lc))"
      "total_size (ol_segments (lc_level_zero lc)) - sg_size seg \<le> target"
    and next_size: "2 * length (data_block es) + 12 \<le> target * factor" "target * factor < 2 ^ 64"
  shows "\<exists>lc' pending' fs'. bt_turn order factor in_use [] EvNotified (lc, [], fs) =
      Some (Ok True, lc', pending', fs') \<and> ol_segments (lc_level_zero lc') = [] \<and>
    (\<forall>key. sstable_get lc' key fs' = (Ok (lookup_entry es key), fs')) \<and>
    pending' = filter in_use [seg] \<and> (\<not> in_use seg \<longrightarrow> fs_content fs' (sg_path seg) = None)"
proof -
  have d: "length (ol_segments (lc_level_zero lc)) div 2 = m" "odd (length (ol_segments (lc_level_zero lc)))"
    using n by simp_all
  have "overlapping_segments_to_merge (lc_level_zero lc) = Ok [seg]"
    using level_zero_selection_cases [OF num] over by (simp add: lc d middle(1))
  from bt_turn_selected [OF middle(2,3) fs dir new size lc this next_size] show ?thesis .
qed

end
