(* ===== verification/Engine_Numbering.thy ===== *)
theory Engine_Numbering
  imports Engine_Thread Sst_Select
begin

text \<open>
  The numbers of the segments in level zero of a running engine: from a new store they count
  the flushes since the last swap, through every calm run of commands and steps of the
  thread, so that \<open>Sst_Select\<close> tells what the next compaction takes.
\<close>

definition engine_numbered :: "engine \<Rightarrow> bool" where
  "engine_numbered en \<longleftrightarrow> numbered (ol_segments (lc_level_zero (en_levels en)))"

lemma flush_numbered:
  assumes inv: "engine_inv crc conf en fs" and num: "engine_numbered en"
    and run: "run_flush (conf_flusher conf) (en_levels en, en_worker en, fs) = (Ok u, lc, ww, fs')"
  shows "numbered (ol_segments (lc_level_zero lc))"
proof (cases "ww_max_size (en_worker en) \<le> ww_current_size (en_worker en)")
  case True
  note i = engine_inv_sst [OF inv]
  let ?table = "ww_table (en_worker en)"
  have si: "sst_flush.store_inv (cf_dir conf) (cf_sparsity conf) crc (en_levels en) (en_worker en) fs"
    using inv by (simp add: engine_inv_def)
  obtain u1 where f: "flusher_flush (cf_dir conf) (cf_sparsity conf) ?table (en_levels en, fs) = (Ok u1, lc, fs')"
    using run True by (auto simp: run_flush_def conf_flusher_def split: prod.splits res.splits)
  have tab: "table_ok ?table" "?table \<noteq> []" "2 * table_bytes ?table < 2 ^ 64"
    using si True by (auto simp: sst_flush.store_inv_def)
  obtain n seg where "n = highest_number (ol_segments (lc_level_zero (en_levels en))) 0 + 1"
    "lc = en_levels en\<lparr>lc_level_zero := (lc_level_zero (en_levels en))
      \<lparr>ol_segments := ol_segments (lc_level_zero (en_levels en)) @ [seg]\<rparr>\<rparr>" "sg_number seg = n"
    using flusher_flush_Ok [OF i(1,2) tab f] by blast
  then show ?thesis using num by (simp add: engine_numbered_def numbered_highest numbered_snoc)
qed (use run num in \<open>simp add: run_flush_def engine_numbered_def\<close>)

lemma command_numbered:
  assumes inv: "engine_inv crc conf en fs" and num: "engine_numbered en"
    and run: "engine_exec crc (conf_flusher conf) cmd (en, fs) = (Ok r, en', fs')"
  shows "engine_numbered en'"
proof (cases "\<exists>key. cmd = CmdGet key")
  case True
  then obtain key where "cmd = CmdGet key" by blast
  then show ?thesis using get_answers [OF engine_get_view [OF inv, of key]] run num by blast
next
  case False
  then obtain job old where s: "job \<noteq> JobShutdown" "memtable_submit crc (conf_flusher conf) job (en, fs) = (Ok old, en', fs')"
    using write_submits [OF run] by blast
  obtain r1 lc ww fs1 where f: "run_flush (conf_flusher conf) (en_levels en, en_worker en, fs) = (r1, lc, ww, fs1)"
    by (cases "run_flush (conf_flusher conf) (en_levels en, en_worker en, fs)")
  obtain u where "r1 = Ok u" "en_levels en' = lc"
    using s(2) inv f by (auto simp: memtable_submit_def engine_inv_def split: res.splits prod.splits option.splits)
  then show ?thesis using flush_numbered [OF inv num] f by (simp add: engine_numbered_def)
qed

lemma thread_command_numbered:
  assumes inv: "thread_inv crc conf (en, bt, fs)" and num: "engine_numbered en"
    and quiet: "swapping (bt_phase bt) \<longrightarrow> no_flush en cmd"
    and run: "engine_exec crc (conf_flusher conf) cmd (en, fs) = (Ok r, en', fs')"
  shows "engine_numbered en'"
proof (cases "swapping (bt_phase bt)")
  case True
  show ?thesis
  proof (cases "\<exists>key. cmd = CmdGet key")
    case True
    then obtain key where "cmd = CmdGet key" by blast
    then show ?thesis using get_answers [OF thread_inv_get [OF inv, of key]] run num by blast
  next
    case False
    then show ?thesis using quiet_write [OF run] True quiet num by (auto simp: engine_numbered_def)
  qed
next
  case False
  then have "engine_inv crc conf en fs"
    using inv by (auto simp: thread_inv_def swapping_def system_inv_def split: bt_phase.splits)
  from command_numbered [OF this num run] show ?thesis .
qed

lemma bt_step_numbered:
  assumes "bt_step order stop ev (lc, bt, fs) = Some (lc', bt', fs')" "numbered (ol_segments (lc_level_zero lc))"
  shows "numbered (ol_segments (lc_level_zero lc'))"
proof -
  have "lc' = lc \<or> (\<exists>levels. lc' = swap_all_levels levels lc \<or> lc' = swap_partitioned_levels levels lc)"
    using assms(1) by (auto simp: bt_step_def Let_def split: bt_phase.splits thread_event.splits bool.splits prod.splits)
  then show ?thesis
    using assms(2) by (auto simp: swap_all_levels_def overlapping_new_def swap_partitioned_levels_def)
qed

lemma thread_run_numbered:
  assumes run: "thread_run crc order conf s0 evs s" and start: "s0 = (en0, bt0, fs0)"
    and inv: "thread_inv crc conf s0" "engine_numbered en0"
  shows "case s of (en, bt, fs) \<Rightarrow> thread_inv crc conf (en, bt, fs) \<and> engine_numbered en"
  using run
proof (induction rule: thread_run.induct)
  case tr_start
  show ?case using inv start by simp
next
  case (tr_command evs en bt fs cmd r en' fs')
  then show ?case
    using thread_command [of crc conf en bt fs cmd r en' fs'] thread_command_numbered [of crc conf en bt fs cmd r en' fs']
    by simp
next
  case (tr_thread evs en bt fs ev lc' bt' fs')
  then show ?case
    using thread_step_keeps [of crc conf en bt fs ev order lc' bt' fs']
      bt_step_numbered [of order False ev "en_levels en" bt fs lc' bt' fs']
    by (simp add: engine_numbered_def)
qed

lemma storage_engine_new_numbered:
  assumes "storage_engine_new crc order conf fs = Some (Ok en, fs')" "new_store conf fs"
  shows "engine_numbered en"
  using storage_engine_new_levels(1) [OF assms] by (simp add: engine_numbered_def container_new_def overlapping_new_def)

end
