(* ===== verification/Thread_Properties.thy ===== *)
theory Thread_Properties
  imports Engine_Numbering System_Properties
begin

text \<open>
  The properties of the engine and the single steps of its compaction thread, and of the end
  of that thread.
\<close>


text \<open>Two puts, the second of which flushes the first; the thread is notified.\<close>

definition ex_thread_start :: "thread_system option" where
  "ex_thread_start = (case storage_engine_new ex_crc (\<lambda>xs. xs) ex_small_conf ex_store_fs of
     Some (Ok en, fs) \<Rightarrow> Some (en, compaction_bt_new (cf_level_factor ex_small_conf), fs) | _ \<Rightarrow> None)"

definition ex_thread_jobs :: "thread_job list" where
  "ex_thread_jobs = [DoCommand (CmdPut (ex_str 1 97) (ex_str 3 98)), DoCommand (CmdPut (ex_str 1 98) (ex_str 3 99)),
     DoThread (ThWake False)]"

definition ex_woken :: "(thread_sys_event list \<times> thread_system) option" where
  "ex_woken = (case ex_thread_start of None \<Rightarrow> None | Some s \<Rightarrow>
     thread_exec ex_crc (\<lambda>xs. xs) ex_small_conf ex_thread_jobs ([], s))"

definition ex_woken_ok :: bool where
  "ex_woken_ok = (case ex_woken of None \<Rightarrow> False | Some (evs, en, bt, fs) \<Rightarrow>
     first_compaction ex_small_conf (en_levels en) (\<lambda>_. False) \<and> (case bt_phase bt of BtWoken False \<Rightarrow> True | _ \<Rightarrow> False) \<and>
     map_option mv_value (map_of (ww_table (en_worker en)) (ex_str 1 98)) = Some (Some (ex_str 3 99)) \<and>
     fst (engine_get (ex_str 1 98) (en\<lparr>en_worker := (en_worker en)\<lparr>ww_table := []\<rparr>\<rparr>, fs)) = Ok None \<and>
     ww_max_size (en_worker en) \<le> ww_current_size (en_worker en) \<and>
     trace_final (trace_of evs) Map.empty (ex_str 1 97) = Some (ex_str 3 98))"

lemma ex_woken_run: "ex_woken_ok"
  by code_simp

lemma ex_put_behind:
  "case ex_woken of None \<Rightarrow> False | Some (evs, en, bt, fs) \<Rightarrow>
     fst (engine_exec ex_crc (conf_flusher ex_small_conf) (CmdPut (ex_str 1 99) (ex_str 1 100))
       (en, fs_store (sst_path (cf_dir ex_small_conf) 1 1) img (fs_store (sst_path (cf_dir ex_small_conf) 1 1) [] fs))) = Ok None"
  by code_simp

lemma ex_woken_obtain:
  obtains en0 fs0 evs en bt fs where
    "storage_engine_new ex_crc (\<lambda>xs. xs) ex_small_conf ex_store_fs = Some (Ok en0, fs0)" "ex_woken = Some (evs, en, bt, fs)"
    "thread_run ex_crc (\<lambda>xs. xs) ex_small_conf (en0, compaction_bt_new (cf_level_factor ex_small_conf), fs0) evs (en, bt, fs)"
    "first_compaction ex_small_conf (en_levels en) (\<lambda>_. False)" "bt_phase bt = BtWoken False"
    "map_option mv_value (map_of (ww_table (en_worker en)) (ex_str 1 98)) = Some (Some (ex_str 3 99))"
    "fst (engine_get (ex_str 1 98) (en\<lparr>en_worker := (en_worker en)\<lparr>ww_table := []\<rparr>\<rparr>, fs)) = Ok None"
    "ww_max_size (en_worker en) \<le> ww_current_size (en_worker en)"
    "trace_final (trace_of evs) Map.empty (ex_str 1 97) = Some (ex_str 3 98)"
proof -
  note ok = ex_woken_run [unfolded ex_woken_ok_def]
  obtain evs en bt fs where w: "ex_woken = Some (evs, en, bt, fs)" using ok by (auto split: option.splits)
  obtain s where s: "ex_thread_start = Some s" using w by (auto simp: ex_woken_def split: option.splits)
  obtain en0 fs0 where e: "storage_engine_new ex_crc (\<lambda>xs. xs) ex_small_conf ex_store_fs = Some (Ok en0, fs0)"
    "s = (en0, compaction_bt_new (cf_level_factor ex_small_conf), fs0)"
    using s by (auto simp: ex_thread_start_def split: option.splits prod.splits res.splits)
  have "thread_run ex_crc (\<lambda>xs. xs) ex_small_conf s evs (en, bt, fs)"
    by (rule thread_exec_run [where jobs = ex_thread_jobs, OF _ tr_start]) (rule w [unfolded ex_woken_def s option.case])
  then have run: "thread_run ex_crc (\<lambda>xs. xs) ex_small_conf (en0, compaction_bt_new (cf_level_factor ex_small_conf), fs0) evs (en, bt, fs)"
    unfolding e(2) .
  note ok = ok [unfolded w option.case prod.case]
  have "bt_phase bt = BtWoken False" using ok by (cases "bt_phase bt") (simp_all split: bool.splits)
  then show thesis using that [OF e(1) w run] ok by blast
qed

lemma ex_small_new: "new_store ex_small_conf ex_store_fs" "conf_ok ex_small_conf"
  using ex_conf_ok by (simp_all add: new_store_def conf_ok_def ex_small_conf_def)


text \<open>C9: A write that fills the memtable while the thread merges is lost for reads: the writer adds
  the flushed segment to level zero, the swap empties level zero with it.  Every key whose
  acknowledged value was in the flushed table reads as if it had not been written since the
  flush before; only the write that caused the flush is still there.\<close>

theorem flush_during_compaction_is_lost:
  assumes new: "storage_engine_new crc order0 conf fs = Some (Ok en0, fs0)" "new_store conf fs" "conf_ok conf"
    and run: "thread_run crc order conf (en0, compaction_bt_new (cf_level_factor conf), fs0) evs (en, bt, fs1)"
    and phase: "bt_phase bt = BtSwapAll new_levels"
    and full: "ww_max_size (en_worker en) \<le> ww_current_size (en_worker en)" "command_small (CmdPut key v)"
    and put: "engine_exec crc (conf_flusher conf) (CmdPut key v) (en, fs1) = (Ok r, en1, fs2)"
    and swap: "bt_step order False ThSwap (en_levels en1, bt, fs2) = Some (lc, bt', fs3)"
    and lost: "map_of (ww_table (en_worker en)) k = Some mv" "k \<noteq> key"
  shows "trace_final (trace_of evs) Map.empty k = mv_value mv \<and>
    engine_get k (en1\<lparr>en_levels := lc\<rparr>, fs3) = (Ok (engine_stored en fs1 k), en1\<lparr>en_levels := lc\<rparr>, fs3) \<and>
    engine_get key (en1\<lparr>en_levels := lc\<rparr>, fs3) = (Ok (Some v), en1\<lparr>en_levels := lc\<rparr>, fs3)"
proof -
  have s0: "thread_inv crc conf (en0, compaction_bt_new (cf_level_factor conf), fs0)" "engine_view en0 fs0 = Map.empty"
    using storage_engine_new_thread [OF new] storage_engine_new_inv [OF new] by auto
  have s: "thread_inv crc conf (en, bt, fs1)" "engine_view en fs1 = trace_final (trace_of evs) Map.empty"
    using thread_run_view [OF run refl s0] by auto
  have "engine_view en fs1 k = mv_value mv" using lost(1) by (simp add: engine_view_def visible_def)
  then show ?thesis
    using flush_behind_snapshot [OF s(1) phase full put swap] s(2) lost(2) by simp
qed

theorem flush_during_compaction_is_lost_witness:
  "\<exists>en0 fs0 evs en bt fs1 en1 fs2 lc bt' fs3.
    storage_engine_new ex_crc (\<lambda>xs. xs) ex_small_conf ex_store_fs = Some (Ok en0, fs0) \<and>
    thread_run ex_crc (\<lambda>xs. xs) ex_small_conf (en0, compaction_bt_new (cf_level_factor ex_small_conf), fs0) evs (en, bt, fs1) \<and>
    engine_exec ex_crc (conf_flusher ex_small_conf) (CmdPut (ex_str 1 99) (ex_str 1 100)) (en, fs1) = (Ok None, en1, fs2) \<and>
    bt_step (\<lambda>xs. xs) False ThSwap (en_levels en1, bt, fs2) = Some (lc, bt', fs3) \<and>
    trace_final (trace_of evs) Map.empty (ex_str 1 98) = Some (ex_str 3 99) \<and>
    engine_get (ex_str 1 98) (en1\<lparr>en_levels := lc\<rparr>, fs3) = (Ok None, en1\<lparr>en_levels := lc\<rparr>, fs3)"
proof -
  let ?run = "thread_run ex_crc (\<lambda>xs. xs) ex_small_conf" and ?put = "CmdPut (ex_str 1 99) (ex_str 1 100)"
  let ?exec = "engine_exec ex_crc (conf_flusher ex_small_conf) ?put"
  obtain en0 fs0 evs en bt fs where e: "storage_engine_new ex_crc (\<lambda>xs. xs) ex_small_conf ex_store_fs = Some (Ok en0, fs0)"
    and wk: "ex_woken = Some (evs, en, bt, fs)"
    and run: "?run (en0, compaction_bt_new (cf_level_factor ex_small_conf), fs0) evs (en, bt, fs)"
    and w: "first_compaction ex_small_conf (en_levels en) (\<lambda>_. False)" "bt_phase bt = BtWoken False"
    "map_option mv_value (map_of (ww_table (en_worker en)) (ex_str 1 98)) = Some (Some (ex_str 3 99))"
    "fst (engine_get (ex_str 1 98) (en\<lparr>en_worker := (en_worker en)\<lparr>ww_table := []\<rparr>\<rparr>, fs)) = Ok None"
    "ww_max_size (en_worker en) \<le> ww_current_size (en_worker en)"
    by (rule ex_woken_obtain)
  let ?s0 = "(en0, compaction_bt_new (cf_level_factor ex_small_conf), fs0)"
  have inv: "thread_inv ex_crc ex_small_conf (en, bt, fs)"
    using thread_run_view [OF run refl storage_engine_new_thread [OF e ex_small_new]] by auto
  then have "engine_inv ex_crc ex_small_conf en fs" using w(2) by (simp add: thread_inv_def system_inv_def)
  note i = engine_inv_sst [OF this]
  have none: "engine_stored en fs (ex_str 1 98) = None"
    using w(4) i engine_get_sstable [of "en\<lparr>en_worker := (en_worker en)\<lparr>ww_table := []\<rparr>\<rparr>" fs "ex_str 1 98"]
    by (simp add: engine_view_def engine_stored_def)
  obtain bt1 fs1 levels img where c: "bt_step (\<lambda>xs. xs) False ThCompact (en_levels en, bt, fs) = Some (en_levels en, bt1, fs1)"
    "bt_phase bt1 = BtSwapAll levels" "engine_stored en fs1 = engine_stored en fs" "thread_inv ex_crc ex_small_conf (en, bt1, fs1)"
    "fs1 = fs_store (sst_path (cf_dir ex_small_conf) 1 1) img (fs_store (sst_path (cf_dir ex_small_conf) 1 1) [] fs)"
    using notified_compact [OF inv w(2,1)] by blast
  have r1: "?run ?s0 (evs @ [TsThread ThCompact]) (en, bt1, fs1)"
    using tr_thread [OF run _ c(1)] w by (simp add: thread_calm_def)
  obtain ans en1 fs2 where p: "?exec (en, fs1) = (ans, en1, fs2)" by (cases "?exec (en, fs1)")
  have "fst (?exec (en, fs1)) = Ok None" using ex_put_behind [of img] by (simp add: wk c(5))
  then have p: "?exec (en, fs1) = (Ok None, en1, fs2)" using p by simp
  let ?lc = "swap_all_levels levels (en_levels en1)" and ?bt = "bt1\<lparr>bt_phase := BtRemove\<rparr>"
  have sw: "bt_step (\<lambda>xs. xs) False ThSwap (en_levels en1, bt1, fs2) = Some (?lc, ?bt, fs2)"
    using c(2) by (simp add: bt_step_def)
  obtain mv where mv: "map_of (ww_table (en_worker en)) (ex_str 1 98) = Some mv" "mv_value mv = Some (ex_str 3 99)"
    using w(3) by auto
  have "command_small ?put" "ex_str 1 98 \<noteq> ex_str 1 99" by code_simp+
  from flush_during_compaction_is_lost [OF e ex_small_new r1 c(2) w(5) this(1) p sw mv(1) this(2)]
  show ?thesis using e r1 p sw mv(2) c(3) none by (intro exI conjI) auto
qed

text \<open>The single steps are the turns: a turn after a notification or after the timeout, with
  segments added while it merges, is the sequence of its steps with the segments added before
  the swap.\<close>

theorem turns_are_steps:
  "(bt_turn order factor in_use added EvNotified (lc, pending, fs) = Some (Ok True, lc', pending', fs') \<longleftrightarrow>
     (\<exists>bt1 fs1. bt_steps order False [ThWake False, ThCompact]
          (lc, \<lparr>bt_segments_to_delete = pending, bt_level_size_factor = factor, bt_phase = BtWaiting\<rparr>, fs) = Some (lc, bt1, fs1) \<and>
        bt_steps order False [ThSwap, ThRemove in_use] (container_add added lc, bt1, fs1) =
          Some (lc', \<lparr>bt_segments_to_delete = pending', bt_level_size_factor = factor, bt_phase = BtWaiting\<rparr>, fs'))) \<and>
   (bt_turn order factor in_use added EvTimedOut (lc, pending, fs) = Some (Ok True, lc', pending', fs') \<longleftrightarrow>
     (\<exists>bt1 fs1. bt_steps order False [ThWake True, ThRemove in_use, ThCompact]
          (lc, \<lparr>bt_segments_to_delete = pending, bt_level_size_factor = factor, bt_phase = BtWaiting\<rparr>, fs) = Some (lc, bt1, fs1) \<and>
        bt_steps order False [ThSwap] (container_add added lc, bt1, fs1) =
          Some (lc', \<lparr>bt_segments_to_delete = pending', bt_level_size_factor = factor, bt_phase = BtWaiting\<rparr>, fs')))"
  by (intro conjI notified_turn_steps timed_out_turn_steps)

text \<open>C25: Dropping the table waits for at most one merge: once the stop flag is set, the thread takes
  at most four more steps, and it comes to its end, so that the join returns, exactly when the
  merge it is about to start ends.\<close>

theorem drop_waits_for_one_merge:
  assumes "t' = sstable_drop t"
  shows "((\<exists>evs lc bt fs'. bt_steps order (st_bt_stop t') evs (st_inner t', st_bt t', fs) = Some (lc, bt, fs') \<and>
      bt_joinable bt) \<longleftrightarrow> merge_ends order (st_inner t, st_bt t, fs)) \<and>
    (\<forall>evs s. bt_steps order (st_bt_stop t') evs (st_inner t', st_bt t', fs) = Some s \<longrightarrow> length evs \<le> 4)"
proof -
  have t': "st_bt_stop t'" "st_inner t' = st_inner t" "st_bt t' = st_bt t" by (simp_all add: assms sstable_drop_def)
  have "length evs \<le> 4" if "bt_steps order True evs (st_inner t, st_bt t, fs) = Some s" for evs s
  proof -
    have "steps_left ph \<le> 4" for ph by (cases ph) simp_all
    from this [of "bt_phase (st_bt t)"] show ?thesis using bt_steps_stopping [OF that] by simp
  qed
  moreover note can_end_iff [of order "st_inner t" "st_bt t" fs, unfolded can_end_def]
  ultimately show ?thesis using t' by auto
qed

definition ex_dropped :: "(ss_table \<times> file_system) option" where
  "ex_dropped = (case sstable_start (\<lambda>xs. xs) [''db'', ''SSTable''] 10 100 1 ex_store_fs of
     Some (Ok t, fs) \<Rightarrow> Some (sstable_drop t, fs) | _ \<Rightarrow> None)"

theorem drop_waits_for_one_merge_witness:
  "\<exists>t fs evs lc bt fs'. ex_dropped = Some (t, fs) \<and> st_bt_stop t \<and>
    bt_steps (\<lambda>xs. xs) (st_bt_stop t) evs (st_inner t, st_bt t, fs) = Some (lc, bt, fs') \<and> bt_joinable bt \<and> length evs \<le> 4"
proof -
  have c: "case ex_dropped of None \<Rightarrow> False | Some (t, fs) \<Rightarrow> st_bt_stop t \<and> (case bt_phase (st_bt t) of BtWaiting \<Rightarrow> True | _ \<Rightarrow> False)"
    by code_simp
  then obtain t fs where t: "ex_dropped = Some (t, fs)" "st_bt_stop t" "bt_phase (st_bt t) = BtWaiting"
    by (auto split: option.splits bt_phase.splits)
  have d: "t = sstable_drop t" using t(2) by (simp add: sstable_drop_def)
  have "merge_ends (\<lambda>xs. xs) (st_inner t, st_bt t, fs)" using t(3) by (simp add: merge_ends_def)
  with drop_waits_for_one_merge [OF d, of "\<lambda>xs. xs" fs] obtain evs lc bt fs' where
    "bt_steps (\<lambda>xs. xs) (st_bt_stop t) evs (st_inner t, st_bt t, fs) = Some (lc, bt, fs')" "bt_joinable bt" "length evs \<le> 4"
    by blast
  then show ?thesis using t by blast
qed

section \<open>What a compaction of several segments takes\<close>

text \<open>C21: Level zero over its size with the segments one to \<open>n\<close>, as the flusher numbers them: the
  selection takes the one segment in the middle when \<open>n\<close> is odd and the others are within the
  size, and panics in every other case, for it counts down at every segment it looks at.\<close>

theorem selection_takes_middle_or_panics:
  assumes "map sg_number (ol_segments level) = [1..<length (ol_segments level) + 1]"
    and "ol_target_size level < total_size (ol_segments level)"
  shows "overlapping_segments_to_merge level =
    (let segs = ol_segments level; middle = segs ! (length segs div 2) in
     if odd (length segs) \<and> total_size segs - sg_size middle \<le> ol_target_size level then Ok [middle] else Panic)"
  by (rule level_zero_selection_cases) (simp_all add: numbered_def assms)

definition ex_segment :: "nat \<Rightarrow> nat \<Rightarrow> sst_segment" where
  "ex_segment number sz = \<lparr>sg_path = sst_path ex_sst_dir 0 number, sg_index = index_new, sg_highest_sequence_no = 0, sg_size = sz, sg_data_block_end = 0,
     sg_level_number = 0, sg_number = number, sg_first_key = ex_str 1 97, sg_last_key = ex_str 1 97\<rparr>"

theorem selection_takes_middle_or_panics_witness:
  "overlapping_segments_to_merge \<lparr>ol_segments = [ex_segment 1 5, ex_segment 2 20, ex_segment 3 5], ol_target_size = 10\<rparr> =
     Ok [ex_segment 2 20] \<and>
   overlapping_segments_to_merge \<lparr>ol_segments = [ex_segment 1 5, ex_segment 2 20], ol_target_size = 10\<rparr> = Panic"
  by (simp add: selection_takes_middle_or_panics ex_segment_def total_size_def upt_rec)


text \<open>Three segments; the first and the last hold a key of their own.\<close>

definition ex_other_table :: mem_map where
  "ex_other_table = [(ex_str 1 120, \<lparr>mv_value = Some (ex_str 1 121), mv_seq = 3\<rparr>)]"

lemma ex_other_ok: "table_ok ex_other_table" "ex_other_table \<noteq> []" "2 * table_bytes ex_other_table < 2 ^ 64"
  by code_simp+

lemma ex_written:
  assumes tab: "table_ok table" "table \<noteq> []" "2 * table_bytes table < 2 ^ 64"
    and n: "n < 16 ^ 8" and fs: "fs_faults fs = []" "ex_sst_dir \<in> set (fs_dirs fs)"
    "fs_content fs (sst_path ex_sst_dir 0 n) = None"
  obtains fs' seg ps where "segment_of seg (sorted_entries table) ps" "sg_path seg = sst_path ex_sst_dir 0 n" "sg_number seg = n"
    "fs_content fs' = (fs_content fs)(sst_path ex_sst_dir 0 n \<mapsto> segment_image (sorted_entries table) ps)"
    "fs_dirs fs' = fs_dirs fs" "fs_faults fs' = []" "sg_size seg = length (segment_image (sorted_entries table) ps)"
proof -
  let ?es = "sorted_entries table"
  obtain ps fs' where im: "points_ok ?es ps" "fs_dirs fs' = fs_dirs fs" "fs_faults fs' = []"
    "fs_content fs' = (fs_content fs)(sst_path ex_sst_dir 0 n \<mapsto> segment_image ?es ps)"
    using segment_file_from_memtable_image [OF tab(1) _ n fs, of 1] by auto
  have "length (map se_key ?es) \<noteq> 0" unfolding sorted_entries_keys using tab(2) by simp
  then have ok: "run_ok ?es ps"
    using sorted_entries_ok [OF tab(1)] im(1) length_sorted_entries [OF tab(1)] tab(3) by (auto simp: run_ok_def)
  have name: "sst_path ex_sst_dir 0 n \<noteq> []"
    "level_and_segment_number (last (sst_path ex_sst_dir 0 n)) = (Ok (0, n) :: (segment_open_error, nat \<times> nat) res)"
    using sst_path_parses [OF n] by (simp_all add: sst_path_def)
  obtain seg where "segment_of seg ?es ps" "sg_path seg = sst_path ex_sst_dir 0 n" "sg_number seg = n"
    "sg_size seg = length (segment_image ?es ps)"
    using segment_from_file_image [OF ok im(3) _ name] im(4) by auto
  then show thesis using that im by blast
qed

lemma ex_three:
  obtains fs s1 s2 s3 ps1 ps2 ps3 where
    "segment_of s1 (sorted_entries ex_other_table) ps1" "segment_of s2 (sorted_entries ex_table) ps2"
    "segment_of s3 (sorted_entries ex_other_table) ps3" "fs_faults fs = []" "ex_sst_dir \<in> set (fs_dirs fs)"
    "sg_path s1 = sst_path ex_sst_dir 0 1" "sg_path s2 = sst_path ex_sst_dir 0 2" "sg_path s3 = sst_path ex_sst_dir 0 3"
    "sg_number s1 = 1" "sg_number s2 = 2" "sg_number s3 = 3"
    "fs_content fs (sg_path s1) = Some (segment_image (sorted_entries ex_other_table) ps1)"
    "fs_content fs (sg_path s2) = Some (segment_image (sorted_entries ex_table) ps2)"
    "fs_content fs (sg_path s3) = Some (segment_image (sorted_entries ex_other_table) ps3)"
    "fs_content fs (sst_path ex_sst_dir 1 1) = None"
    "sg_size s1 = length (segment_image (sorted_entries ex_other_table) ps1)"
    "sg_size s2 = length (segment_image (sorted_entries ex_table) ps2)"
    "sg_size s3 = length (segment_image (sorted_entries ex_other_table) ps3)"
proof -
  let ?A = "sorted_entries ex_other_table" and ?B = "sorted_entries ex_table" and ?p = "sst_path ex_sst_dir 0"
  have neq: "?p 2 \<noteq> ?p 1" "?p 3 \<noteq> ?p 1" "?p 3 \<noteq> ?p 2" "sst_path ex_sst_dir 1 1 \<notin> {?p 1, ?p 2, ?p 3}" by code_simp+
  obtain fs1 s1 ps1 where 1: "segment_of s1 ?A ps1" "sg_path s1 = ?p 1" "sg_number s1 = 1"
    "fs_content fs1 = (fs_content ex_sst_fs)(?p 1 \<mapsto> segment_image ?A ps1)"
    "fs_dirs fs1 = fs_dirs ex_sst_fs" "fs_faults fs1 = []" "sg_size s1 = length (segment_image ?A ps1)"
    by (rule ex_written [OF ex_other_ok, of 1 ex_sst_fs]) simp_all
  have f1: "ex_sst_dir \<in> set (fs_dirs fs1)" "fs_content fs1 (?p 2) = None" using 1(4,5) neq by simp_all
  obtain fs2 s2 ps2 where 2: "segment_of s2 ?B ps2" "sg_path s2 = ?p 2" "sg_number s2 = 2"
    "fs_content fs2 = (fs_content fs1)(?p 2 \<mapsto> segment_image ?B ps2)"
    "fs_dirs fs2 = fs_dirs fs1" "fs_faults fs2 = []" "sg_size s2 = length (segment_image ?B ps2)"
    by (rule ex_written [OF ex_table_ok _ 1(6) f1]) simp_all
  have f2: "ex_sst_dir \<in> set (fs_dirs fs2)" "fs_content fs2 (?p 3) = None" using 1(4,5) 2(4,5) neq by simp_all
  obtain fs s3 ps3 where 3: "segment_of s3 ?A ps3" "sg_path s3 = ?p 3" "sg_number s3 = 3"
    "fs_content fs = (fs_content fs2)(?p 3 \<mapsto> segment_image ?A ps3)"
    "fs_dirs fs = fs_dirs fs2" "fs_faults fs = []" "sg_size s3 = length (segment_image ?A ps3)"
    by (rule ex_written [OF ex_other_ok _ 2(6) f2]) simp_all
  show thesis
    by (rule that [OF 1(1) 2(1) 3(1) 3(6) _ 1(2) 2(2) 3(2) 1(3) 2(3) 3(3) _ _ _ _ 1(7) 2(7) 3(7)])
      (use neq 1(2,5) 2(2,5) 3(2,5) in \<open>simp_all add: 1(4) 2(4) 3(4)\<close>)
qed


text \<open>C10: A notification with an even number of flushed segments in level zero, over its size, ends
  the compaction thread: from a new store, after any calm run, its step panics; the levels,
  the files and all reads stay, and no step of the thread is possible ever after.\<close>

theorem even_level_zero_ends_compaction:
  assumes new: "storage_engine_new crc order0 conf fs = Some (Ok en0, fs0)" "new_store conf fs" "conf_ok conf"
    and run: "thread_run crc order conf (en0, compaction_bt_new (cf_level_factor conf), fs0) evs (en, bt, fs1)"
    and woken: "bt_phase bt = BtWoken False" "do_compact (en_levels en)"
      "even (length (ol_segments (lc_level_zero (en_levels en))))"
  shows "bt_step order False ThCompact (en_levels en, bt, fs1) = Some (en_levels en, bt\<lparr>bt_phase := BtPanicked\<rparr>, fs1) \<and>
    engine_get key (en, fs1) = (Ok (trace_final (trace_of evs) Map.empty key), en, fs1) \<and>
    bt_step order stop ev (lc, bt\<lparr>bt_phase := BtPanicked\<rparr>, fs2) = None"
proof -
  have s0: "thread_inv crc conf (en0, compaction_bt_new (cf_level_factor conf), fs0)" "engine_view en0 fs0 = Map.empty"
    using storage_engine_new_thread [OF new] storage_engine_new_inv [OF new] by auto
  have s: "thread_inv crc conf (en, bt, fs1)" "engine_view en fs1 = trace_final (trace_of evs) Map.empty"
    using thread_run_view [OF run refl s0] by auto
  have "engine_numbered en"
    using thread_run_numbered [OF run refl s0(1) storage_engine_new_numbered [OF new(1,2)]] by simp
  then show ?thesis
    using notified_selection [OF _ woken(2,1,3)] s thread_inv_get [OF s(1)]
    by (simp add: engine_numbered_def bt_step_def)
qed

definition ex_two_segments :: "(thread_sys_event list \<times> thread_system) option" where
  "ex_two_segments = (case ex_thread_start of None \<Rightarrow> None | Some s \<Rightarrow>
     thread_exec ex_crc (\<lambda>xs. xs) ex_small_conf
       [DoCommand (CmdPut (ex_str 1 97) (ex_str 3 98)), DoCommand (CmdPut (ex_str 1 98) (ex_str 3 99)),
        DoCommand (CmdDelete (ex_str 1 97)), DoThread (ThWake False)] ([], s))"

lemma ex_two_segments_run:
  "case ex_two_segments of None \<Rightarrow> False | Some (evs, en, bt, fs) \<Rightarrow>
     (case bt_phase bt of BtWoken False \<Rightarrow> True | _ \<Rightarrow> False) \<and> do_compact (en_levels en) \<and>
     length (ol_segments (lc_level_zero (en_levels en))) = 2"
  by code_simp

theorem even_level_zero_ends_compaction_witness:
  "\<exists>en0 fs0 evs en bt fs. storage_engine_new ex_crc (\<lambda>xs. xs) ex_small_conf ex_store_fs = Some (Ok en0, fs0) \<and>
    thread_run ex_crc (\<lambda>xs. xs) ex_small_conf (en0, compaction_bt_new (cf_level_factor ex_small_conf), fs0) evs (en, bt, fs) \<and>
    bt_step (\<lambda>xs. xs) False ThCompact (en_levels en, bt, fs) = Some (en_levels en, bt\<lparr>bt_phase := BtPanicked\<rparr>, fs)"
proof -
  obtain evs en bt fs where w: "ex_two_segments = Some (evs, en, bt, fs)"
    using ex_two_segments_run by (cases ex_two_segments) auto
  note ok = ex_two_segments_run [unfolded w option.case prod.case]
  have ph: "bt_phase bt = BtWoken False" using ok by (cases "bt_phase bt") (simp_all split: bool.splits)
  obtain s where s: "ex_thread_start = Some s" using w by (auto simp: ex_two_segments_def split: option.splits)
  obtain en0 fs0 where e: "storage_engine_new ex_crc (\<lambda>xs. xs) ex_small_conf ex_store_fs = Some (Ok en0, fs0)"
    "s = (en0, compaction_bt_new (cf_level_factor ex_small_conf), fs0)"
    using s by (auto simp: ex_thread_start_def split: option.splits prod.splits res.splits)
  have run: "thread_run ex_crc (\<lambda>xs. xs) ex_small_conf s evs (en, bt, fs)"
    by (rule thread_exec_run [OF _ tr_start]) (rule w [unfolded ex_two_segments_def s option.case])
  have "do_compact (en_levels en)" "even (length (ol_segments (lc_level_zero (en_levels en))))" using ok by auto
  from even_level_zero_ends_compaction [OF e(1) ex_small_new run [unfolded e(2)] ph this]
  show ?thesis using e run by blast
qed

end
