(* ===== verification/Known_Gaps.thy ===== *)
theory Known_Gaps
  imports Mem_Recovery Sst_Level Tcp_Protocol
begin

text \<open>
  Behaviours of the code that differ from what its comments, its design document or its other
  parts rely on, each as a theorem about the operation that has it: segments that recovery
  passes over, a log that starts again at number 0, buffers that a short read leaves with a gap,
  a file name used twice, a start that panics, and responses without a length.
\<close>

section \<open>The log\<close>

text \<open>
  \<open>final_entry_after\<close> multiplies the number of a segment with the size of its \<^emph>\<open>file\<close>.  A
  segment other than the first that is filled at most to half therefore counts as older than
  every entry it holds, and a start that asks for one of them passes over the file.
\<close>

theorem part_filled_segment_passed_over:
  assumes S: "0 < S" "S dvd 2 ^ 32" and k: "1 \<le> k" "S * k < 2 ^ 32"
    and n: "2 * n \<le> S" and s: "S * k \<le> s"
  shows "list_filter [(wal_path dir S (S * k), n)] s = Ok []"
proof (rule list_filter_none)
  have "n * (k + 1) \<le> n * (2 * k)" using k(1) by simp
  also have "\<dots> = 2 * n * k" by simp
  also have "\<dots> \<le> S * k" using n by (rule mult_le_mono1)
  finally have "n * (k + 1) \<le> s" using s by simp
  moreover have "S * k < 2 ^ 63" using k(2) by simp
  moreover have "S * k div S = k" using S(1) by simp
  ultimately show "\<forall>(p, m) \<in> set [(wal_path dir S (S * k), n)].
      final_entry_after (last p) m s = (Ok False :: (io_error, bool) res)"
    using final_entry_after_wal_path [OF S, of "S * k" n dir s] n k(2) by simp
qed

text \<open>
  When every segment is passed over, the log starts again: the first segment is cut to
  nothing and the next entry has number 0, whatever number the start was given.
\<close>

theorem log_starts_again_at_zero:
  assumes nf: "fs_faults fs = []" and S: "0 < S" "S dvd 2 ^ 32"
    and none: "find_and_open_segments dir S s (fs\<lparr>fs_dirs := dir # fs_dirs fs\<rparr>) =
      (Ok [], fs\<lparr>fs_dirs := dir # fs_dirs fs\<rparr>)"
  shows "\<exists>ww fs'. memtable_start crc dir S s max_size fs = (Ok ww, fs') \<and> ww_table ww = [] \<and>
    next_lsn (wal_active (ww_wal ww)) = (Ok 0 :: (io_error, nat) res) \<and>
    fs_content fs' (wal_path dir S 0) = Some []"
proof -
  let ?fs = "fs\<lparr>fs_dirs := dir # fs_dirs fs\<rparr>" and ?p = "wal_path dir S 0"
  have dir: "fs_create_dir_all dir fs = (Ok (), ?fs)" using nf by (simp add: fs_create_dir_all_def)
  have fn: "determine_segment_filename 0 0 S = (Ok (wal_name 0 0 0 @ ''.wal'') :: (io_error, string) res)"
    using determine_segment_filename_eq [of 0 0 S] S(1) by simp
  have sn: "segment_new (dir @ [wal_name 0 0 0 @ ''.wal'']) 0 S = (Ok \<lparr>seg_path = ?p,
      seg_file_size = 0, seg_max_size = S, seg_base_lsn = 0\<rparr> :: (io_error, wal_segment) res)"
    using segment_new_wal_path [OF S(2,1), of 0 dir] by (simp add: wal_path_0)
  have cr: "fs_create (dir @ [wal_name 0 0 0 @ ''.wal'']) ?fs = (Ok (), fs_store ?p [] ?fs)"
    using nf by (simp add: fs_create_def wal_path_0)
  show ?thesis
    by (simp add: memtable_start_def dir none wal_create_new_def fn sn cr worker_from_def
        next_lsn_def add_chk_def)
qed

text \<open>
  The rest of a split entry is in the next segment.  When a crash left only a part of it there,
  recovery takes the length of the header off an offset that is 0.
\<close>

theorem part_of_split_entry_panics:
  assumes e: "wal_entry_ok e" and nf: "fs_faults fs = []"
    and c: "fs_content fs (seg_path seg) = Some (take n (drop HEADER_SIZE (wal_frame crc e)))"
    and n: "HEADER_SIZE + n < length (wal_frame crc e)"
  shows "read_parse_validate_from_partial_record crc seg (take HEADER_SIZE (wal_frame crc e)) fs =
    (([], Panic), fs)"
proof -
  let ?h = "take HEADER_SIZE (wal_frame crc e)" and ?c = "take n (drop HEADER_SIZE (wal_frame crc e))"
  have h: "length ?h = HEADER_SIZE" using n by simp
  have "parse_validate_wal_entries crc (seg_path seg) (?h @ ?c) =
      ([], Ok (Some \<lparr>pe_path = seg_path seg, pe_offset = 0, pe_bytes = ?h\<rparr>))"
    using parse_entries_header_tail [of "[]" e "?h @ ?c" crc "seg_path seg"] e n by simp
  moreover have "0 < HEADER_SIZE" by (simp add: HEADER_SIZE_def)
  ultimately show ?thesis
    using fs_read_no_faults [OF nf c] h
    by (simp add: read_parse_validate_from_partial_record_def sub_chk_def Let_def)
qed

section \<open>Sorted tables\<close>

text \<open>
  \<open>read_table_entries\<close> and \<open>read_table_entry\<close> move on by the running total.  Three bytes read
  one at a time leave the third one unread, and the buffer is returned as if it were full.
\<close>

lemma read_one_byte:
  assumes "fs_faults fs = Some 1 # fl" "fs_content fs p = Some c" "off < length c" "0 < n"
  shows "fs_read_at p off n fs = (Ok [c ! off], fs\<lparr>fs_faults := fl\<rparr>)"
proof -
  have "take (min n (Suc 0)) (drop off c) = [c ! off]"
    using assms(3,4) by (cases n) (simp_all add: take_Suc hd_drop_conv_nth)
  then show ?thesis using assms(1,2) by (simp add: fs_read_at_def fs_tick_def fs_content_def)
qed

lemma read_loop_step:
  assumes "bytes_read < want" "bo \<le> length buf" "bs \<noteq> []"
    and "fs_read_at p co (length buf - bo) fs = (Ok bs, fs')"
  shows "read_loop p want buf bo co bytes_read fs =
    read_loop p want (take bo buf @ bs @ drop (bo + length bs) buf)
      (bo + (bytes_read + length bs)) (co + (bytes_read + length bs)) (bytes_read + length bs) fs'"
  using assms by (subst read_loop.simps) (simp add: Let_def)

theorem short_reads_leave_gap:
  assumes nf: "fs_faults fs = [Some 1, Some 1]" and c: "fs_content fs p = Some c" "start + 1 < length c"
  shows "read_table_entries p start (start + 3) fs =
    (vec_from_bytes [c ! start, c ! (start + 1), 0], fs\<lparr>fs_faults := []\<rparr>)"
proof -
  let ?fs1 = "fs\<lparr>fs_faults := [Some 1]\<rparr>" and ?fs2 = "fs\<lparr>fs_faults := []\<rparr>"
  have c12: "fs_content ?fs1 p = Some c" "fs_content ?fs2 p = Some c"
    using c(1) by (simp_all add: fs_content_def)
  have r: "fs_read_at p start 3 fs = (Ok [c ! start], ?fs1)"
    "fs_read_at p (start + 1) 2 ?fs1 = (Ok [c ! (start + 1)], ?fs2)"
    using read_one_byte [OF nf c(1)] read_one_byte [OF _ c12(1)] c(2) by simp_all
  have r3: "fs_read_at p (start + 3) 0 ?fs2 = (Ok [], ?fs2)"
    using fs_read_at_no_faults [OF _ c12(2)] by simp
  have l3: "read_loop p 3 [c ! start, c ! (start + 1), 0] 3 (start + 3) 2 ?fs2 =
      (Ok ([c ! start, c ! (start + 1), 0], start + 5), ?fs2)"
    by (subst read_loop.simps) (simp add: r3)
  have "read_loop p 3 [c ! start, 0, 0] 1 (start + 1) 1 ?fs1 =
      read_loop p 3 [c ! start, c ! (start + 1), 0] 3 (start + 3) 2 ?fs2"
    using read_loop_step [of 1 3 1 "[c ! start, 0, 0]" "[c ! (start + 1)]" p "start + 1" ?fs1 ?fs2] r(2)
    by (simp add: numeral_2_eq_2 numeral_3_eq_3)
  moreover have "read_loop p 3 [0, 0, 0] 0 start 0 fs = read_loop p 3 [c ! start, 0, 0] 1 (start + 1) 1 ?fs1"
    using read_loop_step [of 0 3 0 "[0, 0, 0]" "[c ! start]" p start fs ?fs1] r(1)
    by (simp add: numeral_3_eq_3)
  ultimately have "read_loop p 3 [0, 0, 0] 0 start 0 fs =
      (Ok ([c ! start, c ! (start + 1), 0], start + 5), ?fs2)"
    by (simp only: l3)
  moreover have "replicate 3 (0 :: u8) = [0, 0, 0]" by (simp add: numeral_eq_Suc)
  ultimately show ?thesis
    by (simp add: read_table_entries_def sub_chk_def split: res.split)
qed

text \<open>
  A segment file is opened without being cut.  Under the name of a file that exists, the writer
  counts from the length of the old file while it writes from the start: the footer points past
  the data, and what was longer stays behind it.
\<close>

theorem reused_file_has_wrong_footer:
  fixes e :: sst_entry
  defines "data \<equiv> le_bytes 4 (length (sst_to_bytes e)) @ sst_to_bytes e"
  assumes nf: "fs_faults fs = []" and dir: "dir \<in> set (fs_dirs fs)" and sp: "1 < sparsity"
    and fn: "sst_filename l n = (Ok f :: (io_error, string) res)"
    and old: "fs_content fs (dir @ [f]) = Some old"
  shows "\<exists>sw sw1 sw2 fs'. create_new_segment dir l n sparsity fs = (Ok sw, fs) \<and>
    write_entry e sw = (Ok sw1 :: (io_error, segment_writer) res) \<and>
    write_index_and_footer sw1 fs = (Ok sw2, fs') \<and>
    fs_content fs' (dir @ [f]) = Some (data @ footer_to_bytes (length old + length data) @
      drop (length data + SEGMENT_FOOTER_LEN) old)"
proof -
  let ?p = "dir @ [f]"
  let ?sw = "\<lparr>sw_path = ?p, sw_pending = [], sw_curr_size = length old, sw_sparsity = sparsity,
    sw_index = index_new, sw_target_size = SEGMENT_SIZE, sw_entries_written = 0, sw_finished = False\<rparr>"
  let ?sw1 = "?sw\<lparr>sw_pending := data, sw_entries_written := 1, sw_curr_size := length old + length data\<rparr>"
  let ?out = "data @ footer_to_bytes (length old + length data)"
  have len: "length data = length (sst_to_bytes e) + 4" by (simp add: data_def)
  have "fs_open_write ?p fs = (Ok (length old), fs)" using nf dir old by (simp add: fs_open_write_def)
  then have "create_new_segment dir l n sparsity fs = (Ok ?sw, fs)"
    by (simp add: create_new_segment_def fn Let_def)
  moreover have "write_entry e ?sw = (Ok ?sw1 :: (io_error, segment_writer) res)"
    using sp by (simp add: write_entry_def len Let_def) (simp add: data_def)
  moreover have "fs_write_front ?p ?out fs = (Ok (), fs_store ?p (?out @ drop (length ?out) old) fs)"
    using nf dir old by (simp add: fs_write_front_def)
  then have "write_index_and_footer ?sw1 fs = (Ok (?sw1\<lparr>sw_pending := [], sw_finished := True\<rparr>),
      fs_store ?p (?out @ drop (length ?out) old) fs)"
    by (simp add: write_index_and_footer_def index_new_def index_to_bytes_def Let_def)
  moreover have "length ?out = length data + SEGMENT_FOOTER_LEN"
    by (simp add: footer_to_bytes_def Sst_Segment.MAGIC_BYTES_def SEGMENT_FOOTER_LEN_def)
  then have "fs_content (fs_store ?p (?out @ drop (length ?out) old) fs) ?p =
      Some (data @ footer_to_bytes (length old + length data) @ drop (length data + SEGMENT_FOOTER_LEN) old)"
    by simp
  ultimately show ?thesis by blast
qed

text \<open>
  A level that exceeds its target below another level stops the start with a panic: how far
  its merge got is a \<open>todo!()\<close>.
\<close>

lemma check_merge_statuses_Panic_iff:
  "check_merge_statuses ls = Panic \<longleftrightarrow> (\<exists>l \<in> set (butlast ls). partitioned_exceeds l)"
  by (induction ls rule: check_merge_statuses.induct) auto

theorem full_level_panics_at_start:
  assumes "bind_act (fs_read_dir dir) (\<lambda>ds. open_all (map fst ds)) fs = (Ok segs, fs1)" "segs \<noteq> []"
    and "group_levels zero_size factor sparsity (sort_key sg_level_number segs) [] [] [] = (zero, levels)"
    and "l \<in> set (butlast levels)" "partitioned_exceeds l"
  shows "container_from_dir order dir zero_size factor sparsity fs = Some (Panic, fs1)"
proof -
  have "check_merge_statuses levels = Panic" using assms(4,5) by (auto simp: check_merge_statuses_Panic_iff)
  then show ?thesis using assms(1-3) by (simp add: container_from_dir_def)
qed

section \<open>The protocol\<close>

text \<open>
  A response carries no length.  One with a longer payload starts with the bytes of the shorter
  one, and an empty value reads like no value.
\<close>

theorem responses_not_delimited:
  "as_bytes t = as_bytes s @ xs \<Longrightarrow>
    response_to_bytes u (r\<lparr>tp_payload := Some t\<rparr>) = response_to_bytes u (r\<lparr>tp_payload := Some s\<rparr>) @ xs"
  "as_bytes s = [] \<Longrightarrow>
    response_to_bytes u (r\<lparr>tp_payload := Some s\<rparr>) = response_to_bytes u (r\<lparr>tp_payload := None\<rparr>)"
  by (simp_all add: response_to_bytes_def)

text \<open>The design document numbers the types put 0, delete 1, get 2 and heartbeat 3.\<close>

theorem request_type_numbers:
  "parse_request_type 0 = Some ReqDelete" "parse_request_type 1 = Some ReqGet"
  "parse_request_type 2 = Some ReqPut" "parse_request_type 3 = None"
  by (simp_all add: parse_request_type_def)

end
