(* ===== verification/Spec2Isabelle.thy ===== *)
theory Spec2Isabelle
  imports Net_Properties Restart_Properties Thread_Properties Known_Gaps
begin

text \<open>
  A verification library for rkvs, a key-value store in Rust: a log-structured storage engine
  (\<open>src/storage_engine*\<close>) behind a TCP server (\<open>src/tcp\<close>, \<open>src/lib.rs\<close>).  All paths are
  relative to the crate.

  \<^bold>\<open>The program.\<close>  A write is appended to the write-ahead log and entered in the memtable by
  one writer thread; when the memtable is full, the flusher writes it to a segment file that
  joins level zero of the sorted table.  A read looks into the memtable, then into level zero
  and the partitioned levels above it.  A background thread merges segments into higher
  levels.  At start the log is replayed.  Connections parse requests, call the engine and
  answer; a manager waits for their tasks.

  \<^bold>\<open>The theories\<close>, in the order of the dependencies:
  \<^item> \<open>Rkvs_Prelude\<close>: results with error and panic, actions on a state (\<open>act\<close>), byte encodings,
    checked slices and arithmetic, \<open>String\<close> as valid UTF-8 (\<open>rstring\<close>, with the class instances
    for equality, the byte order and size); the simp collection \<open>codec\<close> and the rules
    \<open>outcome\<close>.
  \<^item> \<open>File_System\<close>: files, directories and a schedule of I/O errors (the part of \<open>std::fs\<close> that
    is used); the locale \<open>fs_invariant\<close> gives every operation's preservation lemma for
    well-formedness and for frames.
  \<^item> \<open>Record_Stream\<close>: the locale \<open>record_stream\<close> of length-prefixed readers, interpreted for the
    log, the sorted table's two readers and the index.
  \<^item> \<open>Wal_Segment\<close> (\<open>storage_engine/memtable/wal/segment.rs\<close>), \<open>Write_Ahead_Log\<close>
    (\<open>storage_engine/memtable/wal.rs\<close>): names, entries, the validating parser; append with
    splitting, padding and rotation, and the invariant \<open>wal_inv\<close> that ties the files to the
    list of entries logged.
  \<^item> \<open>Mem_Table\<close> (\<open>storage_engine/memtable.rs\<close>): the write worker and the start-up;
    \<open>Mem_Recovery\<close>, \<open>Mem_Worker\<close>, \<open>Mem_Crash\<close>: replay restores the table, the worker refines a
    map, a torn write is rolled back; \<open>Mem_Flush\<close>: the locale \<open>table_flush\<close>, what a flusher
    must promise the worker and what follows for reads.
  \<^item> \<open>Sst_Entry\<close> (\<open>storage_engine/sstable.rs\<close>), \<open>Sst_Segment\<close>
    (\<open>storage_engine/sstable/level/segment.rs\<close>), \<open>Sst_Lookup\<close>: entries, index, segment files;
    a segment that was written opens and is searched as its list of entries.
  \<^item> \<open>Sst_Merge\<close>, \<open>Sst_Level\<close> (\<open>storage_engine/sstable/level.rs\<close>): the merge of the read buffers,
    levels, the container; \<open>Sst_Table\<close> (\<open>storage_engine/sstable.rs\<close>,
    \<open>storage_engine/memtable_flusher.rs\<close>): lookup through the levels (locale \<open>sst_level\<close>,
    interpreted for both kinds of level) and the flusher as a \<open>table_flush\<close>.
  \<^item> \<open>Compaction\<close> (\<open>storage_engine/sstable/compaction.rs\<close>), \<open>Sst_Compact\<close>: the background thread
    as whole turns; what a turn keeps, and what the merge does to disjoint and touching key
    ranges.  \<open>Compaction_Thread\<close> is the same thread (\<open>CompactionBt::run\<close>) cut at its locks and
    waits, with \<open>SsTable::start\<close> and \<open>Drop\<close>; a turn is a sequence of its steps, and the join
    returns exactly when the merge in flight does.  \<open>Sst_Select\<close>: which segments
    \<open>segments_to_merge\<close> takes from a level zero that the flusher numbered.
  \<^item> \<open>Storage_Engine\<close> (\<open>storage_engine.rs\<close>): the commands, start, shutdown, panics; the engine as a
    map, also for a \<open>get\<close> that is interleaved with writes.
  \<^item> \<open>Engine_System\<close>: the engine and whole turns of the compaction thread, as a step relation;
    through the first compaction the two remain a map.  \<open>Engine_Restart\<close>: what a stop at any
    point of such a run, also in the middle of a write, leaves for the next start.
    \<open>Engine_Thread\<close>: the engine and the single steps of the thread, commands running between
    snapshot, swap and deletion; \<open>Engine_Numbering\<close>: the numbers of level zero along such runs.
  \<^item> \<open>Tcp_Protocol\<close> (\<open>tcp/protocol.rs\<close>), \<open>Tcp_Connection\<close> (\<open>tcp/connection.rs\<close>): the wire, the loop
    of one connection on the locale \<open>store\<close> (interpreted by the engine).  \<open>Server\<close>
    (\<open>lib.rs\<close>, \<open>tcp/connection_manager.rs\<close>): accept loop, connections and manager as one step
    system with the bounded channel; \<open>Server_Run\<close>: what it says to its peers and does to the
    store; \<open>Server_Life\<close>: its invariant, and when it can stop.
  \<^item> \<open>Log_Properties\<close>, \<open>Sst_Properties\<close>, \<open>Engine_Properties\<close>, \<open>System_Properties\<close>,
    \<open>Restart_Properties\<close>, \<open>Thread_Properties\<close>, \<open>Net_Properties\<close>: the properties, each with its
    number and a witness on a concrete run; theorems without a number are kept as part of the
    library.
  \<^item> \<open>Known_Gaps\<close>: where an operation does not do what its comment, \<open>design.md\<close> or its other
    parts rely on, as theorems: segments that recovery passes over, numbers that start again,
    short reads, reused file names, responses without a length.

  \<^bold>\<open>State and effects.\<close>  Every operation is a function on explicit state and returns \<open>Ok\<close>,
  \<open>Err\<close> or \<open>Panic\<close>; a panic is a failed assertion, \<open>unwrap\<close>, index, slice, \<open>todo!()\<close>, division by
  zero or (as in a debug build) an arithmetic overflow.  Bytes are \<open>8 word\<close>, the integers of
  the code are \<open>nat\<close> with their checks and casts written out.  Hash maps are association lists;
  the iteration order of the one whose order matters is a parameter.  The threads are
  sequences of steps: jobs of the writer, steps of the compaction, events of the server.

  \<^bold>\<open>Parameters.\<close>  The checksum of the \<open>crc\<close> crate is any function; no property assumes that it
  detects errors, except where a mismatch is a hypothesis.  The \<open>uuid\<close> crate is a record of
  four functions with its documented lengths and its round trip (\<open>uuid_ok\<close>).

  \<^bold>\<open>Termination and bounds.\<close>  Loops are total functions where they end.  The merge
  (\<open>ms_inner\<close>, \<open>ms_loop\<close>, \<open>merge_loop\<close>, \<open>merge_top\<close>, \<open>compact_loop\<close>) is not known to end, and one
  property shows that it need not: these are partial functions into \<open>option\<close>, and what is
  proved of them is a value \<open>Some\<close>.  A stream that stalls within a request is \<open>None\<close> as well.
  The properties bound sequence numbers by \<open>2 ^ 63\<close> and tables by \<open>2 ^ 62\<close> or \<open>2 ^ 64\<close> bytes and
  segment numbers by \<open>16 ^ 8\<close>, which is what the encodings can express; there is no fuel.

  \<^bold>\<open>Not modelled.\<close>  Locks and reference counts as such (an operation acts on the whole state;
  which segments are still read is a parameter of the deletion), the fairness of tokio and
  of the threads (the steps interleave in any order), open file handles (segments are read by path, which differs
  only for a file that was deleted or replaced while it is open), timeouts other than as events, \<open>sync\<close> (never called), the
  partial effect of a failed write of a segment file, \<open>main.rs\<close> (it prints a greeting).  The
  product of target sizes in \<open>LevelContainer::from_dir\<close> and the sum of segment sizes are
  unbounded here.  The status and the rollback of interrupted merges are \<open>todo!()\<close> in the
  source: a panic in the model.
\<close>

end
